(* ===== verification/Http.thy ===== *)
theory Http
  imports Prelude
begin

text \<open>
  What the gateway uses of Go's \<^verbatim>\<open>net/http\<close>: header maps with canonical keys, request
  bodies behind \<^verbatim>\<open>MaxBytesReader\<close>, the request with the context values the gateway's
  middlewares store in it, origin responses, and the environment a handler runs in (the clock, the
  network, the random source). What the network answers is an arbitrary function of the number of
  earlier calls and of the request sent, so every theorem holds for every behaviour of the origins.
\<close>

section \<open>Headers\<close>

type_synonym header = "string \<rightharpoonup> string list"

definition valid_field_byte :: "char \<Rightarrow> bool" where
  "valid_field_byte c \<longleftrightarrow> ascii_upper c \<or> ascii_lower c \<or> ascii_digit c \<or>
     c \<in> set (''!#$%&*+-.^_|~'' @ [CHR 39, CHR 96])"

fun canon_from :: "bool \<Rightarrow> string \<Rightarrow> string" where
  "canon_from up [] = []"
| "canon_from up (c # cs) = (if up then upper_char c else lower_char c) # canon_from (c = CHR ''-'') cs"

text \<open>\<^verbatim>\<open>CanonicalHeaderKey\<close>: a name with a byte that no header field has is left as it is.\<close>

definition canonicalKey :: "string \<Rightarrow> string" where
  "canonicalKey s = (if list_all valid_field_byte s then canon_from True s else s)"

definition hValues :: "header \<Rightarrow> string \<Rightarrow> string list" where
  "hValues h k = (case h (canonicalKey k) of None \<Rightarrow> [] | Some vs \<Rightarrow> vs)"

definition hGet :: "header \<Rightarrow> string \<Rightarrow> string" where
  "hGet h k = (case hValues h k of [] \<Rightarrow> '''' | v # _ \<Rightarrow> v)"

definition hSet :: "string \<Rightarrow> string \<Rightarrow> header \<Rightarrow> header" where
  "hSet k v h = h(canonicalKey k \<mapsto> [v])"

definition hAdd :: "string \<Rightarrow> string \<Rightarrow> header \<Rightarrow> header" where
  "hAdd k v h = h(canonicalKey k \<mapsto> hValues h k @ [v])"

definition hDel :: "string \<Rightarrow> header \<Rightarrow> header" where
  "hDel k h = h(canonicalKey k := None)"

text \<open>
  \<^verbatim>\<open>for k, v := range m { h.Set(k, v) }\<close>: a Go map is listed here in the order its range
  statement visits it.
\<close>

definition setAll :: "(string \<times> string) list \<Rightarrow> header \<Rightarrow> header" where
  "setAll kvs h = fold (\<lambda>(k, v). hSet k v) kvs h"

text \<open>\<^verbatim>\<open>copyHeader\<close> of \<^verbatim>\<open>httputil\<close>: every value of the source is added.\<close>

definition copyHeader :: "header \<Rightarrow> header \<Rightarrow> header" where
  "copyHeader dst src = (\<lambda>k. case src k of None \<Rightarrow> dst k
      | Some vs \<Rightarrow> (if vs = [] then dst k
                    else Some ((case dst k of None \<Rightarrow> [] | Some us \<Rightarrow> us) @ vs)))"

section \<open>Request bodies\<close>

datatype body_error = BodyTooLarge | BodyBroken

text \<open>
  A body delivers its bytes and then ends, or delivers some bytes and breaks; \<open>Limited n b\<close> is
  \<^verbatim>\<open>http.MaxBytesReader\<close> around \<open>b\<close>.
\<close>

datatype body = Bytes string | Broken string | Limited int body

fun readAll :: "body \<Rightarrow> string \<times> body_error option" where
  "readAll (Bytes s) = (s, None)"
| "readAll (Broken s) = (s, Some BodyBroken)"
| "readAll (Limited n b) =
     (let n = max 0 n; (s, e) = readAll b
      in if int (length s) > n then (take (nat n) s, Some BodyTooLarge) else (s, e))"

section \<open>Requests and responses\<close>

record request =
  reqMethod :: string
  reqHost :: string
  urlScheme :: string
  urlHost :: string
  urlPath :: string
  urlRawQuery :: string
  urlQuery :: "string \<rightharpoonup> string list" \<comment> \<open>what \<^verbatim>\<open>URL.Query()\<close> returns for the client's request\<close>
  reqHeader :: header
  remoteAddr :: string
  contentLength :: int
  reqBody :: "body option"
  ctxClientIP :: "string option"
  ctxRequestID :: "string option"
  ctxInboundID :: "string option"
  ctxSpan :: "string option" \<comment> \<open>the \<^verbatim>\<open>traceparent\<close> of a valid span context\<close>

definition queryGet :: "request \<Rightarrow> string \<Rightarrow> string" where
  "queryGet r k = (case urlQuery r k of Some (v # _) \<Rightarrow> v | _ \<Rightarrow> '''')"

record response =
  respStatus :: int
  respHeader :: header
  respBody :: string
  respBroken :: bool \<comment> \<open>the connection fails after the bytes of \<open>respBody\<close>\<close>
  respInfo :: "(int \<times> header) list" \<comment> \<open>informational (1xx) responses received before this one\<close>

text \<open>Errors of a round trip; \<open>NetError\<close> are those that implement \<^verbatim>\<open>net.Error\<close>.\<close>

datatype rt_error = NetError string | OtherError string | BodyError body_error

section \<open>The environment of a handler\<close>

record env =
  clock :: instant
  netOracle :: "nat \<Rightarrow> request \<Rightarrow> (rt_error + response) \<times> nat" \<comment> \<open>answer and time it took\<close>
  netCalls :: "request list" \<comment> \<open>requests handed to the network, oldest first\<close>
  sleeps :: "duration list"
  randOracle :: "nat \<Rightarrow> int"
  randCount :: nat

text \<open>
  A \<^verbatim>\<open>http.RoundTripper\<close>: the outcome is \<open>None\<close> when the call panics, otherwise an
  error or a response. \<open>netRoundTrip\<close> is \<^verbatim>\<open>http.Transport.RoundTrip\<close>.
\<close>

type_synonym 'w roundTripper = "request \<Rightarrow> 'w \<Rightarrow> (rt_error + response) option \<times> 'w"

definition netRoundTrip :: "'a env_scheme roundTripper" where
  "netRoundTrip r w =
     (let (res, d) = netOracle w (length (netCalls w)) r
      in (Some res, w\<lparr>clock := clock w + int d, netCalls := netCalls w @ [r]\<rparr>))"

text \<open>\<^verbatim>\<open>time.Sleep\<close>: a negative or zero duration returns at once.\<close>

definition timeSleep :: "duration \<Rightarrow> 'a env_scheme \<Rightarrow> 'a env_scheme" where
  "timeSleep d w = w\<lparr>clock := clock w + max 0 d, sleeps := sleeps w @ [d]\<rparr>"

text \<open>\<^verbatim>\<open>rand.Int63n(n)\<close> for a positive \<open>n\<close>: some number from 0 to \<open>n - 1\<close>.\<close>

definition randInt63n :: "int \<Rightarrow> 'a env_scheme \<Rightarrow> int \<times> 'a env_scheme" where
  "randInt63n n w = (randOracle w (randCount w) mod n, w\<lparr>randCount := Suc (randCount w)\<rparr>)"

lemmas env_defs = netRoundTrip_def timeSleep_def randInt63n_def

section \<open>Header laws\<close>

lemma hValues_hSet: "hValues (hSet k v h) k' = (if canonicalKey k' = canonicalKey k then [v] else hValues h k')"
  by (simp add: hValues_def hSet_def)

lemma hGet_hSet: "hGet (hSet k v h) k' = (if canonicalKey k' = canonicalKey k then v else hGet h k')"
  by (simp add: hGet_def hValues_hSet)

lemma hValues_hAdd:
  "hValues (hAdd k v h) k' = (if canonicalKey k' = canonicalKey k then hValues h k @ [v] else hValues h k')"
  by (simp add: hValues_def hAdd_def)

lemma hValues_hDel: "hValues (hDel k h) k' = (if canonicalKey k' = canonicalKey k then [] else hValues h k')"
  by (simp add: hValues_def hDel_def)

lemma hGet_hDel: "hGet (hDel k h) k' = (if canonicalKey k' = canonicalKey k then '''' else hGet h k')"
  by (simp add: hGet_def hValues_hDel)

lemma hGet_hAdd: "hGet (hAdd k v h) k' =
    (if canonicalKey k' = canonicalKey k then case hValues h k of [] \<Rightarrow> v | u # _ \<Rightarrow> u else hGet h k')"
  by (auto simp: hGet_def hValues_hAdd split: list.splits)

lemmas header_laws = hGet_hAdd hValues_hSet hGet_hSet hValues_hAdd hValues_hDel hGet_hDel

lemma hSet_commute:
  "canonicalKey k \<noteq> canonicalKey k' \<Longrightarrow> hSet k v (hSet k' v' h) = hSet k' v' (hSet k v h)"
  by (auto simp: hSet_def)

text \<open>\<open>lastSet kvs k\<close>: the value the last pair for the canonical name \<open>k\<close> carries.\<close>

fun lastSet :: "(string \<times> string) list \<Rightarrow> string \<Rightarrow> string option" where
  "lastSet [] k = None"
| "lastSet ((k', v) # kvs) k =
     (case lastSet kvs k of Some u \<Rightarrow> Some u | None \<Rightarrow> if canonicalKey k' = k then Some v else None)"

lemma setAll_simps [simp]:
  "setAll [] h = h"
  "setAll ((k, v) # kvs) h = setAll kvs (hSet k v h)"
  by (simp_all add: setAll_def)

lemma setAll_lookup:
  "setAll kvs h k = (case lastSet kvs k of Some v \<Rightarrow> Some [v] | None \<Rightarrow> h k)"
  by (induction kvs arbitrary: h) (auto simp: hSet_def split: option.splits)

lemma lastSet_None_iff: "lastSet kvs k = None \<longleftrightarrow> k \<notin> canonicalKey ` fst ` set kvs"
  by (induction kvs) (auto split: option.splits)

lemma lastSet_distinct:
  assumes "distinct (map (canonicalKey \<circ> fst) kvs)" "(k, v) \<in> set kvs"
  shows "lastSet kvs (canonicalKey k) = Some v"
  using assms
proof (induction kvs)
  case (Cons kv kvs)
  obtain k' v' where kv: "kv = (k', v')" by (cases kv)
  show ?case
  proof (cases "(k, v) = kv")
    case True
    then have "lastSet kvs (canonicalKey k) = None"
      using Cons.prems kv by (auto simp: lastSet_None_iff image_image)
    with True kv show ?thesis by simp
  next
    case False
    then have "lastSet kvs (canonicalKey k) = Some v"
      using Cons by auto
    with kv show ?thesis by simp
  qed
qed simp

text \<open>
  When no two names have the same canonical form, the order in which a range statement visits the
  map does not matter.
\<close>

lemma setAll_order_irrelevant:
  assumes "distinct (map (canonicalKey \<circ> fst) kvs)" "distinct (map (canonicalKey \<circ> fst) kvs')"
    and "set kvs = set kvs'"
  shows "setAll kvs h = setAll kvs' h"
proof
  fix k
  have "lastSet kvs k = lastSet kvs' k"
  proof (cases "lastSet kvs k")
    case None
    then show ?thesis using assms(3) by (metis lastSet_None_iff)
  next
    case (Some v)
    then have "k \<in> canonicalKey ` fst ` set kvs" by (metis lastSet_None_iff option.distinct(1))
    then obtain k' v' where "(k', v') \<in> set kvs" "k = canonicalKey k'" by auto
    then show ?thesis
      using assms lastSet_distinct by metis
  qed
  then show "setAll kvs h k = setAll kvs' h k"
    by (simp add: setAll_lookup)
qed

section \<open>Canonical names\<close>

lemma lower_char_idem [simp]: "lower_char (lower_char c) = lower_char c"
proof (cases "ascii_upper c")
  case True
  then have "65 \<le> (of_char c :: nat)" "(of_char c :: nat) \<le> 90"
    by (simp_all add: ascii_upper_def less_eq_char_def)
  then show ?thesis
    by (auto simp: lower_char_def ascii_upper_def less_eq_char_def)
qed (simp add: lower_char_def)

lemma toLower_idem [simp]: "toLower (toLower s) = toLower s"
  by (simp add: toLower_def)

section \<open>Bodies behind a limit\<close>

lemma readAll_Limited_bound: "int (length (fst (readAll (Limited n b)))) \<le> max 0 n"
  by (auto simp: Let_def split: prod.splits)

lemma readAll_Limited_small:
  assumes "readAll b = (s, e)" "int (length s) \<le> n"
  shows "readAll (Limited n b) = (s, e)"
  using assms by simp

lemma readAll_Limited_large:
  assumes "0 \<le> n" "n < int (length (fst (readAll b)))"
  shows "snd (readAll (Limited n b)) = Some BodyTooLarge"
  using assms by (auto simp: Let_def split: prod.splits)

section \<open>Environment laws\<close>

lemma netRoundTrip_calls [simp]: "netCalls (snd (netRoundTrip r w)) = netCalls w @ [r]"
  by (simp add: netRoundTrip_def split: prod.splits)

lemma netRoundTrip_res [simp]: "fst (netRoundTrip r w) = Some (fst (netOracle w (length (netCalls w)) r))"
  by (simp add: netRoundTrip_def split: prod.splits)

lemma netRoundTrip_sleeps [simp]: "sleeps (snd (netRoundTrip r w)) = sleeps w"
  by (simp add: netRoundTrip_def split: prod.splits)

lemma netRoundTrip_oracle [simp]: "netOracle (snd (netRoundTrip r w)) = netOracle w"
  by (simp add: netRoundTrip_def split: prod.splits)

lemma netRoundTrip_clock: "clock w \<le> clock (snd (netRoundTrip r w))"
  by (simp add: netRoundTrip_def split: prod.splits)

lemma netRoundTrip_more [simp]: "env.more (snd (netRoundTrip r w)) = env.more w"
  by (simp add: netRoundTrip_def split: prod.splits)

lemma timeSleep_keeps [simp]:
  "env.more (timeSleep d w) = env.more w"
  "netCalls (timeSleep d w) = netCalls w" "netOracle (timeSleep d w) = netOracle w"
  "sleeps (timeSleep d w) = sleeps w @ [d]"
  by (simp_all add: timeSleep_def)

lemma randInt63n_keeps [simp]:
  "env.more (snd (randInt63n n w)) = env.more w"
  "netCalls (snd (randInt63n n w)) = netCalls w" "netOracle (snd (randInt63n n w)) = netOracle w"
  "sleeps (snd (randInt63n n w)) = sleeps w" "clock (snd (randInt63n n w)) = clock w"
  by (simp_all add: randInt63n_def)

lemma timeSleep_clock: "clock w \<le> clock (timeSleep d w)"
  by (simp add: timeSleep_def)

lemma randInt63n_range: "0 < n \<Longrightarrow> 0 \<le> fst (randInt63n n w) \<and> fst (randInt63n n w) < n"
  by (simp add: randInt63n_def)

section \<open>Concrete values for the witnesses\<close>

text \<open>A request, an answer, and a network that refuses the first connection only.\<close>

definition demo_request :: request where
  "demo_request = \<lparr>reqMethod = ''GET'', reqHost = ''shop.test'', urlScheme = [], urlHost = [],
     urlPath = ''/catalog'', urlRawQuery = ''page=2'', urlQuery = [''page'' \<mapsto> [''2'']], reqHeader = Map.empty, remoteAddr = ''10.0.0.9:5000'',
     contentLength = 2, reqBody = Some (Limited 5 (Bytes ''hi'')), ctxClientIP = None,
     ctxRequestID = None, ctxInboundID = None, ctxSpan = None\<rparr>"

definition demo_response :: response where
  "demo_response = \<lparr>respStatus = 200, respHeader = Map.empty, respBody = ''ok'', respBroken = False,
     respInfo = []\<rparr>"

definition demo_env :: env where
  "demo_env = \<lparr>clock = 100, netOracle = (\<lambda>n r. (if n = 0 then Inl (NetError ''refused'') else Inr demo_response, 3)),
     netCalls = [], sleeps = [], randOracle = (\<lambda>n. 7), randCount = 0\<rparr>"

lemma demo_request_fields:
  "reqHeader demo_request = Map.empty" "contentLength demo_request = 2" "reqMethod demo_request = ''GET''"
  "remoteAddr demo_request = ''10.0.0.9:5000''" "reqBody demo_request = Some (Limited 5 (Bytes ''hi''))"
  by (simp_all add: demo_request_def)

end
