(* ===== verification/Response_Writer.thy ===== *)
theory Response_Writer
  imports Http
begin

text \<open>
  The \<^verbatim>\<open>http.ResponseWriter\<close> a handler writes to. The server's own writer is \<open>Base\<close>;
  \<^verbatim>\<open>metrics.statusWriter\<close> and \<^verbatim>\<open>plugin.responseHeadersWriter\<close> wrap another
  writer, and each call runs through the wrappers as the embedded interfaces do. The theory also
  fixes the type of handlers and the contract a handler keeps towards the writer it is given.
\<close>

section \<open>The server's writer\<close>

record base_writer =
  hdr :: header \<comment> \<open>what \<^verbatim>\<open>w.Header()\<close> returns\<close>
  wroteHeader :: bool
  sentStatus :: int
  sentHeader :: header
  informational :: "(int \<times> header) list"
  sentBody :: string
  canHijack :: bool
  hijacked :: bool

definition base_writeHeader :: "int \<Rightarrow> base_writer \<Rightarrow> base_writer" where
  "base_writeHeader code b =
     (if hijacked b \<or> wroteHeader b then b
      else if 100 \<le> code \<and> code \<le> 199 \<and> code \<noteq> 101 then
        b\<lparr>informational := informational b @ [(code, hdr b)]\<rparr>
      else b\<lparr>wroteHeader := True, sentStatus := code, sentHeader := hdr b\<rparr>)"

definition bodyAllowedForStatus :: "int \<Rightarrow> bool" where
  "bodyAllowedForStatus status \<longleftrightarrow> \<not> (100 \<le> status \<and> status \<le> 199) \<and> status \<noteq> 204 \<and> status \<noteq> 304"

definition base_write :: "string \<Rightarrow> base_writer \<Rightarrow> base_writer" where
  "base_write bytes b =
     (if hijacked b then b
      else let b = (if wroteHeader b then b else base_writeHeader 200 b)
           in if bodyAllowedForStatus (sentStatus b) then b\<lparr>sentBody := sentBody b @ bytes\<rparr> else b)"

definition base_flush :: "base_writer \<Rightarrow> base_writer" where
  "base_flush b = (if wroteHeader b then b else base_writeHeader 200 b)"

definition base_hijack :: "base_writer \<Rightarrow> bool \<times> base_writer" where
  "base_hijack b = (if canHijack b \<and> \<not> hijacked b then (True, b\<lparr>hijacked := True\<rparr>) else (False, b))"

section \<open>The wrapping writers\<close>

record responseHeaderRule =
  contentType :: string
  ruleHeaders :: "(string \<times> string) list"

record responseHeaders =
  rhHeaders :: "(string \<times> string) list"
  rhRules :: "responseHeaderRule list"

text \<open>\<^verbatim>\<open>responseHeaders.apply\<close>.\<close>

definition rh_apply :: "responseHeaders \<Rightarrow> header \<Rightarrow> header" where
  "rh_apply p h =
     (let h = setAll (rhHeaders p) h
      in if rhRules p = [] then h
         else let ct = toLower (hGet h ''Content-Type'')
              in fold (\<lambda>rule h. if hasPrefix ct (contentType rule) then setAll (ruleHeaders rule) h else h)
                   (rhRules p) h)"

datatype writer =
    Base base_writer
  | StatusWriter int writer \<comment> \<open>\<^verbatim>\<open>statusWriter\<close>: the recorded status, the wrapped writer\<close>
  | ResponseHeadersWriter responseHeaders bool writer \<comment> \<open>the plugin, \<^verbatim>\<open>applied\<close>, the wrapped writer\<close>

fun base_of :: "writer \<Rightarrow> base_writer" where
  "base_of (Base b) = b"
| "base_of (StatusWriter st w) = base_of w"
| "base_of (ResponseHeadersWriter p a w) = base_of w"

text \<open>No wrapper overrides \<^verbatim>\<open>Header()\<close>: all share the server writer's header map.\<close>

fun mapHeader :: "(header \<Rightarrow> header) \<Rightarrow> writer \<Rightarrow> writer" where
  "mapHeader f (Base b) = Base (b\<lparr>hdr := f (hdr b)\<rparr>)"
| "mapHeader f (StatusWriter st w) = StatusWriter st (mapHeader f w)"
| "mapHeader f (ResponseHeadersWriter p a w) = ResponseHeadersWriter p a (mapHeader f w)"

lemma size_mapHeader [simp, termination_simp]: "size (mapHeader f w) = size w"
  by (induction w) auto

fun applyOnce :: "writer \<Rightarrow> writer" where
  "applyOnce (ResponseHeadersWriter p a w) =
     (if a then ResponseHeadersWriter p a w
      else ResponseHeadersWriter p True (mapHeader (rh_apply p) w))"
| "applyOnce w = w"

fun writeHeader :: "int \<Rightarrow> writer \<Rightarrow> writer" where
  "writeHeader code (Base b) = Base (base_writeHeader code b)"
| "writeHeader code (StatusWriter st w) = StatusWriter code (writeHeader code w)"
| "writeHeader code (ResponseHeadersWriter p a w) =
     (if code \<ge> 200 \<and> \<not> a then ResponseHeadersWriter p True (writeHeader code (mapHeader (rh_apply p) w))
      else ResponseHeadersWriter p a (writeHeader code w))"

fun writeW :: "string \<Rightarrow> writer \<Rightarrow> writer" where
  "writeW bytes (Base b) = Base (base_write bytes b)"
| "writeW bytes (StatusWriter st w) = StatusWriter st (writeW bytes w)"
| "writeW bytes (ResponseHeadersWriter p a w) =
     ResponseHeadersWriter p True (writeW bytes (if a then w else mapHeader (rh_apply p) w))"

text \<open>
  \<^verbatim>\<open>ResponseController.Flush\<close> and \<^verbatim>\<open>.Hijack\<close>: the first writer on the way down that
  implements the optional interface handles the call; \<^verbatim>\<open>Unwrap\<close> leads from one to the next.
\<close>

fun flushW :: "writer \<Rightarrow> writer" where
  "flushW (Base b) = Base (base_flush b)"
| "flushW (StatusWriter st w) = StatusWriter st (flushW w)"
| "flushW (ResponseHeadersWriter p a w) =
     ResponseHeadersWriter p True (flushW (if a then w else mapHeader (rh_apply p) w))"

fun hijackW :: "writer \<Rightarrow> bool \<times> writer" where
  "hijackW (Base b) = (let (ok, b') = base_hijack b in (ok, Base b'))"
| "hijackW (StatusWriter st w) =
     (let (ok, w') = hijackW w in (ok, StatusWriter (if ok then 101 else st) w'))"
| "hijackW (ResponseHeadersWriter p a w) = (let (ok, w') = hijackW w in (ok, ResponseHeadersWriter p a w'))"

text \<open>What the server does when the handler has returned.\<close>

definition finishRequest :: "base_writer \<Rightarrow> base_writer" where
  "finishRequest b = (if wroteHeader b then b else base_writeHeader 200 b)"

text \<open>\<^verbatim>\<open>http.Error\<close>.\<close>

definition httpError :: "string \<Rightarrow> int \<Rightarrow> writer \<Rightarrow> writer" where
  "httpError msg code w =
     writeW (msg @ [CHR 10])
       (writeHeader code
         (mapHeader (hSet ''X-Content-Type-Options'' ''nosniff'' \<circ>
            hSet ''Content-Type'' ''text/plain; charset=utf-8'' \<circ> hDel ''Content-Length'') w))"

section \<open>Handlers\<close>

text \<open>A handler returns, or panics; either way the writer and the world are left as they are then.\<close>

datatype 'w hres = Done writer 'w | Panicked writer 'w

type_synonym 'w handler = "writer \<Rightarrow> request \<Rightarrow> 'w \<Rightarrow> 'w hres"

fun writer_of :: "'w hres \<Rightarrow> writer" where
  "writer_of (Done w s) = w"
| "writer_of (Panicked w s) = w"

fun world_of :: "'w hres \<Rightarrow> 'w" where
  "world_of (Done w s) = s"
| "world_of (Panicked w s) = s"

fun map_writer :: "(writer \<Rightarrow> writer) \<Rightarrow> 'w hres \<Rightarrow> 'w hres" where
  "map_writer f (Done w s) = Done (f w) s"
| "map_writer f (Panicked w s) = Panicked (f w) s"

text \<open>The writer a wrapper was put around.\<close>

fun unwrap :: "writer \<Rightarrow> writer" where
  "unwrap (Base b) = Base b"
| "unwrap (StatusWriter st w) = w"
| "unwrap (ResponseHeadersWriter p a w) = w"

section \<open>What the calls leave alone\<close>

text \<open>The wrappers of a writer, outermost first, without what changes in them.\<close>

datatype layer = StatusLayer | HeadersLayer responseHeaders

fun shape :: "writer \<Rightarrow> layer list" where
  "shape (Base b) = []"
| "shape (StatusWriter st w) = StatusLayer # shape w"
| "shape (ResponseHeadersWriter p a w) = HeadersLayer p # shape w"

lemma shape_mapHeader [simp]: "shape (mapHeader f w) = shape w"
  by (induction w) auto

lemma shape_writeHeader [simp]: "shape (writeHeader c w) = shape w"
  by (induction c w rule: writeHeader.induct) auto

lemma shape_write [simp]: "shape (writeW s w) = shape w"
  by (induction s w rule: writeW.induct) auto

lemma shape_flushW [simp]: "shape (flushW w) = shape w"
  by (induction w rule: flushW.induct) auto

lemma shape_hijackW [simp]: "shape (snd (hijackW w)) = shape w"
  by (induction w rule: hijackW.induct) (auto simp: Let_def split: prod.splits)

lemma base_mapHeader [simp]: "base_of (mapHeader f w) = (base_of w)\<lparr>hdr := f (hdr (base_of w))\<rparr>"
  by (induction w) auto

lemma mapHeader_comp [simp]: "mapHeader f (mapHeader g w) = mapHeader (f \<circ> g) w"
  by (induction w) auto

text \<open>The header map as the server's writer finds it when the wrappers have had their turn.\<close>

fun rh_all :: "writer \<Rightarrow> header \<Rightarrow> header" where
  "rh_all (Base b) h = h"
| "rh_all (StatusWriter st w) h = rh_all w h"
| "rh_all (ResponseHeadersWriter p a w) h = rh_all w (if a then h else rh_apply p h)"

lemma rh_all_mapHeader [simp]: "rh_all (mapHeader f w) = rh_all w"
  by (rule ext, rename_tac h, induction w) auto

lemma base_writeHeader_final:
  assumes "200 \<le> code"
  shows "base_of (writeHeader code w) =
    base_writeHeader code ((base_of w)\<lparr>hdr := rh_all w (hdr (base_of w))\<rparr>)"
  using assms by (induction code w rule: writeHeader.induct) auto

lemma base_write_eq:
  "base_of (writeW s w) = base_write s ((base_of w)\<lparr>hdr := rh_all w (hdr (base_of w))\<rparr>)"
  by (induction s w rule: writeW.induct) auto

lemma base_flush_eq:
  "base_of (flushW w) = base_flush ((base_of w)\<lparr>hdr := rh_all w (hdr (base_of w))\<rparr>)"
  by (induction w rule: flushW.induct) auto

lemma base_writeHeader_low:
  assumes "code < 200"
  shows "base_of (writeHeader code w) = base_writeHeader code (base_of w)"
  using assms by (induction code w rule: writeHeader.induct) auto

lemma base_hijack_eq: "fst (hijackW w) = fst (base_hijack (base_of w)) \<and>
    base_of (snd (hijackW w)) = snd (base_hijack (base_of w))"
  by (induction w rule: hijackW.induct) (auto simp: Let_def split: prod.splits)

section \<open>Recorded status\<close>

text \<open>
  The statuses the wrapping status writers have recorded, outermost first. A writer is \<open>fresh\<close>
  when nothing was sent through it yet and every status writer still holds its initial 200; it is
  \<open>settled\<close> when every recorded status is the one the client gets: the status sent, 101 after the
  connection was handed over, or the 200 the server sends when the handler wrote nothing.
\<close>

fun statuses :: "writer \<Rightarrow> int list" where
  "statuses (Base b) = []"
| "statuses (StatusWriter st w) = st # statuses w"
| "statuses (ResponseHeadersWriter p a w) = statuses w"

definition client_status :: "base_writer \<Rightarrow> int" where
  "client_status b = (if wroteHeader b then sentStatus b else if hijacked b then 101 else 200)"

definition fresh :: "writer \<Rightarrow> bool" where
  "fresh w \<longleftrightarrow> \<not> wroteHeader (base_of w) \<and> \<not> hijacked (base_of w) \<and> (\<forall>st \<in> set (statuses w). st = 200)"

definition settled :: "writer \<Rightarrow> bool" where
  "settled w \<longleftrightarrow> (\<forall>st \<in> set (statuses w). st = client_status (base_of w))"

lemma fresh_settled: "fresh w \<Longrightarrow> settled w"
  by (auto simp: fresh_def settled_def client_status_def)

lemma statuses_mapHeader [simp]: "statuses (mapHeader f w) = statuses w"
  by (induction w) auto

lemma statuses_writeHeader [simp]: "statuses (writeHeader c w) = map (\<lambda>_. c) (statuses w)"
  by (induction c w rule: writeHeader.induct) auto

lemma statuses_write [simp]: "statuses (writeW s w) = statuses w"
  by (induction s w rule: writeW.induct) auto

lemma statuses_flushW [simp]: "statuses (flushW w) = statuses w"
  by (induction w rule: flushW.induct) auto

lemma statuses_hijackW:
  "statuses (snd (hijackW w)) = (if fst (hijackW w) then map (\<lambda>_. 101) (statuses w) else statuses w)"
  by (induction w rule: hijackW.induct) (auto simp: Let_def split: prod.splits)

lemma fresh_mapHeader [simp]: "fresh (mapHeader f w) \<longleftrightarrow> fresh w"
  by (simp add: fresh_def)

lemma fresh_StatusWriter [simp]: "fresh (StatusWriter 200 w) \<longleftrightarrow> fresh w"
  by (simp add: fresh_def)

lemma fresh_ResponseHeadersWriter [simp]: "fresh (ResponseHeadersWriter p a w) \<longleftrightarrow> fresh w"
  by (simp add: fresh_def)

lemma settled_ResponseHeadersWriter [simp]: "settled (ResponseHeadersWriter p a w) \<longleftrightarrow> settled w"
  by (simp add: settled_def)

lemma settled_StatusWriter: "settled (StatusWriter st w) \<Longrightarrow> settled w \<and> st = client_status (base_of w)"
  by (simp add: settled_def)

lemma client_status_update [simp]: "client_status (b\<lparr>hdr := h\<rparr>) = client_status b"
  by (simp add: client_status_def)

lemma settled_mapHeader [simp]: "settled (mapHeader f w) \<longleftrightarrow> settled w"
  by (simp add: settled_def)

lemma writeHeader_fresh_sent:
  assumes "fresh w" "200 \<le> code"
  shows "wroteHeader (base_of (writeHeader code w))" "sentStatus (base_of (writeHeader code w)) = code"
    "sentHeader (base_of (writeHeader code w)) = rh_all w (hdr (base_of w))"
    "\<not> hijacked (base_of (writeHeader code w))"
  using assms by (auto simp: base_writeHeader_final base_writeHeader_def fresh_def)

lemma settled_writeHeader: "fresh w \<Longrightarrow> 200 \<le> code \<Longrightarrow> settled (writeHeader code w)"
  using writeHeader_fresh_sent [of w code] by (auto simp: settled_def client_status_def)

text \<open>Nothing final was sent yet; informational responses may have been.\<close>

definition unsent :: "writer \<Rightarrow> bool" where
  "unsent w \<longleftrightarrow> \<not> wroteHeader (base_of w) \<and> \<not> hijacked (base_of w)"

lemma fresh_unsent: "fresh w \<Longrightarrow> unsent w"
  by (simp add: fresh_def unsent_def)

lemma unsent_mapHeader [simp]: "unsent (mapHeader f w) \<longleftrightarrow> unsent w"
  by (simp add: unsent_def)

lemma unsent_informational: "unsent w \<Longrightarrow> code < 200 \<Longrightarrow> 100 \<le> code \<Longrightarrow> code \<noteq> 101 \<Longrightarrow> unsent (writeHeader code w)"
  by (simp add: unsent_def base_writeHeader_low base_writeHeader_def)

lemma writeHeader_unsent_sent:
  assumes "unsent w" "200 \<le> code"
  shows "wroteHeader (base_of (writeHeader code w))" "sentStatus (base_of (writeHeader code w)) = code"
    "sentHeader (base_of (writeHeader code w)) = rh_all w (hdr (base_of w))"
  using assms by (auto simp: base_writeHeader_final base_writeHeader_def unsent_def)

lemma settled_writeHeader_unsent: "unsent w \<Longrightarrow> 200 \<le> code \<Longrightarrow> settled (writeHeader code w)"
  using writeHeader_unsent_sent [of w code] by (auto simp: settled_def client_status_def)

lemma settled_hijackW_unsent: "unsent w \<Longrightarrow> fst (hijackW w) \<Longrightarrow> settled (snd (hijackW w))"
  using base_hijack_eq [of w]
  by (auto simp: settled_def statuses_hijackW client_status_def unsent_def base_hijack_def split: if_splits)

lemma unsent_hijack_failed: "unsent w \<Longrightarrow> \<not> fst (hijackW w) \<Longrightarrow> unsent (snd (hijackW w))"
  using base_hijack_eq [of w] by (auto simp: unsent_def base_hijack_def split: if_splits)

lemma base_write_keeps:
  assumes "wroteHeader b"
  shows "wroteHeader (base_write s b)" "sentStatus (base_write s b) = sentStatus b"
    "sentHeader (base_write s b) = sentHeader b" "hijacked (base_write s b) = hijacked b"
  using assms by (auto simp: base_write_def Let_def)

lemma write_keeps:
  assumes "wroteHeader (base_of w)"
  shows "wroteHeader (base_of (writeW s w))" "sentStatus (base_of (writeW s w)) = sentStatus (base_of w)"
    "sentHeader (base_of (writeW s w)) = sentHeader (base_of w)"
    "hijacked (base_of (writeW s w)) = hijacked (base_of w)"
  using assms by (simp_all add: base_write_eq base_write_keeps)

lemma settled_write: "settled w \<Longrightarrow> settled (writeW s w)"
proof -
  assume s: "settled w"
  have "client_status (base_of (writeW s w)) = client_status (base_of w)"
    by (simp add: base_write_eq base_write_def base_writeHeader_def client_status_def Let_def)
  with s show ?thesis by (auto simp: settled_def)
qed

lemma settled_hijackW: "fresh w \<Longrightarrow> settled (snd (hijackW w))"
  using base_hijack_eq [of w]
  by (auto simp: settled_def statuses_hijackW client_status_def fresh_def base_hijack_def split: if_splits)

lemma settled_httpError: "fresh w \<Longrightarrow> 200 \<le> code \<Longrightarrow> settled (httpError msg code w)"
  unfolding httpError_def by (intro settled_write settled_writeHeader) simp_all

lemma shape_httpError [simp]: "shape (httpError msg code w) = shape w"
  by (simp add: httpError_def)

lemma httpError_sent:
  assumes "fresh w" "200 \<le> code"
  shows "wroteHeader (base_of (httpError msg code w))" "sentStatus (base_of (httpError msg code w)) = code"
  using assms by (simp_all add: httpError_def write_keeps writeHeader_fresh_sent)

section \<open>Headers set on the response\<close>

text \<open>Every call a handler can make on its writer; a run is any sequence of them.\<close>

datatype wcall =
    CallHeader "header \<Rightarrow> header"
  | CallWriteHeader int
  | CallWrite string
  | CallFlush
  | CallHijack

fun wcall_do :: "wcall \<Rightarrow> writer \<Rightarrow> writer" where
  "wcall_do (CallHeader f) w = mapHeader f w"
| "wcall_do (CallWriteHeader c) w = writeHeader c w"
| "wcall_do (CallWrite s) w = writeW s w"
| "wcall_do CallFlush w = flushW w"
| "wcall_do CallHijack w = snd (hijackW w)"

definition run_calls :: "wcall list \<Rightarrow> writer \<Rightarrow> writer" where
  "run_calls cs w = fold wcall_do cs w"

fun unapplied :: "writer \<Rightarrow> bool" where
  "unapplied (Base b) = True"
| "unapplied (StatusWriter st w) = unapplied w"
| "unapplied (ResponseHeadersWriter p a w) = (\<not> a \<and> unapplied w)"

text \<open>The plugins of a stack of wrappers applied in turn, the outermost wrapper first.\<close>

fun stack_apply :: "layer list \<Rightarrow> header \<Rightarrow> header" where
  "stack_apply [] h = h"
| "stack_apply (StatusLayer # ls) h = stack_apply ls h"
| "stack_apply (HeadersLayer p # ls) h = stack_apply ls (rh_apply p h)"

lemma rh_all_unapplied: "unapplied w \<Longrightarrow> rh_all w h = stack_apply (shape w) h"
  by (induction w arbitrary: h) auto

lemma unapplied_mapHeader [simp]: "unapplied (mapHeader f w) = unapplied w"
  by (induction w) auto

lemma unapplied_writeHeader_low: "code < 200 \<Longrightarrow> unapplied (writeHeader code w) = unapplied w"
  by (induction code w rule: writeHeader.induct) auto

lemma unapplied_hijackW [simp]: "unapplied (snd (hijackW w)) = unapplied w"
  by (induction w rule: hijackW.induct) (auto simp: Let_def split: prod.splits)

lemma shape_wcall_do [simp]: "shape (wcall_do c w) = shape w"
  by (cases c) simp_all

lemma wcall_do_written:
  assumes "wroteHeader (base_of w)"
  shows "wroteHeader (base_of (wcall_do c w)) \<and> sentHeader (base_of (wcall_do c w)) = sentHeader (base_of w) \<and>
    sentStatus (base_of (wcall_do c w)) = sentStatus (base_of w)"
proof (cases c)
  case (CallWriteHeader x)
  then show ?thesis
    using assms by (cases "x < 200")
      (simp_all add: base_writeHeader_low base_writeHeader_final base_writeHeader_def)
next
  case CallHijack
  then show ?thesis using assms base_hijack_eq [of w] by (simp add: base_hijack_def)
qed (use assms in \<open>simp_all add: write_keeps base_flush_eq base_flush_def\<close>)

lemma wcall_do_hijacked:
  assumes "hijacked (base_of w)" "\<not> wroteHeader (base_of w)"
  shows "hijacked (base_of (wcall_do c w)) \<and> \<not> wroteHeader (base_of (wcall_do c w))"
proof (cases c)
  case (CallWriteHeader x)
  then show ?thesis
    using assms by (cases "x < 200")
      (simp_all add: base_writeHeader_low base_writeHeader_final base_writeHeader_def)
next
  case CallHijack
  then show ?thesis using assms base_hijack_eq [of w] by (simp add: base_hijack_def)
qed (use assms in \<open>simp_all add: base_write_eq base_write_def base_flush_eq base_flush_def base_writeHeader_def\<close>)

definition headers_inv :: "layer list \<Rightarrow> writer \<Rightarrow> bool" where
  "headers_inv ls w \<longleftrightarrow> shape w = ls \<and>
     (wroteHeader (base_of w) \<and> 200 \<le> sentStatus (base_of w) \<longrightarrow>
        (\<exists>h. sentHeader (base_of w) = stack_apply ls h)) \<and>
     (unapplied w \<or> wroteHeader (base_of w) \<or> hijacked (base_of w))"

lemma headers_inv_step: "headers_inv ls w \<Longrightarrow> headers_inv ls (wcall_do c w)"
proof -
  assume inv: "headers_inv ls w"
  consider "wroteHeader (base_of w)"
    | "\<not> wroteHeader (base_of w)" "hijacked (base_of w)"
    | "\<not> wroteHeader (base_of w)" "\<not> hijacked (base_of w)" "unapplied w"
    using inv by (auto simp: headers_inv_def)
  then show ?thesis
  proof cases
    case 1
    then show ?thesis
      using 1 inv wcall_do_written [of w c] by (auto simp: headers_inv_def)
  next
    case 2
    then show ?thesis
      using inv wcall_do_hijacked [of w c] by (auto simp: headers_inv_def)
  next
    case 3
    then have all: "rh_all w h = stack_apply ls h" for h
      using inv by (simp add: rh_all_unapplied headers_inv_def)
    show ?thesis
    proof (cases c)
      case (CallWriteHeader x)
      then show ?thesis
        using 3 inv all by (cases "x < 200")
          (auto simp: headers_inv_def base_writeHeader_low base_writeHeader_final base_writeHeader_def
            unapplied_writeHeader_low)
    next
      case CallHijack
      then show ?thesis
        using 3 inv base_hijack_eq [of w] by (cases "canHijack (base_of w)")
          (auto simp: headers_inv_def base_hijack_def)
    qed (use 3 inv all in \<open>auto simp: headers_inv_def base_write_eq base_write_def base_flush_eq
           base_flush_def base_writeHeader_def Let_def\<close>)
  qed
qed

lemma headers_inv_run: "headers_inv ls w \<Longrightarrow> headers_inv ls (run_calls cs w)"
  unfolding run_calls_def by (induction cs arbitrary: w) (auto intro: headers_inv_step)

section \<open>The contract of a handler\<close>

text \<open>
  A handler given a fresh writer returns the writer with the same wrappers, and when it returns
  normally the statuses recorded by the wrappers are right. A middleware makes a handler of a
  handler and keeps the contract.
\<close>

definition handler_ok :: "'w handler \<Rightarrow> bool" where
  "handler_ok h \<longleftrightarrow> (\<forall>w r s. shape (writer_of (h w r s)) = shape w \<and>
     (\<forall>w' s'. fresh w \<longrightarrow> h w r s = Done w' s' \<longrightarrow> settled w'))"

lemma handler_okI:
  assumes "\<And>w r s. shape (writer_of (h w r s)) = shape w"
    and "\<And>w r s w' s'. fresh w \<Longrightarrow> h w r s = Done w' s' \<Longrightarrow> settled w'"
  shows "handler_ok h"
  using assms by (simp add: handler_ok_def)

lemma handler_ok_shape: "handler_ok h \<Longrightarrow> shape (writer_of (h w r s)) = shape w"
  by (simp add: handler_ok_def)

lemma handler_ok_settled: "handler_ok h \<Longrightarrow> fresh w \<Longrightarrow> h w r s = Done w' s' \<Longrightarrow> settled w'"
  unfolding handler_ok_def by blast

locale middleware =
  fixes wrap :: "'w handler \<Rightarrow> 'w handler"
  assumes wrap_ok: "handler_ok h \<Longrightarrow> handler_ok (wrap h)"

text \<open>The server's writer as the witnesses start from it.\<close>

definition demo_writer :: writer where
  "demo_writer = Base \<lparr>hdr = Map.empty, wroteHeader = False, sentStatus = 0, sentHeader = Map.empty,
     informational = [], sentBody = [], canHijack = True, hijacked = False\<rparr>"

lemma demo_writer_fresh [simp]: "fresh demo_writer" "shape demo_writer = []" "hdr (base_of demo_writer) = Map.empty"
  by (simp_all add: demo_writer_def fresh_def)

end
