(* ===== verification/Net_Addr.thy ===== *)
theory Net_Addr
  imports Http
begin

text \<open>
  What the gateway uses of \<^verbatim>\<open>net\<close> and \<^verbatim>\<open>net/netip\<close>: splitting a host from its
  port, parsing and printing IP addresses, and address prefixes.
\<close>

unbundle bit_operations_syntax

section \<open>Host and port\<close>

definition indexOf :: "char \<Rightarrow> string \<Rightarrow> nat option" where
  "indexOf c s = (if c \<in> set s then Some (length (takeWhile (\<lambda>x. x \<noteq> c) s)) else None)"

definition lastIndexOf :: "char \<Rightarrow> string \<Rightarrow> nat option" where
  "lastIndexOf c s = (if c \<in> set s then Some (length s - 1 - length (takeWhile (\<lambda>x. x \<noteq> c) (rev s))) else None)"

text \<open>\<^verbatim>\<open>net.SplitHostPort\<close>; \<open>None\<close> is an error.\<close>

definition splitHostPort :: "string \<Rightarrow> (string \<times> string) option" where
  "splitHostPort hp =
     (case lastIndexOf CHR '':'' hp of
        None \<Rightarrow> None
      | Some i \<Rightarrow>
          let port = drop (Suc i) hp in
          if hp ! 0 = CHR ''['' then
            (case indexOf CHR '']'' hp of
               None \<Rightarrow> None
             | Some e \<Rightarrow>
                 if Suc e \<noteq> i \<or> CHR ''['' \<in> set (drop 1 hp) \<or> CHR '']'' \<in> set (drop (Suc e) hp) then None
                 else Some (drop 1 (take e hp), port))
          else
            let host = take i hp in
            if CHR '':'' \<in> set host \<or> CHR ''['' \<in> set hp \<or> CHR '']'' \<in> set hp then None
            else Some (host, port))"

section \<open>Addresses\<close>

text \<open>An IPv6 address has a zone, empty for most.\<close>

datatype addr = V4 "32 word" | V6 "128 word" string

definition digit_val :: "char \<Rightarrow> int" where
  "digit_val c = of_char c - 48"

definition dec_val :: "string \<Rightarrow> int" where
  "dec_val s = fold (\<lambda>c n. n * 10 + digit_val c) s 0"

text \<open>A field of a dotted address: at most 255, no leading zero.\<close>

definition octet :: "string \<Rightarrow> int option" where
  "octet s = (if s = [] \<or> \<not> list_all ascii_digit s \<or> (1 < length s \<and> hd s = CHR ''0'') \<or> 255 < dec_val s
              then None else Some (dec_val s))"

definition parseIPv4 :: "string \<Rightarrow> (32 word) option" where
  "parseIPv4 s =
     (case map octet (splitOn CHR ''.'' s) of
        [Some a, Some b, Some c, Some d] \<Rightarrow> Some (of_int (((a * 256 + b) * 256 + c) * 256 + d))
      | _ \<Rightarrow> None)"

definition is_hex :: "char \<Rightarrow> bool" where
  "is_hex c \<longleftrightarrow> ascii_digit c \<or> (CHR ''a'' \<le> c \<and> c \<le> CHR ''f'') \<or> (CHR ''A'' \<le> c \<and> c \<le> CHR ''F'')"

definition hex_val :: "char \<Rightarrow> int" where
  "hex_val c = (if ascii_digit c then of_char c - 48 else of_char (lower_char c) - 87)"

text \<open>
  The loop of \<^verbatim>\<open>netip.parseIPv6\<close>: the 16-bit groups read so far, the position of the
  ellipsis if one was seen, and the rest of the text. It reads at most eight groups.
\<close>

function parseGroups :: "int list \<Rightarrow> nat option \<Rightarrow> string \<Rightarrow> (int list \<times> nat option \<times> string) option" where
  "parseGroups gs ell s =
     (if 8 \<le> length gs then Some (gs, ell, s)
      else
        let ds = takeWhile is_hex s; rest = dropWhile is_hex s in
        if ds = [] \<or> 4 < length ds then None
        else if rest \<noteq> [] \<and> hd rest = CHR ''.'' then
          (if (ell = None \<and> length gs \<noteq> 6) \<or> 6 < length gs then None
           else case parseIPv4 s of
                  None \<Rightarrow> None
                | Some w \<Rightarrow> Some (gs @ [uint w div 65536, uint w mod 65536], ell, []))
        else
          let gs = gs @ [fold (\<lambda>c n. n * 16 + hex_val c) ds 0] in
          if rest = [] then Some (gs, ell, [])
          else if hd rest \<noteq> CHR '':'' \<or> length rest = 1 then None
          else let s = tl rest in
            if hd s = CHR '':'' then
              (if ell \<noteq> None then None
               else if tl s = [] then Some (gs, Some (length gs), [])
               else parseGroups gs (Some (length gs)) (tl s))
            else parseGroups gs ell s)"
  by auto
termination
  by (relation "measure (\<lambda>(gs, ell, s). 8 - length gs)") auto

declare parseGroups.simps [simp del]

definition groups_word :: "int list \<Rightarrow> 128 word" where
  "groups_word gs = of_int (fold (\<lambda>g n. n * 65536 + g) gs 0)"

definition parseIPv6 :: "string \<Rightarrow> addr option" where
  "parseIPv6 s =
     (let body = takeWhile (\<lambda>c. c \<noteq> CHR ''%'') s; rest = dropWhile (\<lambda>c. c \<noteq> CHR ''%'') s; zone = tl rest in
      if rest \<noteq> [] \<and> zone = [] then None
      else
        let zone = (if rest = [] then [] else zone);
            lead = hasPrefix body ''::'';
            body' = (if lead then drop 2 body else body) in
        if lead \<and> body' = [] then Some (V6 0 zone)
        else case parseGroups [] (if lead then Some 0 else None) body' of
               None \<Rightarrow> None
             | Some (gs, ell, left) \<Rightarrow>
                 if left \<noteq> [] then None
                 else case ell of
                        None \<Rightarrow> if length gs < 8 then None else Some (V6 (groups_word gs) zone)
                      | Some e \<Rightarrow>
                          if 8 \<le> length gs then None
                          else Some (V6 (groups_word (take e gs @ replicate (8 - length gs) 0 @ drop e gs)) zone))"

text \<open>\<^verbatim>\<open>netip.ParseAddr\<close>: the first of \<open>.\<close>, \<open>:\<close> and \<open>%\<close> decides the family.\<close>

definition parseAddr :: "string \<Rightarrow> addr option" where
  "parseAddr s =
     (case dropWhile (\<lambda>c. c \<notin> set ''.:%'') s of
        [] \<Rightarrow> None
      | c # _ \<Rightarrow> if c = CHR ''.'' then map_option V4 (parseIPv4 s)
                 else if c = CHR '':'' then parseIPv6 s else None)"

text \<open>\<^verbatim>\<open>Addr.Unmap\<close>: an IPv4-mapped IPv6 address becomes the IPv4 address, without its zone.\<close>

definition unmap :: "addr \<Rightarrow> addr" where
  "unmap a = (case a of V4 w \<Rightarrow> V4 w
              | V6 w z \<Rightarrow> if drop_bit 32 w = 65535 then V4 (ucast w) else V6 w z)"

text \<open>\<^verbatim>\<open>Addr.String\<close>, for addresses that are not IPv4-mapped (the code unmaps before it prints).\<close>

definition showV4 :: "32 word \<Rightarrow> string" where
  "showV4 w = joinWith ''.'' (map itoa
     [uint w div 16777216 mod 256, uint w div 65536 mod 256, uint w div 256 mod 256, uint w mod 256])"

fun hex_nat :: "nat \<Rightarrow> string" where
  "hex_nat n = (if n < 16 then [if n < 10 then char_of (48 + n) else char_of (87 + n)]
                else hex_nat (n div 16) @ hex_nat (n mod 16))"

declare hex_nat.simps [simp del]

definition v6_groups :: "128 word \<Rightarrow> int list" where
  "v6_groups w = map (\<lambda>i. uint (drop_bit (16 * (7 - i)) w) mod 65536) [0..<8]"

text \<open>The first of the longest runs of zero groups, when it has two groups or more.\<close>

definition zero_run :: "int list \<Rightarrow> nat \<times> nat" where
  "zero_run gs = fold (\<lambda>i (start, len).
      let l = length (takeWhile (\<lambda>g. g = 0) (drop i gs)) in if l \<ge> 2 \<and> l > len then (i, l) else (start, len))
    [0..<length gs] (8, 0)"

definition showV6 :: "128 word \<Rightarrow> string \<Rightarrow> string" where
  "showV6 w zone =
     (let gs = v6_groups w; (start, len) = zero_run gs;
          text = (if len = 0 then joinWith '':'' (map (hex_nat \<circ> nat) gs)
                  else joinWith '':'' (map (hex_nat \<circ> nat) (take start gs)) @ ''::'' @
                       joinWith '':'' (map (hex_nat \<circ> nat) (drop (start + len) gs)))
      in if zone = [] then text else text @ CHR ''%'' # zone)"

definition showAddr :: "addr \<Rightarrow> string" where
  "showAddr a = (case a of V4 w \<Rightarrow> showV4 w | V6 w z \<Rightarrow> showV6 w z)"

section \<open>Prefixes\<close>

datatype ipprefix = P4 "32 word" nat | P6 "128 word" nat

text \<open>\<^verbatim>\<open>netip.ParsePrefix\<close> followed by \<^verbatim>\<open>Masked\<close>.\<close>

definition bitsOf :: "string \<Rightarrow> nat \<Rightarrow> nat option" where
  "bitsOf s maxBits = (if s = [] \<or> \<not> list_all ascii_digit s \<or> (1 < length s \<and> hd s = CHR ''0'') \<or> int maxBits < dec_val s
                       then None else Some (nat (dec_val s)))"

definition masked4 :: "32 word \<Rightarrow> nat \<Rightarrow> ipprefix" where
  "masked4 w n = P4 (push_bit (32 - n) (drop_bit (32 - n) w)) n"

definition masked6 :: "128 word \<Rightarrow> nat \<Rightarrow> ipprefix" where
  "masked6 w n = P6 (push_bit (128 - n) (drop_bit (128 - n) w)) n"

definition parsePrefix :: "string \<Rightarrow> ipprefix option" where
  "parsePrefix s =
     (case lastIndexOf CHR ''/'' s of
        None \<Rightarrow> None
      | Some i \<Rightarrow>
          (case parseAddr (take i s) of
             None \<Rightarrow> None
           | Some (V4 w) \<Rightarrow> map_option (masked4 w) (bitsOf (drop (Suc i) s) 32)
           | Some (V6 w z) \<Rightarrow> if z \<noteq> [] then None else map_option (masked6 w) (bitsOf (drop (Suc i) s) 128)))"

text \<open>\<^verbatim>\<open>PrefixFrom(addr, addr.BitLen())\<close>: the zone is dropped.\<close>

definition fullPrefix :: "addr \<Rightarrow> ipprefix" where
  "fullPrefix a = (case a of V4 w \<Rightarrow> P4 w 32 | V6 w z \<Rightarrow> P6 w 128)"

text \<open>\<^verbatim>\<open>Prefix.Contains\<close>: families must agree, and an address with a zone is in no prefix.\<close>

definition contains :: "ipprefix \<Rightarrow> addr \<Rightarrow> bool" where
  "contains p a =
     (case (p, a) of
        (P4 q n, V4 w) \<Rightarrow> drop_bit (32 - n) (q XOR w) = 0
      | (P6 q n, V6 w z) \<Rightarrow> z = [] \<and> drop_bit (128 - n) (q XOR w) = 0
      | _ \<Rightarrow> False)"

section \<open>Addresses are printed without loss\<close>

lemma splitOn_append_sep: "c \<notin> set w \<Longrightarrow> splitOn c (w @ c # s) = w # splitOn c s"
  by (induction w) auto

lemma splitOn_word: "c \<notin> set w \<Longrightarrow> splitOn c w = [w]"
  by (induction w) auto

lemma splitOn_joinWith:
  "ws \<noteq> [] \<Longrightarrow> \<forall>w \<in> set ws. c \<notin> set w \<Longrightarrow> splitOn c (joinWith [c] ws) = ws"
proof (induction ws)
  case (Cons w ws)
  then show ?case by (cases ws) (simp_all add: splitOn_append_sep splitOn_word)
qed simp

lemma digit_char_props:
  assumes "d < 10"
  shows "ascii_digit (digit_char d)" "digit_val (digit_char d) = int d" "digit_char d = CHR ''0'' \<longleftrightarrow> d = 0"
proof -
  have c: "of_char (digit_char d) = 48 + d" using assms by (simp add: digit_char_def)
  have "(of_char (digit_char d) :: int) = int (48 + d)" by (simp only: c [symmetric] of_nat_of_char)
  then show "digit_val (digit_char d) = int d" by (simp add: digit_val_def)
  show "ascii_digit (digit_char d)" using assms c by (simp add: ascii_digit_def less_eq_char_def)
  have "digit_char d = CHR ''0'' \<longleftrightarrow> of_char (digit_char d) = (of_char CHR ''0'' :: nat)"
    by (simp only: of_char_eq_iff)
  then show "digit_char d = CHR ''0'' \<longleftrightarrow> d = 0" using c by simp
qed

lemma itoa_nat_props:
  "list_all ascii_digit (itoa_nat n) \<and> dec_val (itoa_nat n) = int n \<and> itoa_nat n \<noteq> [] \<and>
   (hd (itoa_nat n) = CHR ''0'' \<longrightarrow> n = 0)"
proof (induction n rule: itoa_nat.induct)
  case (1 n)
  show ?case
  proof (cases "n < 10")
    case True
    then show ?thesis by (simp add: itoa_nat.simps [of n] digit_char_props dec_val_def)
  next
    case False
    then have ih: "list_all ascii_digit (itoa_nat (n div 10))" "dec_val (itoa_nat (n div 10)) = int (n div 10)"
      "itoa_nat (n div 10) \<noteq> []" "hd (itoa_nat (n div 10)) \<noteq> CHR ''0''"
      using 1 by auto
    then show ?thesis
      using False by (simp add: itoa_nat.simps [of n] digit_char_props dec_val_def zdiv_int zmod_int)
  qed
qed

lemma itoa_zero [simp]: "itoa_nat 0 = ''0''"
  by code_simp

lemma octet_itoa:
  assumes "0 \<le> n" "n < 256"
  shows "octet (itoa n) = Some n" "list_all ascii_digit (itoa n)"
proof -
  note p = itoa_nat_props [of "nat n"]
  have i: "itoa n = itoa_nat (nat n)" using assms by (simp add: itoa_def)
  have "\<not> (1 < length (itoa_nat (nat n)) \<and> hd (itoa_nat (nat n)) = CHR ''0'')"
    using p by (cases "nat n = 0") auto
  moreover have d: "dec_val (itoa_nat (nat n)) = n" using p assms by linarith
  ultimately have "\<not> (itoa_nat (nat n) = [] \<or> \<not> list_all ascii_digit (itoa_nat (nat n)) \<or>
      (1 < length (itoa_nat (nat n)) \<and> hd (itoa_nat (nat n)) = CHR ''0'') \<or> 255 < dec_val (itoa_nat (nat n)))"
    using p assms by linarith
  then show "octet (itoa n) = Some n" by (simp only: octet_def i d if_False)
  show "list_all ascii_digit (itoa n)" using p i by simp
qed

lemma digit_not_sep: "ascii_digit c \<Longrightarrow> c \<notin> set ''.:%''"
  by (auto simp: ascii_digit_def less_eq_char_def)

lemma parseAddr_digits_dot:
  assumes "list_all ascii_digit w"
  shows "parseAddr (w @ CHR ''.'' # s) = map_option V4 (parseIPv4 (w @ CHR ''.'' # s))"
proof -
  have "dropWhile (\<lambda>c. c \<notin> set ''.:%'') (w @ CHR ''.'' # s) = CHR ''.'' # s"
    using assms digit_not_sep by (subst dropWhile_append2) (auto simp: list_all_iff)
  then show ?thesis by (simp add: parseAddr_def)
qed

lemma horner256:
  fixes n :: int
  assumes "256 * a + x = n" "256 * b + y = a" "256 * c + z = b"
  shows "((c * 256 + z) * 256 + y) * 256 + x = n"
  unfolding assms(1) [symmetric] assms(2) [symmetric] assms(3) [symmetric] by (simp add: algebra_simps)

lemma base256:
  fixes n :: int
  assumes "0 \<le> n" "n < 4294967296"
  shows "(((n div 16777216 mod 256) * 256 + n div 65536 mod 256) * 256 + n div 256 mod 256) * 256 + n mod 256 = n"
proof -
  have "n div 65536 = n div 256 div 256" "n div 16777216 = n div 256 div 256 div 256"
    by (simp_all add: div_mult2_eq [symmetric])
  moreover have "n div 256 div 256 div 256 < 256" using assms by linarith
  moreover have "0 \<le> n div 256 div 256 div 256" using assms by (simp add: pos_imp_zdiv_nonneg_iff)
  ultimately show ?thesis
    using horner256 [OF mult_div_mod_eq mult_div_mod_eq mult_div_mod_eq, of n]
    by (simp only: mod_pos_pos_trivial)
qed

lemma parseIPv4_showV4: "parseIPv4 (showV4 w) = Some w"
proof -
  let ?n = "uint w"
  let ?os = "[?n div 16777216 mod 256, ?n div 65536 mod 256, ?n div 256 mod 256, ?n mod 256]"
  have n: "0 \<le> ?n" "?n < 4294967296" using uint_lt2p [of w] by simp_all
  have "CHR ''.'' \<notin> set (itoa (k mod 256))" for k
    using octet_itoa(2) [of "k mod 256"] digit_not_sep [of "CHR ''.''"] by (auto simp: list_all_iff)
  then have "splitOn CHR ''.'' (showV4 w) = map itoa ?os"
    unfolding showV4_def by (intro splitOn_joinWith) auto
  then have "map octet (splitOn CHR ''.'' (showV4 w)) = map Some ?os"
    using octet_itoa(1) by simp
  then have "parseIPv4 (showV4 w) = Some (of_int
      ((((?n div 16777216 mod 256) * 256 + ?n div 65536 mod 256) * 256 + ?n div 256 mod 256) * 256 + ?n mod 256))"
    unfolding parseIPv4_def by (simp only: list.map list.case option.case)
  also have "(((?n div 16777216 mod 256) * 256 + ?n div 65536 mod 256) * 256 + ?n div 256 mod 256) * 256 + ?n mod 256 = ?n"
    using n by (intro base256)
  finally show ?thesis by simp
qed

lemma dec_val_itoa: "dec_val (itoa (int n)) = int n"
  using itoa_nat_props [of n] unfolding itoa_def by simp

lemma itoa_inj: "itoa (int m) = itoa (int n) \<Longrightarrow> m = n"
  by (metis dec_val_itoa of_nat_eq_iff)

lemma itoa_no_colon: "CHR '':'' \<notin> set (itoa (int n))"
  using itoa_nat_props [of n] digit_not_sep [of "CHR '':''"] by (auto simp: itoa_def list_all_iff)

end
