(* ===== verification/Servemux.thy ===== *)
theory Servemux
  imports Response_Writer Net_Addr
begin

text \<open>
  What the router uses of \<^verbatim>\<open>http.ServeMux\<close>: the syntax of patterns, the rules under which
  two of them conflict, and the choice of a pattern for a request. Percent-encoding in patterns is
  left as it is; names in braces may hold ASCII letters, digits and underscores.
\<close>

section \<open>Patterns\<close>

text \<open>
  A segment is a literal, a wildcard for one segment, or a wildcard for the rest of the path. The
  literal \<open>/\<close> stands for the end of a path that ends in a slash.
\<close>

datatype segment = Lit string | Wild | Multi

record pat =
  patMethod :: string
  patHost :: string
  patSegs :: "segment list"

definition identStart :: "char \<Rightarrow> bool" where
  "identStart c \<longleftrightarrow> ascii_upper c \<or> ascii_lower c \<or> c = CHR ''_''"

definition validWildcardName :: "string \<Rightarrow> bool" where
  "validWildcardName n \<longleftrightarrow> n \<noteq> [] \<and> identStart (hd n) \<and> list_all (\<lambda>c. identStart c \<or> ascii_digit c) n"

text \<open>
  The segments of a path, split at its slashes; the names of the wildcards so far are an argument.
  The last piece is empty when the path ends in a slash.
\<close>

fun parseSegs :: "string list \<Rightarrow> string list \<Rightarrow> segment list option" where
  "parseSegs names [] = Some []"
| "parseSegs names (seg # rest) =
     (if seg = [] \<and> rest = [] then Some [Multi]
      else if CHR ''{'' \<notin> set seg then map_option (\<lambda>ss. Lit seg # ss) (parseSegs names rest)
      else if hd seg \<noteq> CHR ''{'' \<or> last seg \<noteq> CHR ''}'' then None
      else
        let name = butlast (tl seg) in
        if name = ''$'' then (if rest = [] then Some [Lit ''/''] else None)
        else
          let multi = hasSuffix name ''...''; name = trimSuffix name ''...'' in
          if (multi \<and> rest \<noteq> []) \<or> \<not> validWildcardName name \<or> name \<in> set names then None
          else map_option (\<lambda>ss. (if multi then Multi else Wild) # ss) (parseSegs (name # names) rest))"

text \<open>\<^verbatim>\<open>cleanPath\<close>, on the pieces between the slashes.\<close>

fun cleanPieces :: "string list \<Rightarrow> string list \<Rightarrow> string list" where
  "cleanPieces acc [] = rev acc"
| "cleanPieces acc (x # xs) =
     (if x = [] \<or> x = ''.'' then cleanPieces acc xs
      else if x = ''..'' then cleanPieces (tl acc) xs
      else cleanPieces (x # acc) xs)"

definition cleanPath :: "string \<Rightarrow> string" where
  "cleanPath p =
     (if p = [] then ''/''
      else
        let p = (if hd p \<noteq> CHR ''/'' then CHR ''/'' # p else p);
            np = CHR ''/'' # joinWith ''/'' (cleanPieces [] (splitOn CHR ''/'' (tl p)))
        in if last p = CHR ''/'' \<and> np \<noteq> ''/'' then np @ ''/'' else np)"

definition validMethod :: "string \<Rightarrow> bool" where
  "validMethod m \<longleftrightarrow> m \<noteq> [] \<and> list_all valid_field_byte m"

definition isBlank :: "char \<Rightarrow> bool" where
  "isBlank c \<longleftrightarrow> c = CHR '' '' \<or> c = CHR 9"

text \<open>
  \<^verbatim>\<open>parsePattern\<close>, from the method on and in full; \<open>None\<close> makes \<^verbatim>\<open>Handle\<close> panic.
\<close>

definition parseRest :: "string \<Rightarrow> string \<Rightarrow> pat option" where
  "parseRest method rest =
     (if method \<noteq> [] \<and> \<not> validMethod method then None
      else if CHR ''/'' \<notin> set rest then None
      else
        let host = takeWhile (\<lambda>c. c \<noteq> CHR ''/'') rest; path = dropWhile (\<lambda>c. c \<noteq> CHR ''/'') rest in
        if CHR ''{'' \<in> set host then None
        else if method \<noteq> [] \<and> method \<noteq> ''CONNECT'' \<and> path \<noteq> cleanPath path then None
        else map_option (\<lambda>ss. \<lparr>patMethod = method, patHost = host, patSegs = ss\<rparr>)
               (parseSegs [] (splitOn CHR ''/'' (tl path))))"

definition parsePattern :: "string \<Rightarrow> pat option" where
  "parsePattern s =
     (if s = [] then None
      else if list_ex isBlank s then
        parseRest (takeWhile (\<lambda>c. \<not> isBlank c) s) (dropWhile isBlank (dropWhile (\<lambda>c. \<not> isBlank c) s))
      else parseRest [] s)"

lemma parseRest_Some:
  "parseRest method rest = Some p \<Longrightarrow> patMethod p = method \<and> patHost p = takeWhile (\<lambda>c. c \<noteq> CHR ''/'') rest \<and>
    (method = [] \<or> validMethod method) \<and>
    parseSegs [] (splitOn CHR ''/'' (tl (dropWhile (\<lambda>c. c \<noteq> CHR ''/'') rest))) = Some (patSegs p)"
  by (auto simp: parseRest_def Let_def split: if_splits)

lemma valid_field_no_slash: "\<not> valid_field_byte (CHR ''/'')" "\<not> valid_field_byte (CHR '' '')"
  by (simp_all add: valid_field_byte_def ascii_upper_def ascii_lower_def ascii_digit_def less_eq_char_def)

text \<open>A pattern with a method before it, and one without.\<close>

lemma parsePattern_method:
  assumes "list_all (\<lambda>c. \<not> isBlank c) method" "pat \<noteq> []" "\<not> isBlank (hd pat)"
  shows "parsePattern (method @ '' '' @ pat) = parseRest method pat"
proof -
  have b: "isBlank (CHR '' '')" by (simp add: isBlank_def)
  have 1: "takeWhile (\<lambda>c. \<not> isBlank c) (method @ '' '' @ pat) = method"
    using assms(1) b by (simp add: list_all_iff takeWhile_append2)
  have "dropWhile (\<lambda>c. \<not> isBlank c) (method @ '' '' @ pat) = '' '' @ pat"
    using assms(1) b by (simp add: list_all_iff dropWhile_append2)
  moreover have "dropWhile isBlank ('' '' @ pat) = pat" using assms(2,3) b by (cases pat) auto
  ultimately show ?thesis using 1 b by (simp add: parsePattern_def list_ex_iff)
qed

lemma parsePattern_slash:
  assumes "parsePattern (h @ CHR ''/'' # t) = Some p" "list_all (\<lambda>c. \<not> isBlank c) h"
  shows "parsePattern (h @ CHR ''/'' # t) = parseRest [] (h @ CHR ''/'' # t)"
proof (rule ccontr)
  let ?s = "h @ CHR ''/'' # t" and ?m = "takeWhile (\<lambda>c. \<not> isBlank c) (h @ CHR ''/'' # t)"
  assume "parsePattern ?s \<noteq> parseRest [] ?s"
  then have "parsePattern ?s = parseRest ?m (dropWhile isBlank (dropWhile (\<lambda>c. \<not> isBlank c) ?s))"
    by (auto simp: parsePattern_def split: if_splits)
  then have "?m = [] \<or> validMethod ?m" using assms(1) parseRest_Some by metis
  moreover have "CHR ''/'' \<in> set ?m"
    using assms(2) by (simp add: list_all_iff takeWhile_append2 isBlank_def)
  ultimately show False using valid_field_no_slash(1) by (auto simp: validMethod_def list_all_iff)
qed

section \<open>Conflicts\<close>

datatype relationship = Equivalent | MoreGeneral | MoreSpecific | Disjoint | Overlaps

definition combine :: "relationship \<Rightarrow> relationship \<Rightarrow> relationship" where
  "combine r1 r2 =
     (case r1 of
        Equivalent \<Rightarrow> r2
      | Disjoint \<Rightarrow> Disjoint
      | Overlaps \<Rightarrow> if r2 = Disjoint then Disjoint else Overlaps
      | MoreGeneral \<Rightarrow> if r2 = Equivalent then MoreGeneral else if r2 = MoreSpecific then Overlaps else r2
      | MoreSpecific \<Rightarrow> if r2 = Equivalent then MoreSpecific else if r2 = MoreGeneral then Overlaps else r2)"

definition compareMethods :: "string \<Rightarrow> string \<Rightarrow> relationship" where
  "compareMethods m1 m2 =
     (if m1 = m2 then Equivalent
      else if m1 = [] then MoreGeneral
      else if m2 = [] then MoreSpecific
      else if m1 = ''GET'' \<and> m2 = ''HEAD'' then MoreGeneral
      else if m2 = ''GET'' \<and> m1 = ''HEAD'' then MoreSpecific
      else Disjoint)"

fun compareSegments :: "segment \<Rightarrow> segment \<Rightarrow> relationship" where
  "compareSegments Multi Multi = Equivalent"
| "compareSegments Multi _ = MoreGeneral"
| "compareSegments _ Multi = MoreSpecific"
| "compareSegments Wild Wild = Equivalent"
| "compareSegments Wild (Lit s) = (if s = ''/'' then Disjoint else MoreGeneral)"
| "compareSegments (Lit s) Wild = (if s = ''/'' then Disjoint else MoreSpecific)"
| "compareSegments (Lit s) (Lit t) = (if s = t then Equivalent else Disjoint)"

text \<open>The loop over corresponding segments; \<open>m1\<close> and \<open>m2\<close> say whether the patterns end in a multi wildcard.\<close>

fun compareSegs :: "bool \<Rightarrow> bool \<Rightarrow> relationship \<Rightarrow> segment list \<Rightarrow> segment list \<Rightarrow> relationship" where
  "compareSegs m1 m2 rel (x # xs) (y # ys) =
     (let rel = combine rel (compareSegments x y)
      in if rel = Disjoint then Disjoint else compareSegs m1 m2 rel xs ys)"
| "compareSegs m1 m2 rel [] [] = rel"
| "compareSegs m1 m2 rel [] (y # ys) = (if m1 then combine rel MoreGeneral else Disjoint)"
| "compareSegs m1 m2 rel (x # xs) [] = (if m2 then combine rel MoreSpecific else Disjoint)"

definition endsMulti :: "segment list \<Rightarrow> bool" where
  "endsMulti ss \<longleftrightarrow> ss \<noteq> [] \<and> last ss = Multi"

definition comparePaths :: "segment list \<Rightarrow> segment list \<Rightarrow> relationship" where
  "comparePaths xs ys =
     (if length xs \<noteq> length ys \<and> \<not> endsMulti xs \<and> \<not> endsMulti ys then Disjoint
      else compareSegs (endsMulti xs) (endsMulti ys) Equivalent xs ys)"

definition comparePathsAndMethods :: "pat \<Rightarrow> pat \<Rightarrow> relationship" where
  "comparePathsAndMethods p1 p2 =
     (let mrel = compareMethods (patMethod p1) (patMethod p2)
      in if mrel = Disjoint then Disjoint else combine mrel (comparePaths (patSegs p1) (patSegs p2)))"

definition conflictsWith :: "pat \<Rightarrow> pat \<Rightarrow> bool" where
  "conflictsWith p1 p2 \<longleftrightarrow> patHost p1 = patHost p2 \<and> comparePathsAndMethods p1 p2 \<in> {Equivalent, Overlaps}"

text \<open>The mux is the list of its patterns; \<open>None\<close> is a panic of \<^verbatim>\<open>Handle\<close>.\<close>

type_synonym 'h mux = "(pat \<times> 'h) list"

definition muxHandle :: "string \<Rightarrow> 'h \<Rightarrow> 'h mux \<Rightarrow> 'h mux option" where
  "muxHandle s h m =
     (case parsePattern s of
        None \<Rightarrow> None
      | Some p \<Rightarrow> if list_ex (\<lambda>(q, _). conflictsWith p q) m then None else Some (m @ [(p, h)]))"

section \<open>Matching\<close>

text \<open>The segments of a request path, ending in the literal \<open>/\<close> when the path ends in a slash.\<close>

definition pathSegs :: "string \<Rightarrow> string list" where
  "pathSegs path =
     (let ps = splitOn CHR ''/'' (tl path)
      in if last ps = [] then butlast ps @ [''/''] else ps)"

text \<open>
  \<^verbatim>\<open>routingNode.matchPath\<close>: the tree of the patterns is the list of what remains of each; a
  literal is tried before a wildcard, and that before the multi wildcard.
\<close>

definition afterLit :: "string \<Rightarrow> (segment list \<times> 'a) list \<Rightarrow> (segment list \<times> 'a) list" where
  "afterLit s ps = map (\<lambda>(ss, a). (tl ss, a)) (filter (\<lambda>(ss, a). ss \<noteq> [] \<and> hd ss = Lit s) ps)"

definition afterWild :: "(segment list \<times> 'a) list \<Rightarrow> (segment list \<times> 'a) list" where
  "afterWild ps = map (\<lambda>(ss, a). (tl ss, a)) (filter (\<lambda>(ss, a). ss \<noteq> [] \<and> hd ss = Wild) ps)"

fun matchPath :: "(segment list \<times> 'a) list \<Rightarrow> string list \<Rightarrow> 'a option" where
  "matchPath ps [] = map_option snd (find (\<lambda>(ss, a). ss = []) ps)"
| "matchPath ps (s # rest) =
     (case matchPath (afterLit s ps) rest of
        Some a \<Rightarrow> Some a
      | None \<Rightarrow>
          (case (if s \<noteq> ''/'' then matchPath (afterWild ps) rest else None) of
             Some a \<Rightarrow> Some a
           | None \<Rightarrow> map_option snd (find (\<lambda>(ss, a). ss \<noteq> [] \<and> hd ss = Multi) ps)))"

definition candidates :: "string \<Rightarrow> string \<Rightarrow> 'h mux \<Rightarrow> (segment list \<times> pat \<times> 'h) list" where
  "candidates host method m =
     map (\<lambda>(p, h). (patSegs p, p, h)) (filter (\<lambda>(p, h). patHost p = host \<and> patMethod p = method) m)"

definition orElse :: "'a option \<Rightarrow> 'a option \<Rightarrow> 'a option" where
  "orElse a b = (case a of Some x \<Rightarrow> Some x | None \<Rightarrow> b)"

definition matchMethodAndPath :: "'h mux \<Rightarrow> string \<Rightarrow> string \<Rightarrow> string list \<Rightarrow> (pat \<times> 'h) option" where
  "matchMethodAndPath m host method segs =
     orElse (matchPath (candidates host method m) segs)
       (orElse (if method = ''HEAD'' then matchPath (candidates host ''GET'' m) segs else None)
          (matchPath (candidates host [] m) segs))"

definition muxMatch :: "'h mux \<Rightarrow> string \<Rightarrow> string \<Rightarrow> string \<Rightarrow> (pat \<times> 'h) option" where
  "muxMatch m host method path =
     (let segs = pathSegs path
      in orElse (if host \<noteq> [] then matchMethodAndPath m host method segs else None)
           (matchMethodAndPath m [] method segs))"

definition exactMatch :: "(pat \<times> 'h) option \<Rightarrow> string \<Rightarrow> bool" where
  "exactMatch n path =
     (case n of
        None \<Rightarrow> False
      | Some (p, _) \<Rightarrow>
          if \<not> endsMulti (patSegs p) then True
          else if path \<noteq> [] \<and> last path \<noteq> CHR ''/'' then False
          else length (patSegs p) = length (filter (\<lambda>c. c = CHR ''/'') path))"

text \<open>\<^verbatim>\<open>stripHostPort\<close>.\<close>

definition stripHostPort :: "string \<Rightarrow> string" where
  "stripHostPort h = (if CHR '':'' \<notin> set h then h else case splitHostPort h of None \<Rightarrow> h | Some (host, _) \<Rightarrow> host)"

text \<open>
  \<^verbatim>\<open>matchingMethods\<close>: the methods of the patterns that would match but for the method,
  sorted; \<open>HEAD\<close> goes with \<open>GET\<close>.
\<close>

definition matchingMethods :: "'h mux \<Rightarrow> string \<Rightarrow> string \<Rightarrow> string list" where
  "matchingMethods m host path =
     (let match = (\<lambda>h meth. matchPath (candidates h meth m) (pathSegs path) \<noteq> None);
          meths = filter (\<lambda>meth. (host \<noteq> [] \<and> match host meth) \<or> match [] meth) (map (patMethod \<circ> fst) m);
          meths = (if ''GET'' \<in> set meths then ''HEAD'' # meths else meths)
      in sort (remdups (filter (\<lambda>x. x \<noteq> []) meths)))"

datatype 'h dispatch = ToHandler 'h | RedirectTo string | MethodNotAllowed "string list" | NotFound

text \<open>
  \<^verbatim>\<open>findHandler\<close>. The path of a \<^verbatim>\<open>CONNECT\<close> request is not cleaned, and its host is that
  of its target when a missing slash is looked for, and that of its header when the handler is.
\<close>

definition dispatch :: "'h mux \<Rightarrow> request \<Rightarrow> 'h dispatch" where
  "dispatch m r =
     (let isConnect = (reqMethod r = ''CONNECT'');
          host = (if isConnect then urlHost r else stripHostPort (reqHost r));
          path = (if isConnect then urlPath r else cleanPath (urlPath r));
          found = muxMatch m host (reqMethod r) path;
          slash = (\<not> exactMatch found path \<and> \<not> hasSuffix path ''/'' \<and>
                   exactMatch (muxMatch m host (reqMethod r) (path @ ''/'')) (path @ ''/''))
      in if slash then RedirectTo (cleanPath (urlPath r) @ ''/'')
         else if \<not> isConnect \<and> path \<noteq> urlPath r then RedirectTo path
         else case (if isConnect then muxMatch m (reqHost r) (reqMethod r) path else found) of
                Some (p, h) \<Rightarrow> ToHandler h
              | None \<Rightarrow> (case matchingMethods m host path of
                           [] \<Rightarrow> NotFound
                         | ms \<Rightarrow> MethodNotAllowed ms))"

section \<open>Serving\<close>

text \<open>
  \<^verbatim>\<open>http.Redirect\<close> with status 301; the location is the text of a URL with the new path
  and the request's query, which \<^verbatim>\<open>net/url\<close> renders.
\<close>

definition htmlEscape :: "string \<Rightarrow> string" where
  "htmlEscape s = concat (map (\<lambda>c. if c = CHR ''&'' then ''&amp;'' else if c = CHR ''<'' then ''&lt;''
     else if c = CHR ''>'' then ''&gt;'' else if c = CHR 34 then ''&#34;'' else if c = CHR 39 then ''&#39;'' else [c]) s)"

definition httpRedirect :: "string \<Rightarrow> request \<Rightarrow> writer \<Rightarrow> writer" where
  "httpRedirect url r w =
     (let hadCT = (hdr (base_of w) ''Content-Type'' \<noteq> None);
          w = mapHeader (hSet ''Location'' url) w;
          w = (if \<not> hadCT \<and> (reqMethod r = ''GET'' \<or> reqMethod r = ''HEAD'')
               then mapHeader (hSet ''Content-Type'' ''text/html; charset=utf-8'') w else w);
          w = writeHeader 301 w
      in if \<not> hadCT \<and> reqMethod r = ''GET''
         then writeW (''<a href='' @ [CHR 34] @ htmlEscape url @ [CHR 34] @ ''>Moved Permanently</a>.'' @ [CHR 10, CHR 10]) w
         else w)"

definition joinMethods :: "string list \<Rightarrow> string" where
  "joinMethods ms = joinWith '', '' ms"

text \<open>
  \<^verbatim>\<open>ServeMux.ServeHTTP\<close>. The path is \<open>*\<close> exactly for the request target \<open>*\<close>.
\<close>

definition muxServeHTTP :: "(string \<Rightarrow> request \<Rightarrow> string) \<Rightarrow> ('h \<Rightarrow> 'w handler) \<Rightarrow> 'h mux \<Rightarrow> 'w handler" where
  "muxServeHTTP urlString serve m w r s =
     (if urlPath r = ''*'' then Done (writeHeader 400 (mapHeader (hSet ''Connection'' ''close'') w)) s
      else case dispatch m r of
             ToHandler h \<Rightarrow> serve h w r s
           | RedirectTo path \<Rightarrow> Done (httpRedirect (urlString path r) r w) s
           | MethodNotAllowed ms \<Rightarrow>
               Done (httpError ''Method Not Allowed'' 405 (mapHeader (hSet ''Allow'' (joinMethods ms)) w)) s
           | NotFound \<Rightarrow> Done (httpError ''404 page not found'' 404 w) s)"

lemma httpRedirect_answers:
  "shape (httpRedirect url r w) = shape w" "fresh w \<Longrightarrow> settled (httpRedirect url r w)"
  by (simp_all add: httpRedirect_def Let_def settled_write settled_writeHeader)

lemma mux_ok:
  assumes "\<And>h. handler_ok (serve h)"
  shows "handler_ok (muxServeHTTP us serve m)"
  by (rule handler_okI)
    (auto simp: muxServeHTTP_def handler_ok_shape [OF assms] httpRedirect_answers settled_writeHeader settled_httpError
      dest: handler_ok_settled [OF assms] split: dispatch.splits if_splits)

section \<open>What a pattern matches\<close>

fun segsMatch :: "segment list \<Rightarrow> string list \<Rightarrow> bool" where
  "segsMatch [] [] = True"
| "segsMatch (Multi # ss) (x # xs) = True"
| "segsMatch (Lit l # ss) (x # xs) = (l = x \<and> segsMatch ss xs)"
| "segsMatch (Wild # ss) (x # xs) = (x \<noteq> ''/'' \<and> segsMatch ss xs)"
| "segsMatch _ _ = False"

definition patMatches :: "pat \<Rightarrow> string \<Rightarrow> string \<Rightarrow> string list \<Rightarrow> bool" where
  "patMatches p host method segs \<longleftrightarrow>
     (patHost p = [] \<or> patHost p = host) \<and>
     (patMethod p = [] \<or> patMethod p = method \<or> (method = ''HEAD'' \<and> patMethod p = ''GET'')) \<and>
     segsMatch (patSegs p) segs"

lemma in_afterLit: "(ss, a) \<in> set (afterLit s ps) \<longleftrightarrow> (Lit s # ss, a) \<in> set ps"
proof
  assume "(ss, a) \<in> set (afterLit s ps)"
  then obtain ts where "(ts, a) \<in> set ps" "ts \<noteq> []" "hd ts = Lit s" "ss = tl ts" by (auto simp: afterLit_def)
  then show "(Lit s # ss, a) \<in> set ps" by (cases ts) auto
next
  assume "(Lit s # ss, a) \<in> set ps"
  then show "(ss, a) \<in> set (afterLit s ps)" by (force simp: afterLit_def image_iff)
qed

lemma in_afterWild: "(ss, a) \<in> set (afterWild ps) \<longleftrightarrow> (Wild # ss, a) \<in> set ps"
proof
  assume "(ss, a) \<in> set (afterWild ps)"
  then obtain ts where "(ts, a) \<in> set ps" "ts \<noteq> []" "hd ts = Wild" "ss = tl ts" by (auto simp: afterWild_def)
  then show "(Wild # ss, a) \<in> set ps" by (cases ts) auto
next
  assume "(Wild # ss, a) \<in> set ps"
  then show "(ss, a) \<in> set (afterWild ps)" by (force simp: afterWild_def image_iff)
qed

lemma find_pair_Some: "find P xs = Some x \<Longrightarrow> x \<in> set xs \<and> P x"
  by (auto simp: find_Some_iff)

lemma find_not_None: "x \<in> set xs \<Longrightarrow> P x \<Longrightarrow> find P xs \<noteq> None"
  by (metis find_None_iff)

lemma matchPath_sound: "matchPath ps segs = Some a \<Longrightarrow> \<exists>ss. (ss, a) \<in> set ps \<and> segsMatch ss segs"
proof (induction ps segs rule: matchPath.induct)
  case (1 ps)
  then show ?case by (fastforce dest: find_pair_Some)
next
  case (2 ps s rest)
  consider "matchPath (afterLit s ps) rest = Some a"
    | "s \<noteq> ''/''" "matchPath (afterWild ps) rest = Some a"
    | "map_option snd (find (\<lambda>(ss, a). ss \<noteq> [] \<and> hd ss = Multi) ps) = Some a"
    using "2.prems" by (auto split: option.splits if_splits)
  then show ?case
  proof cases
    case 1
    then show ?thesis using "2.IH"(1) in_afterLit by fastforce
  next
    case 2
    then have "matchPath (afterLit s ps) rest = None \<or> matchPath (afterLit s ps) rest = Some a"
      using "2.prems" by (cases "matchPath (afterLit s ps) rest") auto
    then show ?thesis
    proof
      assume "matchPath (afterLit s ps) rest = None"
      then show ?thesis using 2 "2.IH"(2) in_afterWild by fastforce
    qed (use "2.IH"(1) in_afterLit in fastforce)
  next
    case 3
    then obtain ss where "(ss, a) \<in> set ps" "ss \<noteq> []" "hd ss = Multi" by (auto dest: find_pair_Some)
    then show ?thesis by (cases ss) auto
  qed
qed

lemma matchPath_complete: "(ss, a) \<in> set ps \<Longrightarrow> segsMatch ss segs \<Longrightarrow> matchPath ps segs \<noteq> None"
proof (induction ps segs arbitrary: ss rule: matchPath.induct)
  case (1 ps)
  then have "ss = []" by (cases ss rule: list.exhaust; cases "hd ss") auto
  then have "find (\<lambda>(ss, a). ss = []) ps \<noteq> None" using 1(1) by (auto simp: find_None_iff)
  then show ?case by auto
next
  case (2 ps s rest)
  then obtain x ts where ss: "ss = x # ts" by (cases ss) auto
  show ?case
  proof (cases x)
    case (Lit l)
    then have "(ts, a) \<in> set (afterLit s ps)" "segsMatch ts rest" using 2 ss by (auto simp: in_afterLit)
    then have "matchPath (afterLit s ps) rest \<noteq> None" by (rule "2.IH"(1))
    then show ?thesis by auto
  next
    case Wild
    then have w: "(ts, a) \<in> set (afterWild ps)" "segsMatch ts rest" "s \<noteq> ''/''" using 2 ss by (auto simp: in_afterWild)
    show ?thesis
    proof (cases "matchPath (afterLit s ps) rest")
      case None
      then show ?thesis using "2.IH"(2) [OF None w(3,1,2)] w(3) by (auto split: option.splits)
    qed simp
  next
    case Multi
    then have "find (\<lambda>(ss, a). ss \<noteq> [] \<and> hd ss = Multi) ps \<noteq> None"
      by (intro find_not_None [OF "2.prems"(1)]) (simp add: ss)
    then show ?thesis by (auto split: option.splits)
  qed
qed

lemma candidates_sound:
  assumes "matchPath (candidates host method m) segs = Some (p, h)"
  shows "(p, h) \<in> set m \<and> patHost p = host \<and> patMethod p = method \<and> segsMatch (patSegs p) segs"
proof -
  obtain ss where "(ss, p, h) \<in> set (candidates host method m)" "segsMatch ss segs"
    using matchPath_sound [OF assms] by auto
  then show ?thesis by (auto simp: candidates_def)
qed

lemma candidates_complete:
  assumes "(p, h) \<in> set m" "segsMatch (patSegs p) segs"
  shows "matchPath (candidates (patHost p) (patMethod p) m) segs \<noteq> None"
proof -
  have "(patSegs p, p, h) \<in> set (candidates (patHost p) (patMethod p) m)"
    using assms(1) by (force simp: candidates_def)
  then show ?thesis using assms(2) by (rule matchPath_complete)
qed

lemma orElse_Some: "orElse a b = Some x \<longleftrightarrow> a = Some x \<or> (a = None \<and> b = Some x)"
  by (cases a) (auto simp: orElse_def)

lemma orElse_None [simp]: "orElse a b = None \<longleftrightarrow> a = None \<and> b = None"
  by (cases a) (auto simp: orElse_def)

lemma matchMethod_sound:
  assumes "matchMethodAndPath m host method segs = Some (p, h)"
  shows "(p, h) \<in> set m \<and> patHost p = host \<and> patMatches p host method segs"
  using assms candidates_sound [of host _ m segs p h]
  by (auto simp: matchMethodAndPath_def orElse_Some patMatches_def split: if_splits)

lemma matchMethod_complete:
  assumes "(p, h) \<in> set m" "patMatches p host method segs" "patHost p = host'"
  shows "matchMethodAndPath m host' method segs \<noteq> None"
  using candidates_complete [OF assms(1), of segs] assms(2,3)
  by (auto simp: matchMethodAndPath_def patMatches_def)

section \<open>The choice of a pattern\<close>

text \<open>
  The mux chooses a registered pattern that matches the host, the method and the path whenever there
  is one, and none otherwise; a pattern for the request's host takes precedence over those for any
  host.
\<close>

lemma muxMatch_spec:
  "(case muxMatch m host method path of
      Some (p, h) \<Rightarrow> (p, h) \<in> set m \<and> patMatches p host method (pathSegs path) \<and>
        (\<forall>(q, h') \<in> set m. patMatches q host method (pathSegs path) \<and> patHost q \<noteq> [] \<longrightarrow> patHost p = host)
    | None \<Rightarrow> \<forall>(q, h') \<in> set m. \<not> patMatches q host method (pathSegs path))"
proof -
  let ?segs = "pathSegs path"
  have own: "matchMethodAndPath m host method ?segs \<noteq> None"
    if "(q, h') \<in> set m" "patMatches q host method ?segs" "patHost q \<noteq> []" for q h'
    using that matchMethod_complete [OF that(1,2)] by (auto simp: patMatches_def)
  have empty_host: "matchMethodAndPath m [] method ?segs \<noteq> None"
    if "(q, h') \<in> set m" "patMatches q host method ?segs" "patHost q = []" for q h'
    using that matchMethod_complete [OF that(1,2)] by auto
  show ?thesis
  proof (cases "muxMatch m host method path")
    case None
    have "\<not> patMatches q host method ?segs" if q: "(q, h') \<in> set m" for q h'
    proof
      assume "patMatches q host method ?segs"
      then show False
        using None own [OF q] empty_host [OF q]
        by (cases "patHost q = []") (auto simp: muxMatch_def patMatches_def split: if_splits)
    qed
    then show ?thesis using None by auto
  next
    case (Some ph)
    obtain p h where ph: "ph = (p, h)" by (cases ph)
    show ?thesis
    proof (cases "host \<noteq> [] \<and> matchMethodAndPath m host method ?segs \<noteq> None")
      case True
      then have "matchMethodAndPath m host method ?segs = Some (p, h)"
        using Some ph by (auto simp: muxMatch_def orElse_def split: option.splits)
      then show ?thesis using Some ph matchMethod_sound by fastforce
    next
      case False
      then have "matchMethodAndPath m [] method ?segs = Some (p, h)"
        using Some ph by (auto simp: muxMatch_def Let_def orElse_Some split: if_splits)
      then have p: "(p, h) \<in> set m" "patMatches p host method ?segs"
        using matchMethod_sound [of m "[]" "method" ?segs p h] by (auto simp: patMatches_def)
      have "\<not> (patMatches q host method ?segs \<and> patHost q \<noteq> [])" if "(q, h') \<in> set m" for q h'
        using False own [OF that] by (auto simp: patMatches_def)
      then show ?thesis using Some ph p by auto
    qed
  qed
qed

lemma matchingMethods_spec:
  "meth \<in> set (matchingMethods m host path) \<longleftrightarrow> meth \<noteq> [] \<and> (\<exists>x \<in> set m. (patHost (fst x) = [] \<or> patHost (fst x) = host) \<and>
     segsMatch (patSegs (fst x)) (pathSegs path) \<and> (patMethod (fst x) = meth \<or> meth = ''HEAD'' \<and> patMethod (fst x) = ''GET''))"
proof -
  let ?match = "\<lambda>h meth. matchPath (candidates h meth m) (pathSegs path) \<noteq> None"
  let ?fits = "\<lambda>x. (patHost (fst x) = [] \<or> patHost (fst x) = host) \<and> segsMatch (patSegs (fst x)) (pathSegs path)"
  define ok where "ok meth \<longleftrightarrow> (\<exists>x \<in> set m. ?fits x \<and> patMethod (fst x) = meth)" for meth
  have one: "?match h meth \<longleftrightarrow> (\<exists>x \<in> set m. patHost (fst x) = h \<and> patMethod (fst x) = meth \<and> segsMatch (patSegs (fst x)) (pathSegs path))" for h meth
  proof
    assume "?match h meth"
    then obtain p y where "matchPath (candidates h meth m) (pathSegs path) = Some (p, y)" by auto
    from candidates_sound [OF this] show "\<exists>x \<in> set m. patHost (fst x) = h \<and> patMethod (fst x) = meth \<and> segsMatch (patSegs (fst x)) (pathSegs path)"
      by (intro bexI [of _ "(p, y)"]) simp_all
  next
    assume "\<exists>x \<in> set m. patHost (fst x) = h \<and> patMethod (fst x) = meth \<and> segsMatch (patSegs (fst x)) (pathSegs path)"
    then show "?match h meth" using candidates_complete [where segs = "pathSegs path"] by (metis prod.collapse)
  qed
  have fits: "(host \<noteq> [] \<and> ?match host meth) \<or> ?match [] meth \<longleftrightarrow> ok meth" for meth unfolding one ok_def by blast
  have reg: "ok x \<Longrightarrow> x \<in> (\<lambda>x. patMethod (fst x)) ` set m" for x by (auto simp: ok_def)
  have "meth \<in> set (matchingMethods m host path) \<longleftrightarrow> meth \<noteq> [] \<and> (ok meth \<or> meth = ''HEAD'' \<and> ok ''GET'')"
    unfolding matchingMethods_def Let_def fits using reg [of meth] reg [of "''GET''"] by (auto simp: comp_def)
  then show ?thesis unfolding ok_def by blast
qed

lemma dispatch_registered: "dispatch m r = ToHandler h \<Longrightarrow> \<exists>p. (p, h) \<in> set m"
proof -
  assume "dispatch m r = ToHandler h"
  then obtain host me pa p where "muxMatch m host me pa = Some (p, h)"
    by (auto simp: dispatch_def Let_def split: if_splits option.splits prod.splits list.splits)
  then show ?thesis using muxMatch_spec [of m host me pa] by auto
qed

lemma dispatch_cong:
  assumes "reqMethod r' = reqMethod r" "reqHost r' = reqHost r" "urlHost r' = urlHost r" "urlPath r' = urlPath r"
  shows "dispatch m r' = dispatch m r"
  unfolding dispatch_def assms ..

section \<open>Registered patterns\<close>

lemma comparePaths_refl: "comparePaths ss ss = Equivalent"
proof -
  have "compareSegments x x = Equivalent" for x by (cases x) auto
  then have "compareSegs b c Equivalent ss ss = Equivalent" for b c
    by (induction ss) (auto simp: combine_def)
  then show ?thesis by (simp add: comparePaths_def)
qed

lemma conflicts_self: "conflictsWith p p"
  by (simp add: conflictsWith_def comparePathsAndMethods_def compareMethods_def comparePaths_refl combine_def)

text \<open>Registering a list of patterns for one handler, in order.\<close>

fun handleAll :: "string list \<Rightarrow> 'h \<Rightarrow> 'h mux \<Rightarrow> 'h mux option" where
  "handleAll [] h m = Some m"
| "handleAll (s # ss) h m = (case muxHandle s h m of None \<Rightarrow> None | Some m' \<Rightarrow> handleAll ss h m')"

definition conflict_free :: "'h mux \<Rightarrow> bool" where
  "conflict_free m = sorted_wrt (\<lambda>x y. \<not> conflictsWith (fst y) (fst x)) m"

lemma muxHandle_Some:
  "muxHandle s h m = Some m' \<longleftrightarrow>
    (\<exists>p. parsePattern s = Some p \<and> m' = m @ [(p, h)] \<and> (\<forall>(q, _) \<in> set m. \<not> conflictsWith p q))"
  by (auto simp: muxHandle_def list_ex_iff split: option.splits)

lemma handleAll_Some:
  "handleAll ss h m = Some m' \<Longrightarrow>
    (\<exists>ps. map parsePattern ss = map Some ps \<and> m' = m @ map (\<lambda>p. (p, h)) ps) \<and> (conflict_free m \<longrightarrow> conflict_free m')"
proof (induction ss arbitrary: m)
  case (Cons s ss)
  then obtain p where p: "parsePattern s = Some p" "\<forall>(q, _) \<in> set m. \<not> conflictsWith p q"
    "handleAll ss h (m @ [(p, h)]) = Some m'"
    by (auto simp: muxHandle_Some split: option.splits)
  have fresh: "conflict_free m \<Longrightarrow> conflict_free (m @ [(p, h)])"
    using p(2) by (auto simp: conflict_free_def sorted_wrt_append)
  obtain ps where ps: "map parsePattern ss = map Some ps" "m' = (m @ [(p, h)]) @ map (\<lambda>p. (p, h)) ps"
    using Cons.IH [OF p(3)] by blast
  then show ?case
    using p fresh Cons.IH [OF p(3)] by (intro conjI exI [of _ "p # ps"]) auto
qed simp

text \<open>Which handlers the patterns lead to does not matter for whether they can be registered.\<close>

definition mapMux :: "('h \<Rightarrow> 'g) \<Rightarrow> 'h mux \<Rightarrow> 'g mux" where
  "mapMux f m = map (\<lambda>(p, x). (p, f x)) m"

lemma mapMux_simps [simp]:
  "mapMux f [] = []" "mapMux f ((p, x) # m) = (p, f x) # mapMux f m" "mapMux f (m @ m') = mapMux f m @ mapMux f m'"
  by (simp_all add: mapMux_def)

lemma muxHandle_mapMux: "muxHandle s (f h) (mapMux f m) = map_option (mapMux f) (muxHandle s h m)"
  by (simp add: muxHandle_def mapMux_def list_ex_iff case_prod_unfold split: option.splits)

lemma handleAll_mapMux: "handleAll ss (f h) (mapMux f m) = map_option (mapMux f) (handleAll ss h m)"
  by (induction ss arbitrary: m) (auto simp: muxHandle_mapMux split: option.splits)

section \<open>Literal patterns\<close>

lemma parseSegs_literal:
  "ps \<noteq> [] \<Longrightarrow> last ps \<noteq> [] \<Longrightarrow> \<forall>p \<in> set ps. CHR ''{'' \<notin> set p \<Longrightarrow> parseSegs names ps = Some (map Lit ps)"
proof (induction ps)
  case (Cons p ps)
  then show ?case by (cases "ps = []") auto
qed simp

lemma matchPath_none [simp]: "matchPath [] segs = None"
  by (induction segs) (simp_all add: afterLit_def afterWild_def)

lemma matchPath_literal: "matchPath [(map Lit ps, a)] segs = (if segs = ps then Some a else None)"
proof (induction ps arbitrary: segs)
  case Nil
  then show ?case by (cases segs) (simp_all add: afterLit_def afterWild_def)
next
  case (Cons p ps)
  then show ?case by (cases segs) (auto simp: afterLit_def afterWild_def)
qed

lemma matchPath_rest: "segs \<noteq> [] \<Longrightarrow> matchPath [([Multi], a)] segs = Some a"
  by (cases segs) (simp_all add: afterLit_def afterWild_def)

lemma pathSegs_nonempty: "pathSegs path \<noteq> []"
  by (auto simp: pathSegs_def Let_def)

lemma pathSegs_literal:
  assumes "t \<noteq> []" "last t \<noteq> CHR ''/''"
  shows "pathSegs (CHR ''/'' # p) = splitOn CHR ''/'' t \<longleftrightarrow> p = t"
proof
  assume eq: "pathSegs (CHR ''/'' # p) = splitOn CHR ''/'' t"
  have "''/'' \<notin> set (splitOn CHR ''/'' t)" using splitOn_no_sep by fastforce
  moreover have "''/'' \<in> set (pathSegs (CHR ''/'' # p))" if "last (splitOn CHR ''/'' p) = []" using that by (simp add: pathSegs_def)
  ultimately have "last (splitOn CHR ''/'' p) \<noteq> []" using eq by auto
  then have "splitOn CHR ''/'' p = splitOn CHR ''/'' t" using eq by (simp add: pathSegs_def)
  then show "p = t" by (metis joinWith_splitOn)
qed (use last_splitOn [OF assms(1)] assms(2) in \<open>simp add: pathSegs_def\<close>)

end
