(* ===== verification/Float64.thy ===== *)
theory Float64
  imports Complex_Main "HOL-Library.Log_Nat" Prelude
begin

text \<open>
  Go's \<^verbatim>\<open>float64\<close>: IEEE 754 double precision with round-to-nearest-even. A finite value is
  the rational number it stands for; the sign of zero, which nothing in the gateway observes, is not
  kept. The rate limiter's token counts and the numbers of a plugin's configuration have this type.
\<close>

section \<open>Rounding\<close>

text \<open>Nearest integer, ties to even.\<close>

definition rne :: "rat \<Rightarrow> int" where
  "rne x = (let f = \<lfloor>x\<rfloor>; d = x - of_int f
            in if d < 1/2 then f else if 1/2 < d then f + 1 else if even f then f else f + 1)"

text \<open>The exponent of the binade a positive number lies in.\<close>

definition expo :: "rat \<Rightarrow> int" where
  "expo q = (if 1 \<le> q then bitlen \<lfloor>q\<rfloor> - 1 else - bitlen (\<lceil>1 / q\<rceil> - 1))"

definition ulpExp :: "rat \<Rightarrow> int" where
  "ulpExp x = max (expo \<bar>x\<bar> - 52) (- 1074)"

definition rnd :: "rat \<Rightarrow> rat" where
  "rnd x = (if x = 0 then 0 else of_int (rne (x / 2 powi ulpExp x)) * 2 powi ulpExp x)"

section \<open>Values and operations\<close>

datatype f64 = NaN | PosInf | NegInf | Fin rat

definition f64_max :: rat where
  "f64_max = 2 ^ 1024"

definition mkF64 :: "rat \<Rightarrow> f64" where
  "mkF64 x = (let y = rnd x in if f64_max \<le> y then PosInf else if y \<le> - f64_max then NegInf else Fin y)"

fun fadd :: "f64 \<Rightarrow> f64 \<Rightarrow> f64" where
  "fadd (Fin x) (Fin y) = mkF64 (x + y)"
| "fadd NaN _ = NaN"
| "fadd _ NaN = NaN"
| "fadd PosInf NegInf = NaN"
| "fadd NegInf PosInf = NaN"
| "fadd PosInf _ = PosInf"
| "fadd _ PosInf = PosInf"
| "fadd NegInf _ = NegInf"
| "fadd _ NegInf = NegInf"

fun fneg :: "f64 \<Rightarrow> f64" where
  "fneg NaN = NaN"
| "fneg PosInf = NegInf"
| "fneg NegInf = PosInf"
| "fneg (Fin x) = Fin (- x)"

definition fsub :: "f64 \<Rightarrow> f64 \<Rightarrow> f64" where
  "fsub a b = fadd a (fneg b)"

fun fmul :: "f64 \<Rightarrow> f64 \<Rightarrow> f64" where
  "fmul (Fin x) (Fin y) = mkF64 (x * y)"
| "fmul NaN _ = NaN"
| "fmul _ NaN = NaN"
| "fmul (Fin x) PosInf = (if x = 0 then NaN else if 0 < x then PosInf else NegInf)"
| "fmul (Fin x) NegInf = (if x = 0 then NaN else if 0 < x then NegInf else PosInf)"
| "fmul PosInf (Fin y) = (if y = 0 then NaN else if 0 < y then PosInf else NegInf)"
| "fmul NegInf (Fin y) = (if y = 0 then NaN else if 0 < y then NegInf else PosInf)"
| "fmul PosInf PosInf = PosInf"
| "fmul NegInf NegInf = PosInf"
| "fmul PosInf NegInf = NegInf"
| "fmul NegInf PosInf = NegInf"

text \<open>Comparisons are false as soon as an operand is not a number.\<close>

fun flt :: "f64 \<Rightarrow> f64 \<Rightarrow> bool" where
  "flt (Fin x) (Fin y) = (x < y)"
| "flt NaN _ = False"
| "flt _ NaN = False"
| "flt NegInf b = (b \<noteq> NegInf)"
| "flt _ NegInf = False"
| "flt PosInf _ = False"
| "flt (Fin x) PosInf = True"

definition fle :: "f64 \<Rightarrow> f64 \<Rightarrow> bool" where
  "fle a b = (a \<noteq> NaN \<and> b \<noteq> NaN \<and> \<not> flt b a)"

abbreviation fone :: f64 where "fone \<equiv> Fin 1"
abbreviation fzero :: f64 where "fzero \<equiv> Fin 0"

text \<open>Go's operators on \<^verbatim>\<open>float64\<close>, so that the models read like the code.\<close>

instantiation f64 :: "{zero, one, plus, minus, uminus, times, ord}"
begin

definition zero_f64 :: f64 where "zero_f64 = fzero"
definition one_f64 :: f64 where "one_f64 = fone"
definition plus_f64 :: "f64 \<Rightarrow> f64 \<Rightarrow> f64" where "plus_f64 = fadd"
definition minus_f64 :: "f64 \<Rightarrow> f64 \<Rightarrow> f64" where "minus_f64 = fsub"
definition uminus_f64 :: "f64 \<Rightarrow> f64" where "uminus_f64 = fneg"
definition times_f64 :: "f64 \<Rightarrow> f64 \<Rightarrow> f64" where "times_f64 = fmul"
definition less_f64 :: "f64 \<Rightarrow> f64 \<Rightarrow> bool" where "less_f64 = flt"
definition less_eq_f64 :: "f64 \<Rightarrow> f64 \<Rightarrow> bool" where "less_eq_f64 = fle"

instance ..

end

lemmas f64_ops [simp] = zero_f64_def one_f64_def plus_f64_def minus_f64_def uminus_f64_def times_f64_def less_f64_def less_eq_f64_def

text \<open>
  Conversions. A float that does not fit an \<^verbatim>\<open>int64\<close> converts to an implementation-defined
  value; here the one amd64 produces.
\<close>

definition intToF64 :: "int \<Rightarrow> f64" where
  "intToF64 n = mkF64 (of_int n)"

definition truncRat :: "rat \<Rightarrow> int" where
  "truncRat x = (if 0 \<le> x then \<lfloor>x\<rfloor> else \<lceil>x\<rceil>)"

fun f64ToInt :: "f64 \<Rightarrow> int" where
  "f64ToInt (Fin x) = (if in_i64 (truncRat x) then truncRat x else min_i64)"
| "f64ToInt _ = min_i64"

text \<open>\<^verbatim>\<open>Duration.Seconds\<close>: Go divides and takes remainders towards zero.\<close>

definition durationSeconds :: "duration \<Rightarrow> f64" where
  "durationSeconds d =
     (let sec = sgn d * (\<bar>d\<bar> div 1000000000); nsec = sgn d * (\<bar>d\<bar> mod 1000000000)
      in intToF64 sec + (case intToF64 nsec of Fin x \<Rightarrow> mkF64 (x / 1000000000) | a \<Rightarrow> a))"

section \<open>Rounding error\<close>

lemma rne_close: "\<bar>of_int (rne x) - x\<bar> \<le> 1/2"
proof -
  have "of_int \<lfloor>x\<rfloor> \<le> x" "x < of_int \<lfloor>x\<rfloor> + 1" by linarith+
  then show ?thesis unfolding rne_def Let_def by (auto simp: abs_le_iff)
qed

lemma rne_of_int [simp]: "rne (of_int n) = n"
  by (simp add: rne_def)

lemma rne_nonneg: "0 \<le> x \<Longrightarrow> 0 \<le> rne x"
  by (simp add: rne_def Let_def)

lemma rnd_0 [simp]: "rnd 0 = 0"
  by (simp add: rnd_def)

lemma rnd_nonneg: "0 \<le> x \<Longrightarrow> 0 \<le> rnd x"
  by (simp add: rnd_def rne_nonneg)

lemma rne_nonpos:
  assumes "x \<le> 0"
  shows "rne x \<le> 0"
proof -
  have "\<lfloor>x\<rfloor> \<le> 0" "x - of_int \<lfloor>x\<rfloor> = 0 \<or> \<lfloor>x\<rfloor> \<le> - 1"
    using assms by linarith+
  then show ?thesis by (auto simp: rne_def Let_def)
qed

lemma rnd_nonpos: "x \<le> 0 \<Longrightarrow> rnd x \<le> 0"
  by (simp add: rnd_def rne_nonpos mult_nonpos_nonneg divide_nonpos_nonneg)

lemma rnd_error: "\<bar>rnd x - x\<bar> \<le> 2 powi ulpExp x / 2"
proof (cases "x = 0")
  case False
  let ?u = "2 powi ulpExp x :: rat"
  have u: "0 < ?u" by simp
  have "rnd x - x = (of_int (rne (x / ?u)) - x / ?u) * ?u"
    using False u by (simp add: rnd_def algebra_simps)
  then have "\<bar>rnd x - x\<bar> = \<bar>of_int (rne (x / ?u)) - x / ?u\<bar> * ?u"
    using u by (simp add: abs_mult)
  also have "\<dots> \<le> 1/2 * ?u"
    using rne_close u by (intro mult_right_mono) auto
  finally show ?thesis by simp
qed simp

lemma expo_le_large:
  assumes "1 \<le> q"
  shows "2 powi expo q \<le> q"
proof -
  have pos: "0 < \<lfloor>q\<rfloor>" using assms by linarith
  then have b: "2 ^ nat (bitlen \<lfloor>q\<rfloor> - 1) \<le> \<lfloor>q\<rfloor>"
    using bitlen_bounds by blast
  have "0 \<le> bitlen \<lfloor>q\<rfloor>" "bitlen \<lfloor>q\<rfloor> \<noteq> 0"
    using pos bitlen_nonneg bitlen_eq_zero_iff [of "\<lfloor>q\<rfloor>"] by auto
  then have "(2::rat) powi expo q = of_int (2 ^ nat (bitlen \<lfloor>q\<rfloor> - 1))"
    using assms by (simp add: expo_def power_int_def)
  also have "\<dots> \<le> of_int \<lfloor>q\<rfloor>" using b of_int_le_iff by blast
  also have "\<dots> \<le> q" by simp
  finally show ?thesis .
qed

lemma expo_le_small:
  assumes "0 < q" "q < 1"
  shows "2 powi expo q \<le> q"
proof -
  let ?c = "\<lceil>1 / q\<rceil> - 1"
  have "1 < 1 / q" using assms by simp
  then have "0 < ?c" by linarith
  then have "?c < 2 ^ nat (bitlen ?c)" and nn: "0 \<le> bitlen ?c"
    using bitlen_bounds [of ?c] by (auto simp: bitlen_nonneg)
  then have "\<lceil>1 / q\<rceil> \<le> 2 ^ nat (bitlen ?c)" by linarith
  then have "1 / q \<le> of_int (2 ^ nat (bitlen ?c))" by (simp only: ceiling_le_iff)
  then have "1 / q \<le> 2 ^ nat (bitlen ?c)" by simp
  then have "1 \<le> q * 2 ^ nat (bitlen ?c)" using assms by (simp add: divide_le_eq mult.commute)
  then have "inverse (2 ^ nat (bitlen ?c)) \<le> q" by (simp add: inverse_eq_divide divide_le_eq)
  moreover have "(2::rat) powi expo q = inverse (2 ^ nat (bitlen ?c))"
    using assms nn by (simp add: expo_def power_int_def power_one_over inverse_eq_divide)
  ultimately show ?thesis by simp
qed

lemma expo_le: "0 < q \<Longrightarrow> 2 powi expo q \<le> q"
  using expo_le_large expo_le_small by (cases "1 \<le> q") auto

text \<open>Half the smallest positive number, and half the relative spacing.\<close>

definition eta :: rat where
  "eta = 2 powi (- 1075)"

definition halfUlp :: rat where
  "halfUlp = 1 / 9007199254740992"

text \<open>Rounding moves a number by at most one part in \<open>2^53\<close>, or half the smallest subnormal.\<close>

lemma rnd_rel_error: "\<bar>rnd x - x\<bar> \<le> \<bar>x\<bar> * halfUlp + eta"
proof (cases "x = 0")
  case False
  then have q: "0 < \<bar>x\<bar>" by simp
  have half: "(2::rat) powi n / 2 = 2 powi (n - 1)" for n
    by (simp add: power_int_diff)
  have "(2::rat) powi ulpExp x / 2 \<le> 2 powi (expo \<bar>x\<bar> - 53) + eta"
    by (auto simp: ulpExp_def max_def half eta_def)
  also have "(2::rat) powi (expo \<bar>x\<bar> - 53) = 2 powi expo \<bar>x\<bar> * halfUlp"
    by (simp add: power_int_diff halfUlp_def)
  also have "\<dots> \<le> \<bar>x\<bar> * halfUlp"
    using expo_le [OF q] by (intro mult_right_mono) (simp_all add: halfUlp_def)
  finally show ?thesis using rnd_error [of x] by linarith
qed (simp add: eta_def)

lemma rnd_upper: "0 \<le> x \<Longrightarrow> rnd x \<le> x + x * halfUlp + eta"
  using rnd_rel_error [of x] by (simp add: abs_le_iff)

lemma rnd_of_int:
  assumes "\<bar>n\<bar> < 9007199254740992"
  shows "rnd (of_int n) = of_int n"
proof (cases "n = 0")
  case False
  have "bitlen \<bar>n\<bar> \<le> 53"
    using assms bitlen_le_iff_power [of "\<bar>n\<bar>" 53] by simp
  moreover have "1 \<le> \<bar>n\<bar>" using False by linarith
  ultimately have "expo \<bar>of_int n\<bar> - 52 \<le> 0"
    by (simp add: expo_def flip: of_int_abs)
  then obtain k where k: "ulpExp (of_int n) = - int k"
    by (metis ulpExp_def max_def nat_0_le neg_0_le_iff_le neg_le_0_iff_le minus_minus neg_numeral_le_zero of_nat_nat)
  have "(of_int n :: rat) / 2 powi ulpExp (of_int n) = of_int (n * 2 ^ k)"
    by (simp add: k power_int_minus divide_inverse)
  then have "rne (of_int n / 2 powi ulpExp (of_int n)) = n * 2 ^ k"
    by (metis rne_of_int)
  then show ?thesis
    using False by (simp add: rnd_def k power_int_minus)
qed simp

lemma mkF64_of_int:
  assumes "\<bar>n\<bar> < 9007199254740992"
  shows "mkF64 (of_int n) = Fin (of_int n)"
proof -
  have "(9007199254740992 :: rat) = 2 ^ 53" by simp
  also have "\<dots> \<le> 2 ^ 1024" by (rule power_increasing) simp_all
  finally have m: "9007199254740992 \<le> f64_max" by (simp only: f64_max_def)
  have "\<bar>of_int n\<bar> < (9007199254740992 :: rat)"
    using assms by (simp flip: of_int_abs)
  then show ?thesis
    using m by (auto simp: mkF64_def rnd_of_int assms Let_def abs_less_iff)
qed

section \<open>Moderate numbers\<close>

lemma eta_small: "0 < eta" "eta \<le> 1 / 10 ^ 30"
  by (simp_all add: eta_def power_int_minus divide_simps)

lemma f64_max_large: "10 ^ 31 < f64_max"
  by (simp add: f64_max_def)

lemma mkF64_close:
  assumes "\<bar>x\<bar> \<le> 10 ^ 30"
  shows "mkF64 x = Fin (rnd x)"
proof -
  have "\<bar>rnd x\<bar> \<le> 10 ^ 31"
    using rnd_rel_error [of x] assms eta_small by (simp add: halfUlp_def)
  then have "\<bar>rnd x\<bar> < f64_max" using f64_max_large by linarith
  then show ?thesis by (simp add: mkF64_def Let_def abs_less_iff)
qed

lemma mkF64_moderate: "0 \<le> x \<Longrightarrow> x \<le> 10 ^ 30 \<Longrightarrow> mkF64 x = Fin (rnd x)"
  by (rule mkF64_close) simp

lemma rounded_sum:
  fixes s y q h e :: rat
  assumes "\<bar>q - y\<bar> \<le> \<bar>y\<bar> * h + e" "\<bar>r - (s + q)\<bar> \<le> \<bar>s + q\<bar> * h + e" "0 \<le> h" "h \<le> 1" "0 \<le> e"
  shows "\<bar>r - (s + y)\<bar> \<le> (\<bar>s\<bar> + \<bar>y\<bar>) * (3 * h) + 3 * e"
proof -
  have "\<bar>s + q\<bar> * h \<le> (\<bar>s\<bar> + \<bar>y\<bar> + (\<bar>y\<bar> * h + e)) * h"
    using assms by (intro mult_right_mono) auto
  moreover have "\<bar>y\<bar> * h * h \<le> \<bar>y\<bar> * h" "e * h \<le> e" "0 \<le> \<bar>s\<bar> * h" "0 \<le> \<bar>y\<bar> * h"
    using assms mult_left_mono [of h 1 "\<bar>y\<bar> * h"] mult_left_mono [of h 1 e] by simp_all
  moreover have "\<bar>r - (s + y)\<bar> \<le> \<bar>r - (s + q)\<bar> + \<bar>q - y\<bar>"
    using abs_triangle_ineq [of "r - (s + q)" "q - y"] by simp
  ultimately show ?thesis using assms(1,2) by (simp add: algebra_simps)
qed

text \<open>A duration in seconds, up to two roundings.\<close>

lemma durationSeconds_close:
  assumes "\<bar>d\<bar> \<le> max_i64"
  shows "\<exists>el. durationSeconds d = Fin el \<and>
    \<bar>el - of_int d / 10 ^ 9\<bar> \<le> \<bar>of_int d / 10 ^ 9\<bar> * (3 * halfUlp) + 3 * eta \<and> (0 \<le> d \<longrightarrow> 0 \<le> el)"
proof -
  define sec nsec where "sec = sgn d * (\<bar>d\<bar> div 1000000000)" and "nsec = sgn d * (\<bar>d\<bar> mod 1000000000)"
  have s: "\<bar>sec\<bar> < 9007199254740992" "\<bar>nsec\<bar> < 1000000000"
    using assms by (auto simp: sec_def nsec_def abs_mult pos_imp_zdiv_nonneg_iff abs_sgn_eq)
  have d: "d = sec * 1000000000 + nsec"
    by (simp add: sec_def nsec_def mult.assoc flip: distrib_left) (simp add: sgn_mult_abs)
  have ad: "\<bar>d\<bar> = \<bar>sec\<bar> * 1000000000 + \<bar>nsec\<bar>"
    by (cases "d = 0") (simp_all add: sec_def nsec_def abs_mult abs_sgn_eq pos_imp_zdiv_nonneg_iff)
  define y :: rat where "y = of_int nsec / 1000000000"
  have x: "of_int d / 10 ^ 9 = of_int sec + y"
    by (simp add: d y_def field_simps)
  have "\<bar>of_int d :: rat\<bar> = \<bar>of_int sec\<bar> * 1000000000 + \<bar>of_int nsec\<bar>"
    using ad by (metis of_int_abs of_int_add of_int_mult of_int_numeral)
  then have ax: "\<bar>of_int d / 10 ^ 9 :: rat\<bar> = \<bar>of_int sec\<bar> + \<bar>y\<bar>"
    by (simp add: y_def field_simps)
  have sec53: "\<bar>of_int sec :: rat\<bar> \<le> 9007199254740992"
    using s(1) by (metis less_imp_le of_int_abs of_int_le_iff of_int_numeral)
  have "\<bar>of_int nsec :: rat\<bar> \<le> 1000000000"
    using s(2) by (metis less_imp_le of_int_abs of_int_le_iff of_int_numeral)
  then have y1: "\<bar>y\<bar> \<le> 1" by (simp add: y_def)
  have q: "\<bar>rnd y - y\<bar> \<le> \<bar>y\<bar> * halfUlp + eta" by (rule rnd_rel_error)
  have q2: "\<bar>rnd y\<bar> \<le> 2" using q y1 eta_small by (simp add: halfUlp_def)
  have "durationSeconds d = fadd (Fin (of_int sec)) (mkF64 y)"
    using s by (simp add: durationSeconds_def Let_def intToF64_def mkF64_of_int y_def flip: sec_def nsec_def)
  also have "\<dots> = Fin (rnd (of_int sec + rnd y))"
    using y1 q2 sec53 by (simp add: mkF64_close)
  finally have "durationSeconds d = Fin (rnd (of_int sec + rnd y))" .
  moreover have "0 \<le> rnd (of_int sec + rnd y)" if "0 \<le> d"
  proof -
    have "0 \<le> sec" "0 \<le> nsec" using that by (auto simp: sec_def nsec_def pos_imp_zdiv_nonneg_iff intro!: mult_nonneg_nonneg simp: sgn_if)
    then show ?thesis by (intro rnd_nonneg add_nonneg_nonneg) (simp_all add: y_def rnd_nonneg)
  qed
  ultimately show ?thesis
    using rounded_sum [OF q rnd_rel_error [of "of_int sec + rnd y"]] eta_small(1)
    unfolding ax unfolding x by (simp add: halfUlp_def)
qed

lemma durationSeconds_bound:
  assumes "0 \<le> d" "d \<le> max_i64"
  shows "\<exists>el. durationSeconds d = Fin el \<and> 0 \<le> el \<and>
    el \<le> of_int d / 10 ^ 9 * (1 + 3 * halfUlp) + 3 * eta"
proof -
  obtain el where "durationSeconds d = Fin el" "0 \<le> el"
    "\<bar>el - of_int d / 10 ^ 9\<bar> \<le> \<bar>of_int d / 10 ^ 9\<bar> * (3 * halfUlp) + 3 * eta"
    using durationSeconds_close [of d] assms by auto
  then show ?thesis using assms(1) by (intro exI [of _ el]) (simp add: abs_le_iff algebra_simps add_divide_distrib)
qed

end
