(* ===== verification/Durations.thy ===== *)
theory Durations
  imports Float64
begin

text \<open>
  \<^verbatim>\<open>time.ParseDuration\<close>, which reads the health-check interval of a service and the
  durations of the environment variables: an optional sign, then one or more decimal numbers with a
  unit. The result is \<open>None\<close> where Go returns an error, overflow included.
\<close>

definition is_num_char :: "char \<Rightarrow> bool" where
  "is_num_char c \<longleftrightarrow> c = CHR ''.'' \<or> ascii_digit c"

definition digit_val :: "char \<Rightarrow> int" where
  "digit_val c = of_char c - 48"

abbreviation two63 :: int where
  "two63 \<equiv> 9223372036854775808"

text \<open>\<^verbatim>\<open>leadingInt\<close>: the digits at the front; an error when they exceed \<open>2^63\<close>.\<close>

fun leadingInt :: "int \<Rightarrow> string \<Rightarrow> (int \<times> string) option" where
  "leadingInt x [] = Some (x, [])"
| "leadingInt x (c # cs) =
     (if \<not> ascii_digit c then Some (x, c # cs)
      else if x > two63 div 10 then None
      else let y = x * 10 + digit_val c in if y > two63 then None else leadingInt y cs)"

text \<open>\<^verbatim>\<open>leadingFraction\<close>: digits that no longer fit are skipped.\<close>

fun leadingFraction :: "int \<Rightarrow> int \<Rightarrow> bool \<Rightarrow> string \<Rightarrow> int \<times> int \<times> string" where
  "leadingFraction x scale overflow [] = (x, scale, [])"
| "leadingFraction x scale overflow (c # cs) =
     (if \<not> ascii_digit c then (x, scale, c # cs)
      else if overflow then leadingFraction x scale True cs
      else if x > (two63 - 1) div 10 then leadingFraction x scale True cs
      else let y = x * 10 + digit_val c
           in if y > two63 then leadingFraction x scale True cs
              else leadingFraction y (scale * 10) False cs)"

definition unitMap :: "string \<Rightarrow> int option" where
  "unitMap = map_of
     [(''ns'', 1), (''us'', 1000), ([CHR 0xC2, CHR 0xB5, CHR ''s''], 1000),
      ([CHR 0xCE, CHR 0xBC, CHR ''s''], 1000), (''ms'', 1000000), (''s'', 1000000000),
      (''m'', 60000000000), (''h'', 3600000000000)]"

text \<open>The optional fraction: its digits, their scale, the rest, and whether there were digits.\<close>

definition durationFraction :: "string \<Rightarrow> int \<times> int \<times> string \<times> bool" where
  "durationFraction s =
     (case s of [] \<Rightarrow> (0, 1, s, False)
      | d # t \<Rightarrow> (if d = CHR ''.''
                  then let (f, scale, r) = leadingFraction 0 1 False t in (f, scale, r, length r \<noteq> length t)
                  else (0, 1, s, False)))"

text \<open>A number of whole units and a fraction in nanoseconds, unless it overflows.\<close>

definition durationValue :: "int \<Rightarrow> int \<Rightarrow> int \<Rightarrow> int \<Rightarrow> int option" where
  "durationValue v f scale unit =
     (if v > two63 div unit then None
      else let v1 = v * unit;
               v2 = (if f > 0
                     then v1 + f64ToInt (intToF64 f * mkF64 (of_int unit / of_int scale))
                     else v1)
           in if v2 > two63 then None else Some v2)"

text \<open>One number with its unit: its value in nanoseconds and the rest of the string.\<close>

definition durationPiece :: "string \<Rightarrow> (int \<times> string) option" where
  "durationPiece s =
     (if s = [] \<or> \<not> is_num_char (hd s) then None
      else case leadingInt 0 s of None \<Rightarrow> None
      | Some (v, s1) \<Rightarrow>
        let pre = (length s1 \<noteq> length s); (f, scale, s2, post) = durationFraction s1
        in if \<not> pre \<and> \<not> post then None
           else let u = takeWhile (\<lambda>c. \<not> is_num_char c) s2; s3 = dropWhile (\<lambda>c. \<not> is_num_char c) s2
                in case unitMap u of None \<Rightarrow> None
                   | Some unit \<Rightarrow> map_option (\<lambda>d. (d, s3)) (durationValue v f scale unit))"

fun durationSum :: "nat \<Rightarrow> int \<Rightarrow> string \<Rightarrow> int option" where
  "durationSum fuel d [] = Some d"
| "durationSum 0 d (c # cs) = None"
| "durationSum (Suc fuel) d (c # cs) =
     (case durationPiece (c # cs) of None \<Rightarrow> None
      | Some (v, rest) \<Rightarrow> if d + v > two63 then None else durationSum fuel (d + v) rest)"

text \<open>
  Every piece consumes at least one byte (\<open>durationPiece_shorter\<close>), so the length of the string is
  fuel enough (\<open>durationSum_fuel\<close>).
\<close>

definition parseDuration :: "string \<Rightarrow> duration option" where
  "parseDuration s =
     (let (neg, t) = (case s of [] \<Rightarrow> (False, []) | c # cs \<Rightarrow>
            if c = CHR ''-'' then (True, cs) else if c = CHR ''+'' then (False, cs) else (False, s))
      in if t = ''0'' then Some 0
         else if t = [] then None
         else case durationSum (length t) 0 t of None \<Rightarrow> None
              | Some d \<Rightarrow> if neg then Some (- d) else if d > max_i64 then None else Some d)"

section \<open>The fuel is enough\<close>

lemma leadingInt_suffix: "leadingInt x s = Some (v, r) \<Longrightarrow> length r \<le> length s"
  by (induction x s arbitrary: v r rule: leadingInt.induct) (fastforce simp: Let_def split: if_splits)+

lemma leadingFraction_suffix: "leadingFraction x sc ov s = (f, sc', r) \<Longrightarrow> length r \<le> length s"
  by (induction x sc ov s arbitrary: f sc' r rule: leadingFraction.induct)
    (fastforce simp: Let_def split: if_splits)+

lemma unitMap_empty [simp]: "unitMap [] = None"
  by (simp add: unitMap_def)

lemma durationFraction_suffix: "durationFraction s = (f, sc, r, post) \<Longrightarrow> length r \<le> length s"
  using leadingFraction_suffix [of 0 1 False "tl s" f sc r]
  by (cases s) (auto simp: durationFraction_def split: if_splits prod.splits)

lemma durationPiece_shorter:
  assumes "durationPiece s = Some (v, r)"
  shows "length r < length s"
proof -
  obtain v0 s1 where i: "leadingInt 0 s = Some (v0, s1)"
    using assms by (auto simp: durationPiece_def split: if_splits option.splits)
  obtain f sc s2 post where p: "durationFraction s1 = (f, sc, s2, post)" by (metis prod_cases4)
  let ?u = "takeWhile (\<lambda>c. \<not> is_num_char c) s2"
  have u: "unitMap ?u \<noteq> None" and r: "r = dropWhile (\<lambda>c. \<not> is_num_char c) s2"
    using assms i p by (auto simp: durationPiece_def Let_def split: if_splits option.splits)
  have "?u \<noteq> []" using u unitMap_empty by metis
  then have "length r < length s2"
    using r by (metis length_append length_greater_0_conv less_add_same_cancel2 takeWhile_dropWhile_id)
  with leadingInt_suffix [OF i] durationFraction_suffix [OF p] show ?thesis by simp
qed

lemma durationSum_fuel:
  "length s \<le> n \<Longrightarrow> length s \<le> m \<Longrightarrow> durationSum n d s = durationSum m d s"
proof (induction n d s arbitrary: m rule: durationSum.induct)
  case (3 fuel d c cs)
  then obtain m' where m: "m = Suc m'" by (cases m) auto
  show ?case
  proof (cases "durationPiece (c # cs)")
    case None
    then show ?thesis by (simp add: m)
  next
    case (Some vr)
    obtain v r where vr: "vr = (v, r)" by (cases vr)
    then have "length r < length (c # cs)" using Some durationPiece_shorter by blast
    then have "durationSum fuel (d + v) r = durationSum m' (d + v) r" if "\<not> d + v > two63"
      using 3 Some vr that m by auto
    then show ?thesis using Some vr m by simp
  qed
qed auto

end
