(* ===== verification/Config.thy ===== *)
theory Config
  imports Durations
begin

text \<open>
  Package \<^verbatim>\<open>gateway/internal/config\<close>: the types of the configuration file
  (\<^verbatim>\<open>types.go\<close>), its validation (\<^verbatim>\<open>parse.go\<close>) and the polling watcher
  (\<^verbatim>\<open>watcher.go\<close>). The YAML decoder is third-party code and a parameter: a function from
  bytes to an error or a decoded configuration. What \<^verbatim>\<open>os.Stat\<close> and \<^verbatim>\<open>os.ReadFile\<close>
  return at a poll is an argument of the poll, so the file may change between the two.
\<close>

section \<open>Types\<close>

text \<open>
  A decoded YAML value (\<^verbatim>\<open>any\<close>); a \<^verbatim>\<open>map[string]any\<close> is a list of pairs with
  distinct keys, in the order a range statement visits it.
\<close>

datatype yaml =
    YNull
  | YBool bool
  | YInt int
  | YInt64 int
  | YFloat f64
  | YString string
  | YList "yaml list"
  | YMap "(string \<times> yaml) list"
  | YOther string \<comment> \<open>any other decoded type, by its name\<close>

type_synonym cfgmap = "(string \<times> yaml) list"

record pluginConfig =
  pcName :: string
  pcConfig :: cfgmap

record healthCheckConfig =
  hcPath :: string
  hcInterval :: string

record service =
  svcName :: string
  svcPath :: string
  svcHost :: string
  originURL :: string
  originURLs :: "string list"
  svcMethods :: "string list"
  svcPlugins :: "pluginConfig list"
  healthCheck :: "healthCheckConfig option"
  retryUnsafeMethods :: bool
  preserveRequestID :: bool

record config =
  services :: "service list"

datatype config_error =
    YamlError string
  | NameRequired nat
  | PathRequired string
  | BadHost string string
  | OriginRequired string
  | OriginExclusive string
  | EmptyOrigin string
  | BadInterval string
  | ReadError string

section \<open>Validation\<close>

text \<open>
  \<^verbatim>\<open>hostPattern\<close>: dot-separated labels of lower-case letters, digits and inner hyphens.
\<close>

definition hostAlnum :: "char \<Rightarrow> bool" where
  "hostAlnum c \<longleftrightarrow> ascii_lower c \<or> ascii_digit c"

definition hostLabel :: "string \<Rightarrow> bool" where
  "hostLabel l \<longleftrightarrow> l \<noteq> [] \<and> hostAlnum (hd l) \<and> hostAlnum (last l) \<and>
     list_all (\<lambda>c. hostAlnum c \<or> c = CHR ''-'') l"

definition hostPattern :: "string \<Rightarrow> bool" where
  "hostPattern s \<longleftrightarrow> list_all hostLabel (splitOn (CHR ''.'') s)"

text \<open>\<^verbatim>\<open>Config.Hosts\<close>.\<close>

definition configHosts :: "config \<Rightarrow> string list" where
  "configHosts c = sort (remdups (filter (\<lambda>h. h \<noteq> []) (map svcHost (services c))))"

definition checkService :: "nat \<Rightarrow> service \<Rightarrow> config_error option" where
  "checkService i svc =
     (if svcName svc = [] then Some (NameRequired i)
      else if svcPath svc = [] then Some (PathRequired (svcName svc))
      else if svcHost svc \<noteq> [] \<and> \<not> hostPattern (svcHost svc) then Some (BadHost (svcName svc) (svcHost svc))
      else if originURL svc = [] \<and> originURLs svc = [] then Some (OriginRequired (svcName svc))
      else if originURL svc \<noteq> [] \<and> originURLs svc \<noteq> [] then Some (OriginExclusive (svcName svc))
      else if [] \<in> set (originURLs svc) then Some (EmptyOrigin (svcName svc))
      else case healthCheck svc of None \<Rightarrow> None
           | Some hc \<Rightarrow> if hcInterval hc \<noteq> [] \<and> parseDuration (hcInterval hc) = None
                        then Some (BadInterval (svcName svc)) else None)"

text \<open>The loop of \<^verbatim>\<open>Parse\<close> over the services, starting at index \<open>i\<close>.\<close>

fun checkServices :: "nat \<Rightarrow> service list \<Rightarrow> config_error option" where
  "checkServices i [] = None"
| "checkServices i (svc # svcs) =
     (case checkService i svc of Some e \<Rightarrow> Some e | None \<Rightarrow> checkServices (Suc i) svcs)"

type_synonym decoder = "string \<Rightarrow> string + config"

definition parseConfig :: "decoder \<Rightarrow> string \<Rightarrow> config_error + config" where
  "parseConfig unmarshal data =
     (case unmarshal data of
        Inl e \<Rightarrow> Inl (YamlError e)
      | Inr cfg \<Rightarrow> (case checkServices 0 (services cfg) of Some e \<Rightarrow> Inl e | None \<Rightarrow> Inr cfg))"

text \<open>\<^verbatim>\<open>Load\<close>, with what \<^verbatim>\<open>os.ReadFile\<close> returned.\<close>

definition loadConfig :: "decoder \<Rightarrow> string + string \<Rightarrow> config_error + config" where
  "loadConfig unmarshal file = (case file of Inl e \<Rightarrow> Inl (ReadError e) | Inr data \<Rightarrow> parseConfig unmarshal data)"

section \<open>The watcher\<close>

type_synonym fileStamp = "instant \<times> int" \<comment> \<open>modification time and size\<close>

record watcher =
  lastModTime :: instant
  lastSize :: int

text \<open>
  What a poll gets to see: the result of \<^verbatim>\<open>os.Stat\<close> and, if it comes to that, of the
  later \<^verbatim>\<open>os.ReadFile\<close>.
\<close>

record pollView =
  statRes :: "fileStamp option"
  readRes :: "string + string"

text \<open>The reload callback succeeds, returns an error, or panics.\<close>

datatype reload_outcome = ReloadOk | ReloadErr | ReloadPanic

type_synonym 'w onReload = "config \<Rightarrow> 'w \<Rightarrow> reload_outcome \<times> 'w"

definition newWatcher :: "fileStamp option \<Rightarrow> watcher" where
  "newWatcher st = (case st of None \<Rightarrow> \<lparr>lastModTime = 0, lastSize = 0\<rparr>
                    | Some (m, sz) \<Rightarrow> \<lparr>lastModTime = m, lastSize = sz\<rparr>)"

text \<open>
  \<^verbatim>\<open>pollOnce\<close>; the flag says whether the poll panicked. Nothing recovers a panic in the
  watcher's goroutine, so it ends the process.
\<close>

definition pollOnce :: "decoder \<Rightarrow> 'w onReload \<Rightarrow> pollView \<Rightarrow> watcher \<times> 'w \<Rightarrow> bool \<times> watcher \<times> 'w" where
  "pollOnce unmarshal onReload v ws =
     (case ws of (wt, w) \<Rightarrow>
        case statRes v of
          None \<Rightarrow> (False, wt, w)
        | Some (m, sz) \<Rightarrow>
            if m = lastModTime wt \<and> sz = lastSize wt then (False, wt, w)
            else case loadConfig unmarshal (readRes v) of
                   Inl e \<Rightarrow> (False, wt, w)
                 | Inr cfg \<Rightarrow>
                     (case onReload cfg w of
                        (ReloadPanic, w') \<Rightarrow> (True, wt, w')
                      | (ReloadErr, w') \<Rightarrow> (False, wt, w')
                      | (ReloadOk, w') \<Rightarrow> (False, wt\<lparr>lastModTime := m, lastSize := sz\<rparr>, w')))"

text \<open>The watcher's loop over a sequence of ticks; a panic stops it.\<close>

fun watcherRun :: "decoder \<Rightarrow> 'w onReload \<Rightarrow> pollView list \<Rightarrow> watcher \<times> 'w \<Rightarrow> bool \<times> watcher \<times> 'w" where
  "watcherRun unmarshal onReload [] ws = (False, ws)"
| "watcherRun unmarshal onReload (v # vs) ws =
     (case pollOnce unmarshal onReload v ws of
        (True, ws') \<Rightarrow> (True, ws')
      | (False, ws') \<Rightarrow> watcherRun unmarshal onReload vs ws')"

section \<open>Well-formed configurations\<close>

definition wf_service :: "service \<Rightarrow> bool" where
  "wf_service svc \<longleftrightarrow>
     svcName svc \<noteq> [] \<and> svcPath svc \<noteq> [] \<and>
     (svcHost svc = [] \<or> hostPattern (svcHost svc)) \<and>
     (originURL svc = [] \<longleftrightarrow> originURLs svc \<noteq> []) \<and>
     [] \<notin> set (originURLs svc) \<and>
     (case healthCheck svc of None \<Rightarrow> True
      | Some hc \<Rightarrow> hcInterval hc = [] \<or> parseDuration (hcInterval hc) \<noteq> None)"

definition wf_config :: "config \<Rightarrow> bool" where
  "wf_config cfg \<longleftrightarrow> (\<forall>svc \<in> set (services cfg). wf_service svc)"

lemma checkService_None_iff: "checkService i svc = None \<longleftrightarrow> wf_service svc"
  by (auto simp: checkService_def wf_service_def split: option.splits)

lemma checkService_Some: "checkService i svc = Some e \<Longrightarrow> \<not> wf_service svc"
  by (metis checkService_None_iff option.distinct(1))

lemma checkServices_None_iff: "checkServices i svcs = None \<longleftrightarrow> (\<forall>svc \<in> set svcs. wf_service svc)"
  by (induction i svcs rule: checkServices.induct)
    (auto simp: checkService_None_iff dest: checkService_Some split: option.splits)

lemma checkServices_Some:
  "checkServices i svcs = Some e \<Longrightarrow>
    \<exists>j < length svcs. checkService (i + j) (svcs ! j) = Some e \<and> (\<forall>k < j. wf_service (svcs ! k))"
proof (induction i svcs rule: checkServices.induct)
  case (2 i svc svcs)
  show ?case
  proof (cases "checkService i svc")
    case None
    then obtain j where "j < length svcs" "checkService (Suc i + j) (svcs ! j) = Some e"
      "\<forall>k < j. wf_service (svcs ! k)" using 2 by auto
    then show ?thesis
      using None by (intro exI [of _ "Suc j"]) (auto simp: checkService_None_iff less_Suc_eq_0_disj)
  next
    case (Some e')
    then show ?thesis using 2 by (intro exI [of _ 0]) auto
  qed
qed simp

lemma parseConfig_Inr_iff: "parseConfig um data = Inr cfg \<longleftrightarrow> um data = Inr cfg \<and> wf_config cfg"
  by (auto simp: parseConfig_def wf_config_def checkServices_None_iff split: sum.splits option.splits)
    (metis checkServices_None_iff option.distinct(1))

lemma loadConfig_Inr_iff:
  "loadConfig um file = Inr cfg \<longleftrightarrow> (\<exists>data. file = Inr data \<and> um data = Inr cfg \<and> wf_config cfg)"
  by (auto simp: loadConfig_def parseConfig_Inr_iff split: sum.splits)

section \<open>Host names\<close>

lemma hostAlnum_lower [simp]: "hostAlnum c \<Longrightarrow> lower_char c = c"
proof -
  assume "hostAlnum c"
  then have "\<not> ascii_upper c"
    by (auto simp: hostAlnum_def ascii_lower_def ascii_digit_def ascii_upper_def less_eq_char_def)
  then show ?thesis by (simp add: lower_char_def)
qed

lemma lower_char_punct [simp]: "lower_char (CHR ''.'') = CHR ''.''" "lower_char (CHR ''-'') = CHR ''-''"
  by (simp_all add: lower_char_def ascii_upper_def less_eq_char_def)

text \<open>The characters of a string come from its pieces or are the separator.\<close>

lemma set_splitOn: "c' \<in> set s \<Longrightarrow> c' = c \<or> (\<exists>l \<in> set (splitOn c s). c' \<in> set l)"
proof (induction s)
  case (Cons x xs)
  obtain w ws where w: "splitOn c xs = w # ws" by (cases "splitOn c xs") auto
  show ?case using Cons w by auto
qed simp

lemma hostPattern_chars:
  assumes "hostPattern h" "c \<in> set h"
  shows "hostAlnum c \<or> c = CHR ''-'' \<or> c = CHR ''.''"
  using assms set_splitOn [of c h "CHR ''.''"]
  by (fastforce simp: hostPattern_def hostLabel_def list_all_iff)

lemma hostPattern_toLower: "hostPattern h \<Longrightarrow> toLower h = h"
  unfolding toLower_def by (rule map_idI) (auto dest: hostPattern_chars)

lemma hostPattern_no_dot_end: "hostPattern h \<Longrightarrow> \<not> hasSuffix h ''.''"
proof
  assume h: "hostPattern h" and "hasSuffix h ''.''"
  then obtain t where t: "h = t @ ''.''" by (auto simp: hasSuffix_iff)
  have "splitOn c (u @ [c]) = splitOn c u @ [[]]" for c u
    by (induction u) (auto split: list.splits)
  then show False using h t by (auto simp: hostPattern_def hostLabel_def list_all_iff)
qed

lemma configHosts_set: "set (configHosts c) = {svcHost svc | svc. svc \<in> set (services c) \<and> svcHost svc \<noteq> []}"
  by (auto simp: configHosts_def)

section \<open>Properties\<close>

text \<open>
  C29: A decoded configuration is accepted exactly when every service has a name and a path, a valid
  host or none, either one origin or a list of non-empty ones, and a readable probe interval; a
  refused one is refused for its first offending service.
\<close>

theorem parse_accepts_wellformed:
  "(parseConfig um data = Inr cfg \<longleftrightarrow> um data = Inr cfg \<and> wf_config cfg) \<and>
   (\<forall>e. um data = Inr cfg \<and> parseConfig um data = Inl e \<longrightarrow>
      (\<exists>j < length (services cfg). checkService j (services cfg ! j) = Some e \<and> (\<forall>k < j. wf_service (services cfg ! k))))"
proof
  show "parseConfig um data = Inr cfg \<longleftrightarrow> um data = Inr cfg \<and> wf_config cfg" by (rule parseConfig_Inr_iff)
  show "\<forall>e. um data = Inr cfg \<and> parseConfig um data = Inl e \<longrightarrow>
      (\<exists>j < length (services cfg). checkService j (services cfg ! j) = Some e \<and> (\<forall>k < j. wf_service (services cfg ! k)))"
    using checkServices_Some [of 0] by (auto simp: parseConfig_def split: option.splits)
qed

text \<open>
  The host names of a configuration come out sorted, without duplicates, and are exactly the
  non-empty hosts of its services.
\<close>

lemma hosts_sorted_distinct:
  "sorted (configHosts c) \<and> distinct (configHosts c) \<and>
   set (configHosts c) = {svcHost svc | svc. svc \<in> set (services c) \<and> svcHost svc \<noteq> []}"
  using configHosts_set by (simp add: configHosts_def)

section \<open>Witnesses\<close>

definition demo_service :: service where
  "demo_service = \<lparr>svcName = ''shop'', svcPath = ''/shop/'', svcHost = ''shop.test'', originURL = ''http://origin:8080'',
     originURLs = [], svcMethods = [], svcPlugins = [], healthCheck = None, retryUnsafeMethods = False,
     preserveRequestID = False\<rparr>"

theorem parse_accepts_wellformed_witness:
  "checkService 1 (services \<lparr>services = [demo_service, demo_service\<lparr>svcPath := []\<rparr>]\<rparr> ! 1) = Some (PathRequired ''shop'')"
proof -
  let ?cfg = "\<lparr>services = [demo_service, demo_service\<lparr>svcPath := []\<rparr>]\<rparr>"
  have host: "hostPattern ''shop.test''" by code_simp
  have e: "parseConfig (\<lambda>_. Inr ?cfg) [] = Inl (PathRequired ''shop'')"
    using host by (simp add: parseConfig_def checkService_def demo_service_def)
  have wf: "checkService 0 demo_service = None" using host by (simp add: checkService_def demo_service_def)
  from parse_accepts_wellformed [of "\<lambda>_. Inr ?cfg" "[]" ?cfg] e
  obtain j where j: "j < length (services ?cfg)" "checkService j (services ?cfg ! j) = Some (PathRequired ''shop'')"
    by auto
  then show ?thesis using wf by (cases j) (auto simp: less_Suc_eq)
qed

end
