(* ===== verification/Router.thy ===== *)
theory Router
  imports Servemux Config
begin

text \<open>
  Package \<^verbatim>\<open>router\<close>: a configuration is compiled into a mux. What builds the handler of a
  service may fail and may change the state it is given, so it is an argument, as
  \<^verbatim>\<open>handlerFor\<close> is in the code. \<open>BuildPanic\<close> is a panic of \<^verbatim>\<open>mux.Handle\<close>.
\<close>

section \<open>Building\<close>

datatype ('e, 'h) build_result = Built "'h mux" | BuildError string 'e | BuildPanic

definition hasCORSPlugin :: "service \<Rightarrow> bool" where
  "hasCORSPlugin svc = list_ex (\<lambda>p. pcName p = ''cors'') (svcPlugins svc)"

text \<open>The patterns registered for a service, in the order of the calls.\<close>

definition servicePatterns :: "service \<Rightarrow> string list" where
  "servicePatterns svc =
     (let pattern = svcHost svc @ svcPath svc in
      if svcMethods svc = [] then [pattern]
      else
        map (\<lambda>method. method @ '' '' @ pattern) (svcMethods svc) @
        (let hasOptions = list_ex (\<lambda>method. method = ''OPTIONS'') (svcMethods svc)
         in if \<not> hasOptions \<and> hasCORSPlugin svc then [''OPTIONS '' @ pattern] else []))"

fun buildServices ::
  "(service \<Rightarrow> 's \<Rightarrow> ('e + 'h) \<times> 's) \<Rightarrow> service list \<Rightarrow> 'h mux \<Rightarrow> 's \<Rightarrow> ('e, 'h) build_result \<times> 's" where
  "buildServices handlerFor [] m s = (Built m, s)"
| "buildServices handlerFor (svc # svcs) m s =
     (case handlerFor svc s of
        (Inl e, s) \<Rightarrow> (BuildError (svcName svc) e, s)
      | (Inr h, s) \<Rightarrow>
          (case handleAll (servicePatterns svc) h m of
             None \<Rightarrow> (BuildPanic, s)
           | Some m \<Rightarrow> buildServices handlerFor svcs m s))"

definition routerBuild :: "config \<Rightarrow> (service \<Rightarrow> 's \<Rightarrow> ('e + 'h) \<times> 's) \<Rightarrow> 's \<Rightarrow> ('e, 'h) build_result \<times> 's" where
  "routerBuild cfg handlerFor s = buildServices handlerFor (services cfg) [] s"

section \<open>The routes of a configuration\<close>

text \<open>
  What a service answers for, read off its configuration: its host or any, its methods (\<open>HEAD\<close> with
  \<open>GET\<close>, and \<open>OPTIONS\<close> when it has the cors plugin) or any, and the paths its path stands for.
\<close>

definition servesMethod :: "service \<Rightarrow> string \<Rightarrow> bool" where
  "servesMethod svc method \<longleftrightarrow> svcMethods svc = [] \<or> method \<in> set (svcMethods svc) \<or>
     (method = ''HEAD'' \<and> ''GET'' \<in> set (svcMethods svc)) \<or> (method = ''OPTIONS'' \<and> hasCORSPlugin svc)"

definition servesPath :: "service \<Rightarrow> string \<Rightarrow> bool" where
  "servesPath svc path =
     (case parseSegs [] (splitOn CHR ''/'' (tl (svcPath svc))) of None \<Rightarrow> False | Some ss \<Rightarrow> segsMatch ss (pathSegs path))"

definition serves :: "service \<Rightarrow> string \<Rightarrow> string \<Rightarrow> string \<Rightarrow> bool" where
  "serves svc host method path \<longleftrightarrow>
     (svcHost svc = [] \<or> svcHost svc = host) \<and> servesMethod svc method \<and> servesPath svc path"

text \<open>A service whose host and path are proper and whose methods are words.\<close>

definition routable :: "service \<Rightarrow> bool" where
  "routable svc \<longleftrightarrow> wf_service svc \<and> hd (svcPath svc) = CHR ''/'' \<and>
     list_all (\<lambda>m. m \<noteq> [] \<and> list_all (\<lambda>c. \<not> isBlank c) m) (svcMethods svc)"


lemma handleAll_new:
  assumes "handleAll ss h m = Some m'" "x \<in> set ss"
  shows "\<exists>p. parsePattern x = Some p \<and> p \<notin> fst ` set m \<and> p \<in> fst ` set m'"
  using assms
proof (induction ss arbitrary: m)
  case (Cons y ss)
  then obtain p where p: "parsePattern y = Some p" "\<forall>(q, _) \<in> set m. \<not> conflictsWith p q"
    "handleAll ss h (m @ [(p, h)]) = Some m'"
    by (auto simp: muxHandle_Some split: option.splits)
  have "p \<notin> fst ` set m" using p(2) conflicts_self [of p] by auto
  moreover have "set (m @ [(p, h)]) \<subseteq> set m'" using handleAll_Some [OF p(3)] by auto
  then have "p \<in> fst ` set m'" by force
  moreover have "\<exists>q. parsePattern x = Some q \<and> q \<notin> fst ` set m \<and> q \<in> fst ` set m'" if "x \<in> set ss"
    using Cons.IH [OF p(3) that] by auto
  ultimately show ?case using p(1) Cons.prems(2) by auto
qed simp

lemma buildServices_prefix: "buildServices hf svcs m s = (Built m', s') \<Longrightarrow> set m \<subseteq> set m'"
proof (induction svcs arbitrary: m s)
  case (Cons sv svcs)
  then obtain h s1 m1 where "handleAll (servicePatterns sv) h m = Some m1" "buildServices hf svcs m1 s1 = (Built m', s')"
    by (auto split: prod.splits sum.splits option.splits)
  then show ?case using Cons.IH handleAll_Some by fastforce
qed simp

lemma buildServices_inv:
  assumes "buildServices hf svcs m s = (Built m', s')" "J m s"
    and step: "\<And>svc m s h s' m'. J m s \<Longrightarrow> hf svc s = (Inr h, s') \<Longrightarrow> handleAll (servicePatterns svc) h m = Some m' \<Longrightarrow> J m' s'"
  shows "J m' s'"
  using assms(1,2)
proof (induction svcs arbitrary: m s)
  case (Cons sv svcs)
  then obtain h s1 m1 where "hf sv s = (Inr h, s1)" "handleAll (servicePatterns sv) h m = Some m1"
    and rest: "buildServices hf svcs m1 s1 = (Built m', s')"
    by (auto split: prod.splits sum.splits option.splits)
  then show ?case using Cons.IH [OF rest] step [OF Cons.prems(2)] by blast
qed simp

lemma buildServices_state:
  assumes "R s s" and "\<And>svc s1 x s2. R s s1 \<Longrightarrow> hf svc s1 = (x, s2) \<Longrightarrow> R s s2"
  shows "R s (snd (buildServices hf svcs m s))"
proof -
  have "R s (snd (buildServices hf svcs m s1))" if "R s s1" for s1
    using that
  proof (induction svcs arbitrary: m s1)
    case (Cons svc svcs)
    obtain x s2 where x: "hf svc s1 = (x, s2)" by (cases "hf svc s1")
    have "R s s2" using assms(2) [OF Cons.prems x] .
    then show ?case using x Cons.IH by (auto split: sum.splits option.splits)
  qed simp
  then show ?thesis using assms(1) by simp
qed

lemma servicePatterns_nonempty: "servicePatterns svc \<noteq> []"
  by (simp add: servicePatterns_def Let_def)

text \<open>Every pattern of every service parses, and none was registered before.\<close>

lemma buildServices_new:
  assumes "buildServices hf svcs m s = (Built m', s')" "svc \<in> set svcs" "x \<in> set (servicePatterns svc)"
  shows "\<exists>p. parsePattern x = Some p \<and> p \<notin> fst ` set m \<and> p \<in> fst ` set m'"
  using assms(1,2)
proof (induction svcs arbitrary: m s)
  case (Cons sv svcs)
  then obtain h s1 m1 where h: "hf sv s = (Inr h, s1)" and m1: "handleAll (servicePatterns sv) h m = Some m1"
    and rest: "buildServices hf svcs m1 s1 = (Built m', s')"
    by (auto split: prod.splits sum.splits option.splits)
  have keep: "set m1 \<subseteq> set m'" "set m \<subseteq> set m1"
    using buildServices_prefix [OF rest] handleAll_Some [OF m1] by auto
  show ?case
  proof (cases "svc = sv")
    case True
    then obtain p where "parsePattern x = Some p" "p \<notin> fst ` set m" "p \<in> fst ` set m1"
      using handleAll_new [OF m1] assms(3) by blast
    then show ?thesis using keep by blast
  next
    case False
    then obtain p where "parsePattern x = Some p" "p \<notin> fst ` set m1" "p \<in> fst ` set m'"
      using Cons.IH [OF rest] Cons.prems by auto
    then show ?thesis using keep by blast
  qed
qed simp

text \<open>Two services with a pattern in common, or a pattern that does not parse, are never built.\<close>

lemma buildServices_append:
  "buildServices hf (xs @ ys) m s =
    (case buildServices hf xs m s of (Built m1, s1) \<Rightarrow> buildServices hf ys m1 s1 | r \<Rightarrow> r)"
  by (induction xs arbitrary: m s) (auto split: prod.splits sum.splits option.splits)

lemma duplicate_not_built:
  assumes "services cfg = pre @ a # post" "b \<in> set post"
    and "x \<in> set (servicePatterns a)" "x \<in> set (servicePatterns b)"
  shows "routerBuild cfg hf s \<noteq> (Built m, s')"
proof
  assume "routerBuild cfg hf s = (Built m, s')"
  then have "buildServices hf ((pre @ [a]) @ post) [] s = (Built m, s')"
    by (simp add: routerBuild_def assms(1))
  then obtain m1 s1 where 1: "buildServices hf (pre @ [a]) [] s = (Built m1, s1)"
    and 2: "buildServices hf post m1 s1 = (Built m, s')"
    unfolding buildServices_append [of hf "pre @ [a]" post] by (auto split: prod.splits build_result.splits)
  obtain p where "parsePattern x = Some p" "p \<in> fst ` set m1" using buildServices_new [OF 1 _ assms(3)] by auto
  then show False using buildServices_new [OF 2 assms(2,4)] by auto
qed

lemma unparsable_not_built:
  assumes "svc \<in> set (services cfg)" "x \<in> set (servicePatterns svc)" "parsePattern x = None"
  shows "routerBuild cfg hf s \<noteq> (Built m, s')"
  using buildServices_new [of hf "services cfg" "[]" s m s', OF _ assms(1,2)] assms(3) by (auto simp: routerBuild_def)

lemma no_slash_no_pattern: "CHR ''/'' \<notin> set s \<Longrightarrow> parsePattern s = None"
  by (auto simp: parsePattern_def parseRest_def dest: set_dropWhileD)

section \<open>Two ways to build a handler\<close>

fun mapBuild :: "('h \<Rightarrow> 'g) \<Rightarrow> ('e, 'h) build_result \<Rightarrow> ('e, 'g) build_result" where
  "mapBuild f (Built m) = Built (mapMux f m)"
| "mapBuild f (BuildError n e) = BuildError n e"
| "mapBuild f BuildPanic = BuildPanic"

lemma buildServices_simulation:
  assumes step: "\<And>svc s. I s \<Longrightarrow> I (snd (hf svc s)) \<and> map_sum id f (fst (hf svc s)) = fst (hg svc ())"
    and "I s"
  shows "I (snd (buildServices hf svcs m s)) \<and>
    mapBuild f (fst (buildServices hf svcs m s)) = fst (buildServices hg svcs (mapMux f m) ())"
  using assms(2)
proof (induction svcs arbitrary: m s)
  case (Cons svc svcs)
  obtain x s1 where hf: "hf svc s = (x, s1)" by (cases "hf svc s")
  have I1: "I s1" and x: "hg svc () = (map_sum id f x, ())" using step [OF Cons.prems, of svc] hf by (simp_all add: prod_eq_iff)
  show ?case
  proof (cases x)
    case (Inr h)
    then show ?thesis
      using hf x I1 Cons.IH [OF I1] by (simp add: handleAll_mapMux split: option.splits)
  qed (use hf x I1 in simp)
qed simp

section \<open>The patterns of a service\<close>

lemma hostPattern_plain: "hostPattern h \<Longrightarrow> list_all (\<lambda>c. \<not> isBlank c \<and> c \<noteq> CHR ''/'') h"
proof -
  have "\<not> hostAlnum c" if "isBlank c \<or> c = CHR ''/''" for c
    using that by (auto simp: isBlank_def hostAlnum_def ascii_lower_def ascii_digit_def less_eq_char_def)
  then show "hostPattern h \<Longrightarrow> list_all (\<lambda>c. \<not> isBlank c \<and> c \<noteq> CHR ''/'') h"
    using hostPattern_chars [of h] by (fastforce simp: list_all_iff isBlank_def)
qed

definition methodsOf :: "service \<Rightarrow> string list" where
  "methodsOf svc =
     (if svcMethods svc = [] then [[]]
      else svcMethods svc @ (if ''OPTIONS'' \<notin> set (svcMethods svc) \<and> hasCORSPlugin svc then [''OPTIONS''] else []))"

lemma servesMethod_iff:
  "list_all (\<lambda>m. m \<noteq> []) (svcMethods svc) \<Longrightarrow>
    servesMethod svc method \<longleftrightarrow> (\<exists>m \<in> set (methodsOf svc). m = [] \<or> m = method \<or> (method = ''HEAD'' \<and> m = ''GET''))"
  by (auto simp: servesMethod_def methodsOf_def list_all_iff)

text \<open>The route of a service for one of its methods.\<close>

definition routeFor :: "service \<Rightarrow> string \<Rightarrow> pat option" where
  "routeFor svc m = parseRest m (svcHost svc @ svcPath svc)"

lemma routable_split:
  assumes "routable svc"
  obtains t where "svcPath svc = CHR ''/'' # t" "list_all (\<lambda>c. \<not> isBlank c \<and> c \<noteq> CHR ''/'') (svcHost svc)"
proof -
  have "svcPath svc \<noteq> []" "svcHost svc = [] \<or> hostPattern (svcHost svc)" using assms by (auto simp: routable_def wf_service_def)
  then show thesis using that assms hostPattern_plain by (cases "svcPath svc") (auto simp: routable_def)
qed

lemma servicePatterns_routes:
  assumes "routable svc" "\<forall>x \<in> set (servicePatterns svc). parsePattern x \<noteq> None"
  shows "map parsePattern (servicePatterns svc) = map (routeFor svc) (methodsOf svc)"
proof -
  let ?pat = "svcHost svc @ svcPath svc"
  obtain t where t: "svcPath svc = CHR ''/'' # t" "list_all (\<lambda>c. \<not> isBlank c \<and> c \<noteq> CHR ''/'') (svcHost svc)"
    using routable_split [OF assms(1)] .
  have pat: "?pat \<noteq> []" "\<not> isBlank (hd ?pat)" using t by (cases "svcHost svc"; auto simp: isBlank_def)+
  have m: "parsePattern (m @ '' '' @ ?pat) = routeFor svc m" if "m \<in> set (svcMethods svc) \<union> {''OPTIONS''}" for m
  proof -
    have "list_all (\<lambda>c. \<not> isBlank c) ''OPTIONS''" by code_simp
    then have "list_all (\<lambda>c. \<not> isBlank c) m" using that assms(1) by (auto simp: routable_def list_all_iff)
    then show ?thesis unfolding routeFor_def by (rule parsePattern_method [OF _ pat])
  qed
  show ?thesis
  proof (cases "svcMethods svc = []")
    case True
    then obtain p where "parsePattern (svcHost svc @ CHR ''/'' # t) = Some p" using assms(2) t(1) by (auto simp: servicePatterns_def)
    moreover have "list_all (\<lambda>c. \<not> isBlank c) (svcHost svc)" using t(2) by (simp add: list_all_iff)
    ultimately have "parsePattern ?pat = routeFor svc []" unfolding routeFor_def t(1) by (rule parsePattern_slash)
    then show ?thesis using True by (simp add: servicePatterns_def methodsOf_def)
  next
    case False
    then have "servicePatterns svc = map (\<lambda>m. m @ '' '' @ ?pat) (methodsOf svc)"
      by (simp add: servicePatterns_def methodsOf_def Let_def list_ex_iff)
    moreover have "set (methodsOf svc) \<subseteq> set (svcMethods svc) \<union> {''OPTIONS''}" using False by (auto simp: methodsOf_def)
    ultimately show ?thesis using m by (auto simp del: append_Cons)
  qed
qed

lemma routeFor_fields:
  assumes "routable svc" "routeFor svc m = Some p"
  shows "patMethod p = m" "patHost p = svcHost svc"
    "patMatches p host method (pathSegs path) \<longleftrightarrow> (svcHost svc = [] \<or> svcHost svc = host) \<and>
      (m = [] \<or> m = method \<or> (method = ''HEAD'' \<and> m = ''GET'')) \<and> servesPath svc path"
proof -
  obtain t where t: "svcPath svc = CHR ''/'' # t" "list_all (\<lambda>c. \<not> isBlank c \<and> c \<noteq> CHR ''/'') (svcHost svc)"
    using routable_split [OF assms(1)] .
  have tw: "takeWhile (\<lambda>c. c \<noteq> CHR ''/'') (svcHost svc @ svcPath svc) = svcHost svc"
    "dropWhile (\<lambda>c. c \<noteq> CHR ''/'') (svcHost svc @ svcPath svc) = svcPath svc"
    using t by (simp_all add: list_all_iff takeWhile_append2 dropWhile_append2)
  note p = parseRest_Some [OF assms(2) [unfolded routeFor_def], unfolded tw]
  show "patMethod p = m" "patHost p = svcHost svc" using p by simp_all
  then show "patMatches p host method (pathSegs path) \<longleftrightarrow> (svcHost svc = [] \<or> svcHost svc = host) \<and>
      (m = [] \<or> m = method \<or> (method = ''HEAD'' \<and> m = ''GET'')) \<and> servesPath svc path"
    using p by (auto simp: patMatches_def servesPath_def)
qed

text \<open>What is registered for a service is what it answers for.\<close>

lemma serves_iff_pattern:
  assumes "routable svc" "\<forall>x \<in> set (servicePatterns svc). parsePattern x \<noteq> None"
  shows "serves svc host method path \<longleftrightarrow>
    (\<exists>x \<in> set (servicePatterns svc). \<exists>p. parsePattern x = Some p \<and> patHost p = svcHost svc \<and> patMatches p host method (pathSegs path))"
proof -
  have img: "parsePattern ` set (servicePatterns svc) = routeFor svc ` set (methodsOf svc)"
    using servicePatterns_routes [OF assms] by (metis list.set_map)
  have some: "\<exists>p. routeFor svc m = Some p" if "m \<in> set (methodsOf svc)" for m
    using that img assms(2) by (metis imageE imageI not_None_eq)
  have one: "(\<exists>p. routeFor svc m = Some p \<and> patMatches p host method (pathSegs path)) \<longleftrightarrow>
      (svcHost svc = [] \<or> svcHost svc = host) \<and> (m = [] \<or> m = method \<or> (method = ''HEAD'' \<and> m = ''GET'')) \<and> servesPath svc path"
    if "m \<in> set (methodsOf svc)" for m
    using some [OF that] routeFor_fields(3) [OF assms(1)] by metis
  have "list_all (\<lambda>m. m \<noteq> []) (svcMethods svc)" using assms(1) by (simp add: routable_def list_all_iff)
  then have "serves svc host method path \<longleftrightarrow> (\<exists>m \<in> set (methodsOf svc). \<exists>p. routeFor svc m = Some p \<and> patMatches p host method (pathSegs path))"
    using one by (simp add: serves_def servesMethod_iff)
  also have "\<dots> \<longleftrightarrow> (\<exists>x \<in> set (servicePatterns svc). \<exists>p. parsePattern x = Some p \<and> patHost p = svcHost svc \<and> patMatches p host method (pathSegs path))"
    using img routeFor_fields(2) [OF assms(1)] by (metis (no_types, lifting) imageE imageI)
  finally show ?thesis .
qed




section \<open>Properties\<close>


text \<open>
  A service with the cors plugin gets to see preflight requests: wherever it is reached under one
  of its methods, \<open>OPTIONS\<close> is routed to a service that answers for it, even when the declared
  methods leave it out.
\<close>

lemma cors_preflight_routed:
  assumes "routerBuild cfg hf s = (Built m, s')" "\<forall>svc \<in> set (services cfg). routable svc"
    and "svc \<in> set (services cfg)" "hasCORSPlugin svc" "serves svc host method path"
  shows "\<exists>p h. muxMatch m host ''OPTIONS'' path = Some (p, h) \<and> (p, h) \<in> set m \<and>
    (svcHost svc \<noteq> [] \<longrightarrow> patHost p = host) \<and> patMatches p host ''OPTIONS'' (pathSegs path)"
proof -
  have build: "buildServices hf (services cfg) [] s = (Built m, s')" using assms(1) by (simp add: routerBuild_def)
  note built = buildServices_new [OF build assms(3)]
  have "serves svc host ''OPTIONS'' path" using assms(4,5) by (simp add: serves_def servesMethod_def)
  then obtain x p where x: "x \<in> set (servicePatterns svc)" "parsePattern x = Some p" "patHost p = svcHost svc"
    "patMatches p host ''OPTIONS'' (pathSegs path)"
    using serves_iff_pattern [of svc host "''OPTIONS''" "path"] assms(2,3) built by fastforce
  obtain h where "(p, h) \<in> set m" using built [OF x(1)] x(2) by auto
  then show ?thesis
    using muxMatch_spec [of m host "''OPTIONS''" "path"] x(3,4) by (fastforce split: option.splits)
qed

section \<open>Witnesses\<close>







end
