(* ===== verification/Client_IP.thy ===== *)
theory Client_IP
  imports Net_Addr Response_Writer
begin

text \<open>
  Package \<^verbatim>\<open>clientip\<close>: the address of the client behind the gateway's direct peer. A
  \<^verbatim>\<open>*Resolver\<close> is the list of its trusted prefixes, and \<open>None\<close> the nil pointer.
\<close>

section \<open>Resolver\<close>

type_synonym resolver = "ipprefix list"

definition parseEntry :: "string \<Rightarrow> string + ipprefix" where
  "parseEntry entry =
     (case parsePrefix entry of
        Some p \<Rightarrow> Inr p
      | None \<Rightarrow> (case parseAddr entry of None \<Rightarrow> Inl entry | Some a \<Rightarrow> Inr (fullPrefix a)))"

definition parseTrusted :: "string \<Rightarrow> string + resolver" where
  "parseTrusted list = mapE parseEntry (filter (\<lambda>e. e \<noteq> []) (map trimSpace (splitOn CHR '','' list)))"

definition isTrusted :: "resolver \<Rightarrow> addr \<Rightarrow> bool" where
  "isTrusted trusted a = list_ex (\<lambda>p. contains p (unmap a)) trusted"

definition peerAddr :: "request \<Rightarrow> string" where
  "peerAddr r = (case splitHostPort (remoteAddr r) of None \<Rightarrow> remoteAddr r | Some (host, _) \<Rightarrow> host)"

definition forwardedFor :: "request \<Rightarrow> string list" where
  "forwardedFor r =
     concat (map (\<lambda>v. filter (\<lambda>h. h \<noteq> []) (map trimSpace (splitOn CHR '','' v)))
       (hValues (reqHeader r) ''X-Forwarded-For''))"

text \<open>The loop of \<^verbatim>\<open>Resolve\<close> over the hops still to visit, the one closest to the gateway first.\<close>

fun walkHops :: "resolver \<Rightarrow> string \<Rightarrow> string list \<Rightarrow> string" where
  "walkHops trusted client [] = client"
| "walkHops trusted client (h # hs) =
     (case parseAddr h of
        None \<Rightarrow> client
      | Some hop \<Rightarrow>
          let client = showAddr (unmap hop)
          in if \<not> isTrusted trusted hop then client else walkHops trusted client hs)"

definition resolve :: "resolver option \<Rightarrow> request \<Rightarrow> string" where
  "resolve res r =
     (let peer = peerAddr r in
      case res of
        None \<Rightarrow> peer
      | Some trusted \<Rightarrow>
          if trusted = [] then peer
          else case parseAddr peer of
                 None \<Rightarrow> peer
               | Some a \<Rightarrow> if \<not> isTrusted trusted a then peer else walkHops trusted peer (rev (forwardedFor r)))"

section \<open>Middleware\<close>

definition clientIPMiddleware :: "resolver option \<Rightarrow> 'w handler \<Rightarrow> 'w handler" where
  "clientIPMiddleware res nxt w r s = nxt w (r\<lparr>ctxClientIP := Some (resolve res r)\<rparr>) s"

definition fromRequest :: "request \<Rightarrow> string" where
  "fromRequest r = (case ctxClientIP r of Some ip \<Rightarrow> if ip \<noteq> [] then ip else peerAddr r | None \<Rightarrow> peerAddr r)"

lemma fromRequest_cong:
  assumes "ctxClientIP r' = ctxClientIP r" "remoteAddr r' = remoteAddr r"
  shows "fromRequest r' = fromRequest r"
proof -
  have p: "peerAddr r' = peerAddr r" unfolding peerAddr_def assms(2) by (rule refl)
  show ?thesis unfolding fromRequest_def assms(1) p by (rule refl)
qed

interpretation client_ip_mw: middleware "clientIPMiddleware res" for res
proof
  fix h :: "'a handler"
  assume h: "handler_ok h"
  show "handler_ok (clientIPMiddleware res h)"
    by (rule handler_okI) (auto simp: clientIPMiddleware_def handler_ok_shape [OF h] dest: handler_ok_settled [OF h])
qed

section \<open>The walk over the hops\<close>

definition trustedHop :: "resolver \<Rightarrow> string \<Rightarrow> bool" where
  "trustedHop trusted h = (case parseAddr h of None \<Rightarrow> False | Some a \<Rightarrow> isTrusted trusted a)"

lemma walkHops_stops:
  assumes "list_all (trustedHop trusted) proxies" "parseAddr hop = Some a" "\<not> isTrusted trusted a"
  shows "walkHops trusted client (proxies @ hop # claimed) = showAddr (unmap a)"
  using assms by (induction proxies arbitrary: client) (auto simp: trustedHop_def split: option.splits)

lemma walkHops_malformed:
  assumes "list_all (trustedHop trusted) proxies" "parseAddr hop = None" "proxies \<noteq> []"
  shows "\<exists>a. parseAddr (last proxies) = Some a \<and> walkHops trusted client (proxies @ hop # claimed) = showAddr (unmap a)"
  using assms
proof (induction proxies arbitrary: client)
  case (Cons p ps)
  then show ?case by (cases "ps = []") (auto simp: trustedHop_def Let_def split: option.splits)
qed simp

lemma resolve_walk:
  assumes "trustedHop trusted (peerAddr r)"
  shows "resolve (Some trusted) r = walkHops trusted (peerAddr r) (rev (forwardedFor r))"
  using assms by (auto simp: resolve_def trustedHop_def isTrusted_def Let_def split: option.splits)

lemma walkHops_trusted:
  assumes "list_all (trustedHop trusted) proxies" "proxies \<noteq> []"
  shows "\<exists>a. parseAddr (last proxies) = Some a \<and> walkHops trusted client proxies = showAddr (unmap a)"
  using assms
proof (induction proxies arbitrary: client)
  case (Cons p ps)
  then show ?case by (cases "ps = []") (auto simp: trustedHop_def Let_def split: option.splits)
qed simp

lemma showAddr_V4_parses: "parseAddr (showAddr (V4 w)) = Some (V4 w)"
proof -
  let ?a = "itoa (uint w div 16777216 mod 256)"
  have "list_all ascii_digit ?a" by (rule octet_itoa(2)) simp_all
  moreover obtain s where "showV4 w = ?a @ CHR ''.'' # s" by (simp add: showV4_def)
  ultimately show ?thesis
    using parseIPv4_showV4 [of w] by (simp add: showAddr_def parseAddr_digits_dot)
qed

section \<open>Properties\<close>

text \<open>
  C3: No client can choose the address it is accounted under. When the direct peer is not a trusted
  proxy, it is the client whatever headers the request carries. When it is one, the hops are
  believed from the gateway outwards as long as they are trusted: the first untrusted address is the
  client whatever is claimed to the left of it; a malformed entry makes it the hop to its right, or
  the peer when there is none; and when all hops are trusted it is the leftmost.
\<close>

theorem client_address_not_spoofable:
  "if \<not> trustedHop trusted (peerAddr r) then resolve (Some trusted) (r\<lparr>reqHeader := h\<rparr>) = peerAddr r
   else \<exists>claimed proxies. forwardedFor r = claimed @ proxies \<and> list_all (trustedHop trusted) proxies \<and>
     (let lastGood = (case proxies of [] \<Rightarrow> peerAddr r | hop # _ \<Rightarrow> showAddr (unmap (the (parseAddr hop)))) in
      if claimed = [] then resolve (Some trusted) r = lastGood
      else case parseAddr (last claimed) of
             None \<Rightarrow> resolve (Some trusted) r = lastGood
           | Some a \<Rightarrow> \<not> isTrusted trusted a \<and> resolve (Some trusted) r = showAddr (unmap a))"
proof (cases "trustedHop trusted (peerAddr r)")
  case False
  then show ?thesis by (auto simp: resolve_def peerAddr_def trustedHop_def Let_def split: option.splits)
next
  case True
  define hops where "hops = rev (forwardedFor r)"
  define ok where "ok = takeWhile (trustedHop trusted) hops"
  define rest where "rest = dropWhile (trustedHop trusted) hops"
  have split: "forwardedFor r = rev rest @ rev ok" "hops = ok @ rest"
    unfolding ok_def rest_def using hops_def by (simp_all flip: rev_append)
  have ok: "list_all (trustedHop trusted) ok" unfolding ok_def list_all_iff using set_takeWhileD by metis
  have walk: "resolve (Some trusted) r = walkHops trusted (peerAddr r) (ok @ rest)"
    using resolve_walk [OF True] split hops_def by simp
  let ?good = "case rev ok of [] \<Rightarrow> peerAddr r | hop # _ \<Rightarrow> showAddr (unmap (the (parseAddr hop)))"
  have good: "?good = (if ok = [] then peerAddr r else showAddr (unmap (the (parseAddr (last ok)))))"
    by (cases ok rule: rev_cases) simp_all
  have "let lastGood = ?good in
      if rev rest = [] then resolve (Some trusted) r = lastGood
      else case parseAddr (last (rev rest)) of
             None \<Rightarrow> resolve (Some trusted) r = lastGood
           | Some a \<Rightarrow> \<not> isTrusted trusted a \<and> resolve (Some trusted) r = showAddr (unmap a)"
  proof (cases rest)
    case Nil
    then show ?thesis using walk good walkHops_trusted [OF ok, of "peerAddr r"] by (cases "ok = []") auto
  next
    case (Cons hop hs)
    then have "\<not> trustedHop trusted hop" unfolding rest_def by (simp add: dropWhile_eq_Cons_conv)
    then show ?thesis
      using Cons walk good walkHops_malformed [OF ok, where hop = hop and client = "peerAddr r" and claimed = hs] walkHops_stops [OF ok, of hop]
      by (cases "ok = []") (auto simp: trustedHop_def split: option.splits)
  qed
  then show ?thesis using True split(1) ok by (intro if_not_P [THEN iffD2] exI [of _ "rev rest"] exI [of _ "rev ok"]) (simp_all add: list_all_iff)
qed

text \<open>
  C31: The key a client is accounted under stands for its address and for nothing else: a client
  behind trusted proxies whose address is an IPv4 address, however its hop spelled it, gets a key
  that parses back to exactly that address, so that two IPv4 clients never share a key.
\<close>

theorem client_key_roundtrip:
  assumes "trustedHop trusted (peerAddr r)" "forwardedFor r = claimed @ hop # proxies" "list_all (trustedHop trusted) proxies"
    and "parseAddr hop = Some a" "\<not> isTrusted trusted a" "unmap a = V4 w"
  shows "parseAddr (resolve (Some trusted) r) = Some (V4 w)"
  using assms walkHops_stops [of trusted "rev proxies" hop a "peerAddr r" "rev claimed"] showAddr_V4_parses [of w]
  by (simp add: resolve_walk list_all_iff)

section \<open>Witnesses\<close>

definition demo_forwarded :: request where
  "demo_forwarded = demo_request\<lparr>remoteAddr := ''10.0.0.9:5000'',
     reqHeader := [''X-Forwarded-For'' \<mapsto> [''1.1.1.1, 203.0.113.7'', ''10.1.2.3'']]\<rparr>"

lemma canonical_xff [simp]: "canonicalKey ''X-Forwarded-For'' = ''X-Forwarded-For''"
  by code_simp

lemma demo_hops:
  "peerAddr demo_forwarded = ''10.0.0.9''"
  "forwardedFor demo_forwarded = [''1.1.1.1''] @ ''203.0.113.7'' # [''10.1.2.3'']"
proof -
  show "peerAddr demo_forwarded = ''10.0.0.9''" unfolding peerAddr_def demo_forwarded_def by code_simp
  have "forwardedFor demo_forwarded = concat (map (\<lambda>v. filter (\<lambda>h. h \<noteq> []) (map trimSpace (splitOn CHR '','' v)))
      [''1.1.1.1, 203.0.113.7'', ''10.1.2.3''])"
    by (simp add: forwardedFor_def demo_forwarded_def hValues_def)
  also have "\<dots> = [''1.1.1.1''] @ ''203.0.113.7'' # [''10.1.2.3'']" by code_simp
  finally show "forwardedFor demo_forwarded = [''1.1.1.1''] @ ''203.0.113.7'' # [''10.1.2.3'']" .
qed

lemma demo_trusted:
  "trustedHop [P4 0x0a000000 8] ''10.0.0.9''" "list_all (trustedHop [P4 0x0a000000 8]) [''10.1.2.3'']"
  "parseAddr ''203.0.113.7'' = Some (V4 0xcb007107)" "\<not> isTrusted [P4 0x0a000000 8] (V4 0xcb007107)"
  "unmap (V4 0xcb007107) = V4 0xcb007107"
  by code_simp+

theorem client_key_roundtrip_witness:
  "parseAddr (resolve (Some [P4 0x0a000000 8]) demo_forwarded) = Some (V4 0xcb007107)"
  using client_key_roundtrip [OF _ demo_hops(2) demo_trusted(2-5)] demo_trusted(1) demo_hops(1) by simp

end
