(* ===== verification/Retry.thy ===== *)
theory Retry
  imports Http
begin

text \<open>
  The retrying transport of \<^verbatim>\<open>gateway/internal/proxy/retry.go\<close>, the contract every
  round tripper of the gateway keeps (\<open>round_tripper\<close>), and the functional specification of a
  retried request: which attempts are made, with which body, how long the transport sleeps between
  them, and which answer it returns.
\<close>

section \<open>The transport\<close>

record 'w retryTransport =
  rtNext :: "'w roundTripper"
  maxAttempts :: int
  retryUnsafe :: bool
  backoffBase :: duration
  rtSleep :: "duration \<Rightarrow> 'w \<Rightarrow> 'w"

definition newRetryTransport ::
    "'a env_scheme roundTripper \<Rightarrow> int \<Rightarrow> duration \<Rightarrow> bool \<Rightarrow> 'a env_scheme retryTransport" where
  "newRetryTransport nxt maxAtt base retryUnsafeMethods =
     \<lparr>rtNext = nxt, maxAttempts = maxAtt, retryUnsafe = retryUnsafeMethods,
      backoffBase = base, rtSleep = timeSleep\<rparr>"

definition methodIsRetryable :: "'w retryTransport \<Rightarrow> string \<Rightarrow> bool" where
  "methodIsRetryable t method =
     (if method = ''GET'' \<or> method = ''HEAD'' \<or> method = ''OPTIONS'' then True else retryUnsafe t)"

text \<open>\<^verbatim>\<open>rand.Int63n\<close> panics when its argument is not positive.\<close>

definition backoff ::
    "'a env_scheme retryTransport \<Rightarrow> int \<Rightarrow> 'a env_scheme \<Rightarrow> duration option \<times> 'a env_scheme" where
  "backoff t attempt w =
     (let d = shl64 (backoffBase t) (nat (attempt - 1));
          n = i64 (backoffBase t + 1)
      in if n \<le> 0 then (None, w)
         else let (r, w') = randInt63n n w in (Some (i64 (d + r)), w'))"

definition isRetryableError :: "rt_error \<Rightarrow> bool" where
  "isRetryableError err = (case err of NetError _ \<Rightarrow> True | _ \<Rightarrow> False)"

text \<open>
  \<^verbatim>\<open>req.Body = io.NopCloser(bytes.NewReader(bodyBytes))\<close>, when the request had a body.
\<close>

definition replayBody :: "string option \<Rightarrow> request \<Rightarrow> request" where
  "replayBody bodyBytes req =
     (case bodyBytes of None \<Rightarrow> req | Some b \<Rightarrow> req\<lparr>reqBody := Some (Bytes b)\<rparr>)"

text \<open>
  The loop of \<^verbatim>\<open>RoundTrip\<close>. It is entered with \<open>attempt = 1 \<le> maxAttempts\<close> and left at
  the latest when \<open>attempt\<close> reaches \<open>maxAttempts\<close>.
\<close>

function retryLoop ::
    "'a env_scheme retryTransport \<Rightarrow> request \<Rightarrow> string option \<Rightarrow> int \<Rightarrow> 'a env_scheme
      \<Rightarrow> (rt_error + response) option \<times> 'a env_scheme" where
  "retryLoop t req bodyBytes attempt w =
     (case rtNext t (replayBody bodyBytes req) w of
        (None, w1) \<Rightarrow> (None, w1)
      | (Some (Inr resp), w1) \<Rightarrow> (Some (Inr resp), w1)
      | (Some (Inl err), w1) \<Rightarrow>
          (if maxAttempts t \<le> attempt \<or> \<not> isRetryableError err then (Some (Inl err), w1)
           else case backoff t attempt w1 of
                  (None, w2) \<Rightarrow> (None, w2)
                | (Some d, w2) \<Rightarrow> retryLoop t req bodyBytes (attempt + 1) (rtSleep t d w2)))"
  by pat_completeness auto
termination
  by (relation "measure (\<lambda>(t, req, b, attempt, w). nat (maxAttempts t - attempt))") auto

declare retryLoop.simps [simp del]

definition retryRoundTrip :: "'a env_scheme retryTransport \<Rightarrow> 'a env_scheme roundTripper" where
  "retryRoundTrip t req w =
     (if maxAttempts t \<le> 1 \<or> \<not> methodIsRetryable t (reqMethod req) then rtNext t req w
      else case reqBody req of
             None \<Rightarrow> retryLoop t req None 1 w
           | Some b \<Rightarrow>
               (case readAll b of
                  (_, Some e) \<Rightarrow> (Some (Inl (BodyError e)), w)
                | (bytes, None) \<Rightarrow> retryLoop t req (Some bytes) 1 w))"

section \<open>The contract of a round tripper\<close>

text \<open>
  A round tripper may talk to the network and let time pass; it changes nothing else of the world,
  never takes a request out of the record of what was sent, and never turns the clock back. The
  reverse proxy relies on these laws only.
\<close>

locale round_tripper =
  fixes rt :: "'a env_scheme roundTripper"
  assumes rt_frame: "env.more (snd (rt r w)) = env.more w"
    and rt_oracle: "netOracle (snd (rt r w)) = netOracle w"
    and rt_log: "prefix (netCalls w) (netCalls (snd (rt r w)))"
    and rt_clock: "clock w \<le> clock (snd (rt r w))"
begin

lemma rt_sent: "\<exists>sent. netCalls (snd (rt r w)) = netCalls w @ sent"
  using rt_log [of w r] by (auto simp: prefix_def)

end

interpretation net: round_tripper netRoundTrip
  by unfold_locales (simp_all add: netRoundTrip_clock)

lemma backoff_keeps [simp]:
  "env.more (snd (backoff t a w)) = env.more w"
  "netCalls (snd (backoff t a w)) = netCalls w"
  "netOracle (snd (backoff t a w)) = netOracle w"
  "clock (snd (backoff t a w)) = clock w"
  "sleeps (snd (backoff t a w)) = sleeps w"
  by (auto simp: backoff_def Let_def randInt63n_def)

text \<open>Three ways an attempt can end: the loop is left, a panic, or another attempt.\<close>

lemma retryLoop_cases:
  obtains
    (left) res w1 where "rtNext t (replayBody b req) w = (res, w1)" "retryLoop t req b a w = (res, w1)"
      "res = None \<or> (\<exists>r. res = Some (Inr r)) \<or> maxAttempts t \<le> a \<or>
       (\<exists>e. res = Some (Inl e) \<and> \<not> isRetryableError e)"
  | (panic) err w1 w2 where "rtNext t (replayBody b req) w = (Some (Inl err), w1)"
      "backoff t a w1 = (None, w2)" "retryLoop t req b a w = (None, w2)"
      "a < maxAttempts t" "isRetryableError err"
  | (again) err w1 d w2 where "rtNext t (replayBody b req) w = (Some (Inl err), w1)"
      "backoff t a w1 = (Some d, w2)" "a < maxAttempts t" "isRetryableError err"
      "retryLoop t req b a w = retryLoop t req b (a + 1) (rtSleep t d w2)"
proof -
  obtain res w1 where step: "rtNext t (replayBody b req) w = (res, w1)"
    by (cases "rtNext t (replayBody b req) w")
  consider "res = None" | r where "res = Some (Inr r)" | e where "res = Some (Inl e)"
    by (metis option.exhaust sum.exhaust)
  then show thesis
  proof cases
    case 3
    show thesis
    proof (cases "maxAttempts t \<le> a \<or> \<not> isRetryableError e")
      case True
      then show thesis using 3 step left by (auto simp: retryLoop.simps [of t req b a w])
    next
      case False
      obtain o' w2 where "backoff t a w1 = (o', w2)" by (cases "backoff t a w1")
      then show thesis
        using False 3 step panic again
        by (cases o') (auto simp: retryLoop.simps [of t req b a w])
    qed
  qed (use step left in \<open>auto simp: retryLoop.simps [of t req b a w]\<close>)
qed

context round_tripper
begin

text \<open>Wrapping a round tripper in retries keeps the contract.\<close>

lemma retryLoop_contract:
  assumes "rtNext t = rt" "rtSleep t = timeSleep"
  shows "env.more (snd (retryLoop t req b a w)) = env.more w \<and>
         netOracle (snd (retryLoop t req b a w)) = netOracle w \<and>
         prefix (netCalls w) (netCalls (snd (retryLoop t req b a w))) \<and>
         clock w \<le> clock (snd (retryLoop t req b a w))"
  using assms
proof (induction "nat (maxAttempts t - a)" arbitrary: a w rule: less_induct)
  case less
  let ?req = "replayBody b req"
  obtain res w1 where step: "rt ?req w = (res, w1)" by (cases "rt ?req w")
  have w1: "env.more w1 = env.more w" "netOracle w1 = netOracle w"
    "prefix (netCalls w) (netCalls w1)" "clock w \<le> clock w1"
    using rt_frame [of ?req w] rt_oracle [of ?req w] rt_log [of w ?req] rt_clock [of w ?req] step
    by simp_all
  show ?case
  proof (cases rule: retryLoop_cases [of t b req w a])
    case (left res w1)
    then show ?thesis using w1 step less.prems by simp
  next
    case (panic err w1' w2)
    then show ?thesis using w1 step less.prems backoff_keeps [of t a w1] by simp
  next
    case (again err w1' d w2)
    then have w2: "env.more w2 = env.more w" "netOracle w2 = netOracle w"
      "prefix (netCalls w) (netCalls w2)" "clock w \<le> clock w2"
      using w1 step less.prems backoff_keeps [of t a w1] by simp_all
    show ?thesis
      using less.hyps [of "a + 1" "timeSleep d w2"] less.prems again(3,5) w2 timeSleep_clock [of w2 d]
      by (auto intro: order.trans)
  qed
qed

lemma retry_round_tripper:
  assumes "rtNext t = rt" "rtSleep t = timeSleep"
  shows "round_tripper (retryRoundTrip t)"
proof -
  have *: "snd (retryRoundTrip t r w) = snd (rt r w) \<or> snd (retryRoundTrip t r w) = w \<or>
      (\<exists>b. snd (retryRoundTrip t r w) = snd (retryLoop t r b 1 w))" for r w
    using assms by (auto simp: retryRoundTrip_def split: option.splits prod.splits)
  show ?thesis
  proof
    fix r w
    show "env.more (snd (retryRoundTrip t r w)) = env.more w"
      using * [of r w] retryLoop_contract [OF assms] rt_frame by metis
    show "netOracle (snd (retryRoundTrip t r w)) = netOracle w"
      using * [of r w] retryLoop_contract [OF assms] rt_oracle by metis
    show "prefix (netCalls w) (netCalls (snd (retryRoundTrip t r w)))"
      using * [of r w] retryLoop_contract [OF assms] rt_log by (metis prefix_order.refl)
    show "clock w \<le> clock (snd (retryRoundTrip t r w))"
      using * [of r w] retryLoop_contract [OF assms] rt_clock by (metis order.refl)
  qed
qed

end

interpretation retrying: round_tripper "retryRoundTrip (newRetryTransport netRoundTrip m base unsafe)"
  for m base unsafe
  by (rule net.retry_round_tripper) (simp_all add: newRetryTransport_def)

section \<open>Backoff\<close>

lemma backoff_bounds:
  assumes "0 < backoffBase t" "1 \<le> a"
    and fits: "backoffBase t * 2 ^ nat (a - 1) + backoffBase t \<le> max_i64"
  shows "\<exists>d. fst (backoff t a w) = Some d \<and>
    backoffBase t * 2 ^ nat (a - 1) \<le> d \<and> d \<le> backoffBase t * 2 ^ nat (a - 1) + backoffBase t"
proof -
  let ?b = "backoffBase t" and ?p = "backoffBase t * 2 ^ nat (a - 1)"
  have le: "?b \<le> ?p" using assms(1) by simp
  have "?b + 1 \<le> max_i64" and p: "0 < ?p" using le assms(1) fits by linarith+
  then have n: "i64 (?b + 1) = ?b + 1"
    using assms(1) by (intro i64_id in_i64_nonneg) auto
  have s: "shl64 ?b (nat (a - 1)) = ?p"
    using p assms(1) fits by (intro shl64_exact in_i64_nonneg) auto
  define r where "r = fst (randInt63n (?b + 1) w)"
  have r: "0 \<le> r" "r \<le> ?b"
    using randInt63n_range [of "?b + 1" w] assms(1) by (auto simp: r_def)
  then have "i64 (?p + r) = ?p + r"
    using fits p by (intro i64_id in_i64_nonneg) auto
  then have "fst (backoff t a w) = Some (?p + r)"
    using n s assms(1) by (simp add: backoff_def Let_def r_def case_prod_unfold)
  with r show ?thesis by auto
qed

lemma backoff_no_panic:
  assumes "0 < backoffBase t" "backoffBase t < max_i64"
  shows "\<exists>d. fst (backoff t a w) = Some d"
proof -
  have "i64 (backoffBase t + 1) = backoffBase t + 1"
    using assms by (intro i64_id in_i64_nonneg) auto
  then show ?thesis
    using assms by (simp add: backoff_def Let_def split: prod.splits)
qed

section \<open>What a retried request does\<close>

text \<open>The \<open>i\<close>-th answer the network gives to a request sent from state \<open>w\<close>.\<close>

definition netAnswer :: "'a env_scheme \<Rightarrow> request \<Rightarrow> nat \<Rightarrow> rt_error + response" where
  "netAnswer w r i = fst (netOracle w (length (netCalls w) + i) r)"

text \<open>
  \<open>attempts_spec m w r k out w'\<close>: exactly \<open>k\<close> attempts (at most \<open>m\<close>) were sent, each with the
  same request; all but the last failed with a network error; the last one is what is returned, and
  it is not a network error unless the attempts are used up; between two attempts the transport
  slept once.
\<close>

definition attempts_spec ::
    "nat \<Rightarrow> 'a env_scheme \<Rightarrow> request \<Rightarrow> nat \<Rightarrow> (rt_error + response) option \<Rightarrow> 'a env_scheme \<Rightarrow> bool" where
  "attempts_spec m w r k out w' \<longleftrightarrow>
     0 < k \<and> k \<le> m \<and>
     netCalls w' = netCalls w @ replicate k r \<and>
     out = Some (netAnswer w r (k - 1)) \<and>
     (\<forall>i < k - 1. \<exists>s. netAnswer w r i = Inl (NetError s)) \<and>
     (k = m \<or> \<not> (\<exists>s. netAnswer w r (k - 1) = Inl (NetError s))) \<and>
     length (sleeps w') = length (sleeps w) + (k - 1)"

lemma isRetryableError_iff: "isRetryableError e \<longleftrightarrow> (\<exists>s. e = NetError s)"
  by (simp add: isRetryableError_def split: rt_error.splits)

lemma attempts_spec_one:
  assumes "netRoundTrip r w = (out, w')" "0 < m"
    and "m = 1 \<or> \<not> (\<exists>s. netAnswer w r 0 = Inl (NetError s))"
  shows "attempts_spec m w r 1 out w'"
proof -
  have "netCalls w' = netCalls w @ [r]" "out = Some (netAnswer w r 0)" "sleeps w' = sleeps w"
    using netRoundTrip_calls [of r w] netRoundTrip_res [of r w] netRoundTrip_sleeps [of r w] assms(1)
    by (simp_all add: netAnswer_def)
  then show ?thesis
    using assms(2,3) by (auto simp: attempts_spec_def)
qed

lemma attempts_spec_more:
  assumes "netRoundTrip r w = (Some (Inl (NetError s)), w1)" "netCalls w2 = netCalls w1"
    "netOracle w2 = netOracle w1" "length (sleeps w2) = Suc (length (sleeps w1))"
    "attempts_spec m w2 r k out w'"
  shows "attempts_spec (Suc m) w r (Suc k) out w'"
proof -
  have 1: "netCalls w1 = netCalls w @ [r]" "netOracle w1 = netOracle w" "sleeps w1 = sleeps w"
    "netAnswer w r 0 = Inl (NetError s)"
    using netRoundTrip_calls [of r w] netRoundTrip_res [of r w] netRoundTrip_sleeps [of r w]
      netRoundTrip_oracle [of r w] assms(1)
    by (simp_all add: netAnswer_def)
  have ans: "netAnswer w2 r i = netAnswer w r (Suc i)" for i
    using 1 assms(2,3) by (simp add: netAnswer_def)
  have "\<exists>s. netAnswer w r i = Inl (NetError s)" if "i < k" for i
    using that assms(5) 1(4) ans by (cases i) (auto simp: attempts_spec_def)
  moreover have "netAnswer w2 r (k - 1) = netAnswer w r k"
    using assms(5) ans [of "k - 1"] by (simp add: attempts_spec_def)
  ultimately show ?thesis
    using assms(2,4,5) 1 by (auto simp: attempts_spec_def)
qed

lemma retryLoop_spec:
  assumes "rtNext t = netRoundTrip" "rtSleep t = timeSleep"
    "0 < backoffBase t" "backoffBase t < max_i64"
    and "a \<le> maxAttempts t"
  shows "\<exists>k. attempts_spec (nat (maxAttempts t - a + 1)) w (replayBody b req) k
    (fst (retryLoop t req b a w)) (snd (retryLoop t req b a w))"
  using assms
proof (induction "nat (maxAttempts t - a)" arbitrary: a w rule: less_induct)
  case less
  let ?r = "replayBody b req"
  show ?case
  proof (cases rule: retryLoop_cases [of t b req w a])
    case (left res w1)
    have "res = Some (netAnswer w ?r 0)"
      using left(1) less.prems netRoundTrip_res [of ?r w] by (simp add: netAnswer_def)
    then have "nat (maxAttempts t - a + 1) = 1 \<or> \<not> (\<exists>s. netAnswer w ?r 0 = Inl (NetError s))"
      using left(3) less.prems(5) by (auto simp: isRetryableError_iff)
    moreover have "netRoundTrip ?r w = (res, w1)" using left(1) less.prems(1) by simp
    ultimately have "attempts_spec (nat (maxAttempts t - a + 1)) w ?r 1 res w1"
      using less.prems(5) by (intro attempts_spec_one) auto
    then show ?thesis using left(2) by auto
  next
    case (panic err w1 w2)
    then show ?thesis using backoff_no_panic [of t a w1] less.prems by auto
  next
    case (again err w1 d w2)
    obtain s where s: "err = NetError s" using again(4) by (auto simp: isRetryableError_iff)
    obtain k where "attempts_spec (nat (maxAttempts t - (a + 1) + 1)) (timeSleep d w2) ?r k
        (fst (retryLoop t req b (a + 1) (timeSleep d w2))) (snd (retryLoop t req b (a + 1) (timeSleep d w2)))"
      using less.hyps [of "a + 1" "timeSleep d w2"] less.prems again(3) by auto
    then have "attempts_spec (Suc (nat (maxAttempts t - a))) w ?r (Suc k)
        (fst (retryLoop t req b a w)) (snd (retryLoop t req b a w))"
      using attempts_spec_more [of ?r w s w1 "timeSleep d w2"] again s less.prems
        backoff_keeps [of t a w1] by simp
    moreover have "Suc (nat (maxAttempts t - a)) = nat (maxAttempts t - a + 1)"
      using less.prems by simp
    ultimately show ?thesis by auto
  qed
qed

section \<open>Properties\<close>

text \<open>The request every attempt sends: the original one, its body read into memory.\<close>

definition sentRequest :: "request \<Rightarrow> request" where
  "sentRequest r = replayBody (map_option (fst \<circ> readAll) (reqBody r)) r"

lemma retryRoundTrip_loop:
  assumes "1 < maxAttempts t" "methodIsRetryable t (reqMethod r)"
    and "\<And>b. reqBody r = Some b \<Longrightarrow> snd (readAll b) = None"
  shows "retryRoundTrip t r w = retryLoop t r (map_option (fst \<circ> readAll) (reqBody r)) 1 w"
  using assms by (auto simp: retryRoundTrip_def split: option.splits prod.splits)

definition bodyBytes :: "request \<Rightarrow> string option" where
  "bodyBytes r = map_option (fst \<circ> readAll) (reqBody r)"

lemma sentRequest_keeps:
  "reqMethod (sentRequest r) = reqMethod r" "reqHost (sentRequest r) = reqHost r" "urlScheme (sentRequest r) = urlScheme r"
  "urlHost (sentRequest r) = urlHost r" "urlPath (sentRequest r) = urlPath r" "urlRawQuery (sentRequest r) = urlRawQuery r"
  "reqHeader (sentRequest r) = reqHeader r" "bodyBytes (sentRequest r) = bodyBytes r"
  by (simp_all add: sentRequest_def replayBody_def bodyBytes_def split: option.splits)

lemma retryLoop_sends:
  assumes "rtNext t = netRoundTrip" "rtSleep t = timeSleep"
  shows "\<exists>k. netCalls (snd (retryLoop t req b a w)) = netCalls w @ replicate k (replayBody b req) \<and> k \<le> Suc (nat (maxAttempts t - a))"
proof (induction "nat (maxAttempts t - a)" arbitrary: a w rule: less_induct)
  case less
  let ?r = "replayBody b req"
  have one: "netCalls w1 = netCalls w @ [?r]" if "rtNext t ?r w = (res, w1)" for res w1
    using that assms(1) netRoundTrip_calls [of ?r w] by simp
  show ?case
  proof (cases rule: retryLoop_cases [of t b req w a])
    case (left res w1)
    then show ?thesis using one by (auto intro!: exI [of _ 1])
  next
    case (panic err w1 w2)
    then show ?thesis using one backoff_keeps(2) [of t a w1] by (auto intro!: exI [of _ 1])
  next
    case (again err w1 d w2)
    obtain k where "netCalls (snd (retryLoop t req b a w)) = netCalls w2 @ replicate k ?r" "k \<le> Suc (nat (maxAttempts t - (a + 1)))"
      using less.hyps [of "a + 1" "timeSleep d w2"] again assms(2) by auto
    then show ?thesis using one [OF again(1)] again(2,3) backoff_keeps(2) [of t a w1] by (auto intro!: exI [of _ "Suc k"])
  qed
qed

lemma retry_sends:
  assumes "rtNext t = netRoundTrip" "rtSleep t = timeSleep"
  shows "\<exists>k q. netCalls (snd (retryRoundTrip t r w)) = netCalls w @ replicate k q \<and> (q = r \<or> q = sentRequest r) \<and>
    k \<le> max 1 (nat (maxAttempts t))"
proof -
  have "retryRoundTrip t r w = netRoundTrip r w \<or> (\<exists>e. retryRoundTrip t r w = (Some (Inl e), w)) \<or>
      retryRoundTrip t r w = retryLoop t r (map_option (fst \<circ> readAll) (reqBody r)) 1 w"
    using assms(1) by (auto simp: retryRoundTrip_def split: option.splits prod.splits)
  then consider "retryRoundTrip t r w = netRoundTrip r w" | e where "retryRoundTrip t r w = (Some (Inl e), w)"
    | "retryRoundTrip t r w = retryLoop t r (map_option (fst \<circ> readAll) (reqBody r)) 1 w"
    by blast
  then show ?thesis
  proof cases
    case 1
    then show ?thesis by (intro exI [of _ 1] exI [of _ r]) simp
  next
    case 2
    then show ?thesis by (intro exI [of _ 0]) auto
  next
    case 3
    obtain k where "netCalls (snd (retryRoundTrip t r w)) = netCalls w @ replicate k (sentRequest r)" "k \<le> Suc (nat (maxAttempts t - 1))"
      using retryLoop_sends [OF assms, of r _ 1 w] 3 by (metis sentRequest_def)
    moreover from this have "k \<le> max 1 (nat (maxAttempts t))" by linarith
    ultimately show ?thesis by blast
  qed
qed

text \<open>
  When the body of a retryable request cannot be read (it exceeds the size limit, or the client
  breaks off), the round trip fails with that error and nothing is sent to the origin.
\<close>

lemma unreadable_body_never_sent:
  assumes "1 < maxAttempts t" "methodIsRetryable t (reqMethod r)"
    and "reqBody r = Some b" "snd (readAll b) = Some e"
  shows "retryRoundTrip t r w = (Some (Inl (BodyError e)), w)"
  using assms by (auto simp: retryRoundTrip_def split: prod.splits)

text \<open>
  C10: A request of a retryable method, whose body is absent or can be read, is attempted at least once
  and at most \<open>maxAttempts\<close> times. Every attempt sends the same request with the same body; only network
  errors lead to another attempt; the caller gets the answer of the last attempt, and it gets a network
  error only when all attempts were used. The transport sleeps exactly once between two attempts. When
  the body cannot be read, as when it exceeds the limit or breaks off, nothing is sent and the caller
  gets the error. More than one attempt is configured, with a positive backoff below \<open>2^63 - 1\<close>
  nanoseconds (with none, the jitter would panic).
\<close>

theorem retry_attempts:
  fixes w :: "'a env_scheme"
  assumes "1 < m" "0 < base" "base < max_i64"
    and "methodIsRetryable (newRetryTransport (netRoundTrip :: 'a env_scheme roundTripper) m base unsafe) (reqMethod r)"
  defines "res \<equiv> retryRoundTrip (newRetryTransport netRoundTrip m base unsafe) r w"
  shows "case Option.bind (reqBody r) (\<lambda>b. snd (readAll b)) of
      Some e \<Rightarrow> res = (Some (Inl (BodyError e)), w)
    | None \<Rightarrow> \<exists>k. attempts_spec (nat m) w (sentRequest r) k (fst res) (snd res)"
proof (cases "Option.bind (reqBody r) (\<lambda>b. snd (readAll b))")
  case (Some e)
  then obtain b where "reqBody r = Some b" "snd (readAll b) = Some e" by (auto simp: bind_eq_Some_conv)
  then show ?thesis using Some unreadable_body_never_sent [of "newRetryTransport netRoundTrip m base unsafe" r b e w] assms(1,4)
    by (simp add: res_def newRetryTransport_def)
next
  case None
  let ?t = "newRetryTransport netRoundTrip m base unsafe :: 'a env_scheme retryTransport"
  have t: "rtNext ?t = netRoundTrip" "rtSleep ?t = timeSleep" "backoffBase ?t = base" "maxAttempts ?t = m"
    by (simp_all add: newRetryTransport_def)
  have b: "snd (readAll b) = None" if "reqBody r = Some b" for b using None that by (simp add: bind_eq_None_conv)
  show ?thesis
    using retryLoop_spec [of ?t 1 w "map_option (fst \<circ> readAll) (reqBody r)" r] t assms(1-4) b None
      retryRoundTrip_loop [of ?t r w]
    by (simp add: sentRequest_def res_def)
qed

text \<open>
  The delay before attempt \<open>a + 1\<close> is at least \<open>base * 2^(a-1)\<close> and exceeds it by at most one
  \<open>base\<close> of jitter, as long as that sum is a representable duration.
\<close>

lemma backoff_exponential:
  assumes "0 < base" "1 \<le> a" "base * 2 ^ nat (a - 1) + base \<le> max_i64"
  shows "\<exists>d. fst (backoff (newRetryTransport nxt m base unsafe) a w) = Some d \<and>
    base * 2 ^ nat (a - 1) \<le> d \<and> d \<le> base * 2 ^ nat (a - 1) + base"
  using backoff_bounds [of "newRetryTransport nxt m base unsafe" a w] assms
  by (simp add: newRetryTransport_def)

section \<open>Witnesses\<close>

theorem retry_attempts_witness:
  "\<exists>k. attempts_spec 3 demo_env (sentRequest demo_request) k
    (fst (retryRoundTrip (newRetryTransport netRoundTrip 3 100 False) demo_request demo_env))
    (snd (retryRoundTrip (newRetryTransport netRoundTrip 3 100 False) demo_request demo_env))"
proof -
  have "Option.bind (reqBody demo_request) (\<lambda>b. snd (readAll b)) = None" by (simp add: demo_request_def)
  then show ?thesis using retry_attempts [of 3 100 False demo_request demo_env]
    by (simp add: demo_request_def methodIsRetryable_def newRetryTransport_def)
qed

end
