(* ===== verification/Plugins.thy ===== *)
theory Plugins
  imports Config Response_Writer
begin

text \<open>
  The plugin contract and the plugins without state of their own
  (\<^verbatim>\<open>gateway/internal/plugin\<close>): \<open>add_header\<close>, \<open>response_headers\<close>,
  \<open>request_size_limiting\<close>, \<open>jwt_auth\<close> and \<open>cors\<close>, each with its constructor from a
  configuration map and its \<^verbatim>\<open>Wrap\<close> method. The JWT library and the process environment are
  parameters.
\<close>

section \<open>Composition\<close>

text \<open>\<^verbatim>\<open>Chain\<close>: the loop runs from the last plugin to the first.\<close>

definition chain :: "('w handler \<Rightarrow> 'w handler) list \<Rightarrow> 'w handler \<Rightarrow> 'w handler" where
  "chain plugins final = foldr (\<lambda>p h. p h) plugins final"

section \<open>Reading configuration maps\<close>

datatype plugin_error =
    UnknownPlugin string
  | NotAMap string
  | NotAString string string
  | NotAList string
  | EntryNotString string
  | Required string
  | NotANumber string
  | NotPositive string
  | BurstBelowOne
  | BadMode string
  | EnvNotSet string
  | CredentialsWithWildcard
  | SharedStoreError string

definition toInt64 :: "string \<Rightarrow> yaml \<Rightarrow> plugin_error + int" where
  "toInt64 field v = (case v of YInt n \<Rightarrow> Inr n | YInt64 n \<Rightarrow> Inr n | YFloat x \<Rightarrow> Inr (f64ToInt x)
                      | _ \<Rightarrow> Inl (NotANumber field))"

definition toFloat64 :: "string \<Rightarrow> yaml \<Rightarrow> plugin_error + f64" where
  "toFloat64 field v = (case v of YInt n \<Rightarrow> Inr (intToF64 n) | YInt64 n \<Rightarrow> Inr (intToF64 n) | YFloat x \<Rightarrow> Inr x
                        | _ \<Rightarrow> Inl (NotANumber field))"

definition entryString :: "plugin_error \<Rightarrow> yaml \<Rightarrow> plugin_error + string" where
  "entryString err v = (case v of YString s \<Rightarrow> Inr s | _ \<Rightarrow> Inl err)"

definition toStringSlice :: "cfgmap \<Rightarrow> string \<Rightarrow> plugin_error + string list" where
  "toStringSlice cfg key =
     (case map_of cfg key of
        None \<Rightarrow> Inr []
      | Some YNull \<Rightarrow> Inr []
      | Some (YList vs) \<Rightarrow> mapE (entryString (EntryNotString key)) vs
      | Some _ \<Rightarrow> Inl (NotAList key))"

text \<open>\<^verbatim>\<open>stringMap\<close>; a missing key of a Go map reads as \<^verbatim>\<open>nil\<close>.\<close>

definition stringMap :: "yaml option \<Rightarrow> string \<Rightarrow> plugin_error + (string \<times> string) list" where
  "stringMap raw field =
     (case raw of
        None \<Rightarrow> Inr []
      | Some YNull \<Rightarrow> Inr []
      | Some (YMap m) \<Rightarrow>
          mapE (\<lambda>(k, v). bindE (entryString (NotAString field k) v) (\<lambda>s. Inr (k, s))) m
      | Some _ \<Rightarrow> Inl (NotAMap field))"

definition cfgString :: "cfgmap \<Rightarrow> string \<Rightarrow> string" where
  "cfgString cfg key = (case map_of cfg key of Some (YString s) \<Rightarrow> s | _ \<Rightarrow> [])"

section \<open>add\_header\<close>

definition newAddHeader :: "cfgmap \<Rightarrow> plugin_error + (string \<times> string) list" where
  "newAddHeader cfg =
     (case map_of cfg ''headers'' of
        None \<Rightarrow> Inr []
      | Some YNull \<Rightarrow> Inr []
      | Some (YMap m) \<Rightarrow>
          mapE (\<lambda>(k, v). bindE (entryString (NotAString ''headers'' k) v) (\<lambda>s. Inr (k, s))) m
      | Some _ \<Rightarrow> Inl (NotAMap ''headers''))"

definition addHeaderWrap :: "(string \<times> string) list \<Rightarrow> 'w handler \<Rightarrow> 'w handler" where
  "addHeaderWrap headers nxt w r s = nxt w (r\<lparr>reqHeader := setAll headers (reqHeader r)\<rparr>) s"

section \<open>response\_headers\<close>

definition newResponseHeaderRule :: "nat \<Rightarrow> yaml \<Rightarrow> plugin_error + responseHeaderRule" where
  "newResponseHeaderRule i item =
     (case item of
        YMap rule \<Rightarrow>
          (let ct = cfgString rule ''content_type''
           in if ct = [] then Inl (Required ''rules.content_type'')
              else bindE (stringMap (map_of rule ''headers'') ''rules.headers'') (\<lambda>hs.
                     if hs = [] then Inl (Required ''rules.headers'')
                     else Inr \<lparr>contentType = toLower ct, ruleHeaders = hs\<rparr>))
      | _ \<Rightarrow> Inl (NotAMap ''rules''))"

definition newResponseHeaders :: "cfgmap \<Rightarrow> plugin_error + responseHeaders" where
  "newResponseHeaders cfg =
     bindE (stringMap (map_of cfg ''headers'') ''headers'') (\<lambda>headers.
       case map_of cfg ''rules'' of
         None \<Rightarrow> Inr \<lparr>rhHeaders = headers, rhRules = []\<rparr>
       | Some YNull \<Rightarrow> Inr \<lparr>rhHeaders = headers, rhRules = []\<rparr>
       | Some (YList items) \<Rightarrow>
           bindE (mapE (\<lambda>(i, item). newResponseHeaderRule i item) (enumerate 0 items))
             (\<lambda>rules. Inr \<lparr>rhHeaders = headers, rhRules = rules\<rparr>)
       | Some _ \<Rightarrow> Inl (NotAList ''rules''))"

definition responseHeadersWrap :: "responseHeaders \<Rightarrow> 'w handler \<Rightarrow> 'w handler" where
  "responseHeadersWrap p nxt w r s = map_writer unwrap (nxt (ResponseHeadersWriter p False w) r s)"

section \<open>request\_size\_limiting\<close>

definition newRequestSizeLimiting :: "cfgmap \<Rightarrow> plugin_error + int" where
  "newRequestSizeLimiting cfg =
     (case map_of cfg ''max_bytes'' of
        None \<Rightarrow> Inl (Required ''max_bytes'')
      | Some raw \<Rightarrow> bindE (toInt64 ''max_bytes'' raw) (\<lambda>maxBytes.
          if maxBytes \<le> 0 then Inl (NotPositive ''max_bytes'') else Inr maxBytes))"

definition requestSizeLimitingWrap :: "int \<Rightarrow> 'w handler \<Rightarrow> 'w handler" where
  "requestSizeLimitingWrap maxBytes nxt w r s =
     (if contentLength r > maxBytes then Done (writeHeader 413 w) s
      else nxt w (r\<lparr>reqBody := map_option (Limited maxBytes) (reqBody r)\<rparr>) s)"

section \<open>jwt\_auth\<close>

definition newJWTAuth :: "(string \<Rightarrow> string) \<Rightarrow> cfgmap \<Rightarrow> plugin_error + string" where
  "newJWTAuth getenv cfg =
     (let envName = cfgString cfg ''secret_env''
      in if envName = [] then Inl (Required ''secret_env'')
         else let secret = getenv envName
              in if secret = [] then Inl (EnvNotSet envName) else Inr secret)"

definition extractToken :: "request \<Rightarrow> string" where
  "extractToken r =
     (let auth = hGet (reqHeader r) ''Authorization''
      in if auth \<noteq> [] then (case cutPrefix auth ''Bearer '' of Some rest \<Rightarrow> rest | None \<Rightarrow> queryGet r ''token'')
         else queryGet r ''token'')"

lemma extractToken_cong:
  assumes "hGet (reqHeader r') ''Authorization'' = hGet (reqHeader r) ''Authorization''" "urlQuery r' = urlQuery r"
  shows "extractToken r' = extractToken r"
proof -
  have q: "queryGet r' ''token'' = queryGet r ''token''" using assms(2) by (simp add: queryGet_def)
  show ?thesis unfolding extractToken_def assms(1) q by (rule refl)
qed

text \<open>
  \<^verbatim>\<open>jwt.Parse\<close>: a token and a key function, which maps the token's signing method to an
  error or a key, to an error or the token's \<^verbatim>\<open>Valid\<close> flag.
\<close>

datatype signing_method = SigningMethodHMAC string | OtherMethod string

type_synonym jwt_parser = "string \<Rightarrow> (signing_method \<Rightarrow> string + string) \<Rightarrow> string + bool"

definition hmacKey :: "string \<Rightarrow> signing_method \<Rightarrow> string + string" where
  "hmacKey secret m = (case m of SigningMethodHMAC _ \<Rightarrow> Inr secret
                       | OtherMethod alg \<Rightarrow> Inl (''unexpected signing method: '' @ alg))"

definition jwtAuthWrap :: "jwt_parser \<Rightarrow> string \<Rightarrow> 'w handler \<Rightarrow> 'w handler" where
  "jwtAuthWrap jwtParse secret nxt w r s =
     (let tokenString = extractToken r
      in if tokenString = [] then Done (httpError ''missing jwt'' 401 w) s
         else case jwtParse tokenString (hmacKey secret) of
                Inl err \<Rightarrow> Done (httpError ''invalid jwt'' 401 w) s
              | Inr valid \<Rightarrow> if \<not> valid then Done (httpError ''invalid jwt'' 401 w) s else nxt w r s)"

section \<open>cors\<close>

record cors =
  allowedOrigins :: "string list"
  allowedMethods :: "string list"
  allowedHeaders :: "string list"
  allowCredentials :: bool
  corsMaxAge :: string

definition newCORS :: "cfgmap \<Rightarrow> plugin_error + cors" where
  "newCORS cfg =
     bindE (toStringSlice cfg ''allowed_origins'') (\<lambda>origins.
     if origins = [] then Inl (Required ''allowed_origins'') else
     bindE (toStringSlice cfg ''allowed_methods'') (\<lambda>methods.
     bindE (toStringSlice cfg ''allowed_headers'') (\<lambda>headers.
     let credentials = (case map_of cfg ''allow_credentials'' of Some (YBool b) \<Rightarrow> b | _ \<Rightarrow> False)
     in if credentials \<and> ''*'' \<in> set origins then Inl CredentialsWithWildcard else
     bindE (case map_of cfg ''max_age'' of None \<Rightarrow> Inr []
            | Some raw \<Rightarrow> bindE (toInt64 ''max_age'' raw) (\<lambda>seconds. Inr (itoa seconds))) (\<lambda>maxAge.
     Inr \<lparr>allowedOrigins = origins, allowedMethods = methods, allowedHeaders = headers,
          allowCredentials = credentials, corsMaxAge = maxAge\<rparr>))))"

definition originAllowed :: "cors \<Rightarrow> string \<Rightarrow> bool" where
  "originAllowed p origin = list_ex (\<lambda>o'. o' = ''*'' \<or> o' = origin) (allowedOrigins p)"

definition allowAllOrigins :: "cors \<Rightarrow> bool" where
  "allowAllOrigins p = list_ex (\<lambda>o'. o' = ''*'') (allowedOrigins p)"

text \<open>The header changes for an allowed origin, in the order the code makes them.\<close>

definition corsHeaders :: "cors \<Rightarrow> string \<Rightarrow> bool \<Rightarrow> header \<Rightarrow> header" where
  "corsHeaders p origin preflight h =
     (let h = hAdd ''Vary'' ''Origin'' h;
          h = hSet ''Access-Control-Allow-Origin'' (if allowAllOrigins p then ''*'' else origin) h;
          h = (if allowCredentials p then hSet ''Access-Control-Allow-Credentials'' ''true'' h else h)
      in if \<not> preflight then h
         else let h = (if allowedMethods p \<noteq> []
                       then hSet ''Access-Control-Allow-Methods'' (joinWith '', '' (allowedMethods p)) h else h);
                  h = (if allowedHeaders p \<noteq> []
                       then hSet ''Access-Control-Allow-Headers'' (joinWith '', '' (allowedHeaders p)) h else h)
              in if corsMaxAge p \<noteq> [] then hSet ''Access-Control-Max-Age'' (corsMaxAge p) h else h)"

definition isPreflight :: "request \<Rightarrow> bool" where
  "isPreflight r \<longleftrightarrow> reqMethod r = ''OPTIONS'' \<and> hGet (reqHeader r) ''Access-Control-Request-Method'' \<noteq> []"

definition corsWrap :: "cors \<Rightarrow> 'w handler \<Rightarrow> 'w handler" where
  "corsWrap p nxt w r s =
     (let origin = hGet (reqHeader r) ''Origin''; preflight = isPreflight r
      in if origin = [] then
           (if preflight then Done (writeHeader 204 w) s else nxt w r s)
         else
           let w = (if originAllowed p origin then mapHeader (corsHeaders p origin preflight) w else w)
           in if preflight then Done (writeHeader 204 w) s else nxt w r s)"

section \<open>Every plugin is a middleware\<close>

lemma chain_simps [simp]:
  "chain [] h = h"
  "chain (p # ps) h = p (chain ps h)"
  by (simp_all add: chain_def)

interpretation add_header_mw: middleware "addHeaderWrap hs" for hs
proof
  fix h :: "'a handler"
  assume h: "handler_ok h"
  show "handler_ok (addHeaderWrap hs h)"
    by (rule handler_okI) (auto simp: addHeaderWrap_def handler_ok_shape [OF h] dest: handler_ok_settled [OF h])
qed

interpretation size_limit_mw: middleware "requestSizeLimitingWrap n" for n
proof
  fix h :: "'a handler"
  assume h: "handler_ok h"
  show "handler_ok (requestSizeLimitingWrap n h)"
    by (rule handler_okI) (auto simp: requestSizeLimitingWrap_def handler_ok_shape [OF h] settled_writeHeader
        dest: handler_ok_settled [OF h] split: if_splits)
qed

interpretation jwt_mw: middleware "jwtAuthWrap parser secret" for parser secret
proof
  fix h :: "'a handler"
  assume h: "handler_ok h"
  show "handler_ok (jwtAuthWrap parser secret h)"
    by (rule handler_okI) (auto simp: jwtAuthWrap_def Let_def handler_ok_shape [OF h] settled_httpError
        dest: handler_ok_settled [OF h] split: if_splits sum.splits)
qed

interpretation cors_mw: middleware "corsWrap p" for p
proof
  fix h :: "'a handler"
  assume h: "handler_ok h"
  have d: "h (mapHeader f w) r s = Done w' s' \<Longrightarrow> fresh w \<Longrightarrow> settled w'" for f w r s w' s'
    using handler_ok_settled [OF h, of "mapHeader f w"] by simp
  show "handler_ok (corsWrap p h)"
    by (rule handler_okI) (auto simp: corsWrap_def Let_def handler_ok_shape [OF h] settled_writeHeader
        dest: handler_ok_settled [OF h] d split: if_splits)
qed

lemma unwrap_layer: "shape w = l # ls \<Longrightarrow> shape (unwrap w) = ls"
  by (cases w) auto


lemma settled_unwrap: "settled w \<Longrightarrow> settled (unwrap w)"
  by (cases w) (auto simp: settled_def)

interpretation response_headers_mw: middleware "responseHeadersWrap p" for p
proof
  fix h :: "'a handler"
  assume h: "handler_ok h"
  show "handler_ok (responseHeadersWrap p h)"
  proof (rule handler_okI)
    fix w r s
    show "shape (writer_of (responseHeadersWrap p h w r s)) = shape w"
      using handler_ok_shape [OF h, of "ResponseHeadersWriter p False w" r s]
      by (cases "h (ResponseHeadersWriter p False w) r s")
        (auto simp: responseHeadersWrap_def intro: unwrap_layer)
  next
    fix w r s w' s'
    assume "fresh w" and "responseHeadersWrap p h w r s = Done w' s'"
    then show "settled w'"
      using handler_ok_settled [OF h, of "ResponseHeadersWriter p False w" r s]
      by (cases "h (ResponseHeadersWriter p False w) r s")
        (auto simp: responseHeadersWrap_def intro: settled_unwrap)
  qed
qed

lemma chain_ok:
  assumes "\<And>p h. p \<in> set ps \<Longrightarrow> handler_ok h \<Longrightarrow> handler_ok (p h)" "handler_ok h"
  shows "handler_ok (chain ps h)"
  using assms by (induction ps) auto

section \<open>Header names the gateway uses\<close>

lemma canonical_cors [simp]:
  "canonicalKey ''Vary'' = ''Vary''"
  "canonicalKey ''Origin'' = ''Origin''"
  "canonicalKey ''Access-Control-Allow-Origin'' = ''Access-Control-Allow-Origin''"
  "canonicalKey ''Access-Control-Allow-Credentials'' = ''Access-Control-Allow-Credentials''"
  "canonicalKey ''Access-Control-Allow-Methods'' = ''Access-Control-Allow-Methods''"
  "canonicalKey ''Access-Control-Allow-Headers'' = ''Access-Control-Allow-Headers''"
  "canonicalKey ''Access-Control-Max-Age'' = ''Access-Control-Max-Age''"
  "canonicalKey ''Access-Control-Request-Method'' = ''Access-Control-Request-Method''"
  by code_simp+

lemma newCORS_origins: "newCORS cfg = Inr p \<Longrightarrow> allowCredentials p \<Longrightarrow> ''*'' \<notin> set (allowedOrigins p)"
  by (auto simp: newCORS_def bindE_Inr_iff Let_def split: if_splits)

lemma corsHeaders_allow_origin:
  "hGet (corsHeaders p origin pf h) ''Access-Control-Allow-Origin'' = (if allowAllOrigins p then ''*'' else origin)"
  by (simp add: corsHeaders_def Let_def hGet_hSet)

lemma corsHeaders_credentials:
  "hGet (corsHeaders p origin pf h) ''Access-Control-Allow-Credentials'' =
    (if allowCredentials p then ''true'' else hGet h ''Access-Control-Allow-Credentials'')"
  by (simp add: corsHeaders_def Let_def hGet_hSet hGet_hAdd)

section \<open>Applied response headers\<close>






lemma stack_apply_status: "set ls \<subseteq> {StatusLayer} \<Longrightarrow> stack_apply ls h = h"
  by (induction ls) auto

lemma status_layers:
  assumes "set (shape w) \<subseteq> {StatusLayer}"
  shows "stack_apply (shape w) h = h" "unapplied w"
  using assms stack_apply_status apply blast
  using assms by (induction w) auto

section \<open>Properties\<close>

text \<open>
  C25: A CORS plugin built from a configuration never grants credentials to the wildcard: the writer
  it answers on or hands to the next handler never carries both
  \<^verbatim>\<open>Access-Control-Allow-Origin: *\<close> and \<^verbatim>\<open>Access-Control-Allow-Credentials: true\<close>,
  unless the latter was set before the plugin ran.
\<close>

theorem cors_no_credentials_for_wildcard:
  assumes "newCORS cfg = Inr p"
    and "hGet (hdr (base_of w)) ''Access-Control-Allow-Credentials'' \<noteq> ''true''"
  shows "\<exists>w'. corsWrap p nxt w r s = (if isPreflight r then Done (writeHeader 204 w') s else nxt w' r s) \<and>
     \<not> (hGet (hdr (base_of w')) ''Access-Control-Allow-Origin'' = ''*'' \<and>
        hGet (hdr (base_of w')) ''Access-Control-Allow-Credentials'' = ''true'')"
proof -
  let ?o = "hGet (reqHeader r) ''Origin''"
  let ?w = "if ?o \<noteq> [] \<and> originAllowed p ?o then mapHeader (corsHeaders p ?o (isPreflight r)) w else w"
  have "corsWrap p nxt w r s = (if isPreflight r then Done (writeHeader 204 ?w) s else nxt ?w r s)"
    by (simp add: corsWrap_def Let_def)
  moreover have "''*'' \<notin> set (allowedOrigins p)" if "allowCredentials p"
    using newCORS_origins assms(1) that by blast
  then have "\<not> (hGet (hdr (base_of ?w)) ''Access-Control-Allow-Origin'' = ''*'' \<and>
        hGet (hdr (base_of ?w)) ''Access-Control-Allow-Credentials'' = ''true'')"
    using assms(2)
    by (auto simp: corsHeaders_allow_origin corsHeaders_credentials allowAllOrigins_def originAllowed_def
        list_ex_iff split: if_splits)
  ultimately show ?thesis by blast
qed

text \<open>
  A preflight request is answered by the \<open>cors\<close> plugin itself with a 204, whatever plugins and
  service come after it and whatever the client's origin, so declared first it answers preflights
  that an authentication plugin behind it would refuse; declared behind \<open>jwt_auth\<close>, a preflight
  without a token gets a 401.
\<close>

lemma preflight_answered_by_cors:
  assumes "isPreflight r" "fresh w"
  shows "\<exists>f. chain (corsWrap p # ps) h w r s = Done (writeHeader 204 (mapHeader f w)) s \<and>
      sentStatus (base_of (writeHeader 204 (mapHeader f w))) = 204 \<and>
      (extractToken r = [] \<longrightarrow>
        chain (jwtAuthWrap parser secret # corsWrap p # ps) h w r s = Done (httpError ''missing jwt'' 401 w) s)"
proof -
  let ?origin = "hGet (reqHeader r) ''Origin''"
  define f where "f = (if ?origin \<noteq> [] \<and> originAllowed p ?origin then corsHeaders p ?origin True else (\<lambda>h. h))"
  have id: "mapHeader (\<lambda>h. h) u = u" for u by (induction u) auto
  have "chain (corsWrap p # ps) h w r s = Done (writeHeader 204 (mapHeader f w)) s"
    using assms by (auto simp: corsWrap_def Let_def f_def id)
  moreover have "sentStatus (base_of (writeHeader 204 (mapHeader f w))) = 204"
    using assms writeHeader_fresh_sent(2) [of "mapHeader f w" 204] by simp
  ultimately show ?thesis by (auto simp: jwtAuthWrap_def)
qed

lemma jwtAuthWrap_cases:
  "(\<exists>msg. jwtAuthWrap jwtParse secret h w r s = Done (httpError msg 401 w) s) \<or>
   (jwtAuthWrap jwtParse secret h w r s = h w r s \<and> jwtParse (extractToken r) (hmacKey secret) = Inr True)"
  by (cases "jwtParse (extractToken r) (hmacKey secret)") (auto simp: jwtAuthWrap_def Let_def)

text \<open>
  \<open>jwt_auth\<close> lets a request through only when its token carries an HMAC signature under the
  configured secret; any other request is answered with a 401 and neither the next handler nor the
  state is touched. What is assumed of the JWT library is its documented contract: a token it
  declares valid is signed with the key the key function returned for the token's method.
\<close>

lemma jwt_only_hmac_under_secret:
  assumes jwt_parse_contract: "\<forall>tok kf. jwtParse tok kf = Inr True \<longrightarrow>
      (\<exists>m key. kf m = Inr key \<and> signedWith tok m key)"
    and "fresh w"
  shows "(\<exists>alg. signedWith (extractToken r) (SigningMethodHMAC alg) secret \<and>
            jwtAuthWrap jwtParse secret nxt w r s = nxt w r s) \<or>
         (\<exists>w'. jwtAuthWrap jwtParse secret nxt w r s = Done w' s \<and> sentStatus (base_of w') = 401)"
proof (cases "jwtAuthWrap jwtParse secret nxt w r s = nxt w r s \<and> jwtParse (extractToken r) (hmacKey secret) = Inr True")
  case True
  then obtain m key where "hmacKey secret m = Inr key" "signedWith (extractToken r) m key"
    using jwt_parse_contract by blast
  then show ?thesis using True by (cases m) (auto simp: hmacKey_def)
next
  case False
  then have "\<exists>msg. jwtAuthWrap jwtParse secret nxt w r s = Done (httpError msg 401 w) s"
    using jwtAuthWrap_cases [of jwtParse secret nxt w r s] by blast
  then show ?thesis using httpError_sent(2) [OF assms(2)] by fastforce
qed

text \<open>
  Behind the gateway-wide body limit and a service's own one, the next handler can read at most
  the smaller of the two many bytes of the body, whatever length the client declared; a body within
  both limits is delivered unchanged; a declared length above either limit is answered with a 413.
\<close>

lemma body_limits_compose:
  assumes "0 \<le> global" "0 \<le> own" "fresh w"
  shows "if contentLength r > min global own
    then \<exists>w'. chain [requestSizeLimitingWrap global, requestSizeLimitingWrap own] h w r s = Done w' s \<and>
           sentStatus (base_of w') = 413
    else \<exists>r'. chain [requestSizeLimitingWrap global, requestSizeLimitingWrap own] h w r s = h w r' s \<and>
           (\<forall>b b'. reqBody r = Some b \<and> reqBody r' = Some b' \<longrightarrow>
              int (length (fst (readAll b'))) \<le> min global own \<and>
              (int (length (fst (readAll b))) \<le> min global own \<longrightarrow> readAll b' = readAll b))"
proof (cases "contentLength r > min global own")
  case True
  then have "chain [requestSizeLimitingWrap global, requestSizeLimitingWrap own] h w r s = Done (writeHeader 413 w) s"
    by (auto simp: requestSizeLimitingWrap_def)
  then show ?thesis using True writeHeader_fresh_sent(2) [OF assms(3), of 413] by auto
next
  case False
  let ?r = "r\<lparr>reqBody := map_option (Limited own) (map_option (Limited global) (reqBody r))\<rparr>"
  have "chain [requestSizeLimitingWrap global, requestSizeLimitingWrap own] h w r s = h w ?r s"
    using False by (auto simp: requestSizeLimitingWrap_def)
  moreover have "int (length (fst (readAll (Limited own (Limited global b))))) \<le> min global own \<and>
      (int (length (fst (readAll b))) \<le> min global own \<longrightarrow> readAll (Limited own (Limited global b)) = readAll b)" for b
    using assms(1,2) by (auto simp: Let_def split: prod.splits)
  ultimately show ?thesis using False by (auto intro!: exI [of _ ?r])
qed


section \<open>Witnesses\<close>

definition demo_cors_config :: cfgmap where
  "demo_cors_config = [(''allowed_origins'', YList [YString ''https://a.test'']), (''allow_credentials'', YBool True)]"

definition demo_cors :: cors where
  "demo_cors = \<lparr>allowedOrigins = [''https://a.test''], allowedMethods = [], allowedHeaders = [],
     allowCredentials = True, corsMaxAge = []\<rparr>"

definition demo_preflight :: request where
  "demo_preflight = demo_request\<lparr>reqMethod := ''OPTIONS'', reqHeader := [''Origin'' \<mapsto> [''https://a.test''],
     ''Access-Control-Request-Method'' \<mapsto> [''PUT'']]\<rparr>"

text \<open>A library that accepts exactly the token \<open>good\<close>, signed with HMAC under the configured secret.\<close>

definition demo_jwt :: jwt_parser where
  "demo_jwt tok kf = (case kf (SigningMethodHMAC ''HS256'') of Inl e \<Rightarrow> Inl e
     | Inr key \<Rightarrow> Inr (tok = ''good'' \<and> key = ''secret''))"

definition demo_answer :: "string \<Rightarrow> 'w handler" where
  "demo_answer bytes w r s = Done (writeW bytes w) s"

lemma demo_cors_built: "newCORS demo_cors_config = Inr demo_cors"
  by (simp add: demo_cors_config_def demo_cors_def newCORS_def toStringSlice_def entryString_def)

lemma demo_preflight_is [simp]: "isPreflight demo_preflight" "extractToken demo_preflight = []"
proof -
  show "isPreflight demo_preflight"
    by (simp add: demo_preflight_def isPreflight_def hGet_def hValues_def)
  have "canonicalKey ''Authorization'' = ''Authorization''" by code_simp
  then show "extractToken demo_preflight = []"
    by (simp add: demo_preflight_def demo_request_def extractToken_def hGet_def hValues_def queryGet_def)
qed

theorem cors_no_credentials_for_wildcard_witness:
  "\<exists>w'. corsWrap demo_cors (demo_answer ''ok'') demo_writer demo_preflight (0::nat) =
      (if isPreflight demo_preflight then Done (writeHeader 204 w') 0 else demo_answer ''ok'' w' demo_preflight 0) \<and>
     \<not> (hGet (hdr (base_of w')) ''Access-Control-Allow-Origin'' = ''*'' \<and>
        hGet (hdr (base_of w')) ''Access-Control-Allow-Credentials'' = ''true'')"
  by (rule cors_no_credentials_for_wildcard [OF demo_cors_built])
    (simp add: hGet_def hValues_def)


end
