(* ===== verification/Rate_Limiting.thy ===== *)
theory Rate_Limiting
  imports Plugins Client_IP
begin

text \<open>
  The \<open>rate_limiting\<close> plugin (\<^verbatim>\<open>rate_limiting.go\<close>, \<^verbatim>\<open>ratelimit_sugardb.go\<close>): the
  token buckets kept in memory, the fixed-window counters kept in the embedded SugarDB, the
  namespacing of the latter, the constructor and the middleware. SugarDB is third-party code: what
  its commands return is an arbitrary function of the commands issued before, and what starting it
  returns is a parameter. Token arithmetic is that of \<^typ>\<open>f64\<close>, with a product rounded before
  it is added, as on amd64.
\<close>

section \<open>The in-memory store\<close>

abbreviation (input) staleAfter :: duration where "staleAfter \<equiv> 600000000000"

abbreviation (input) sweepEvery :: u64 where "sweepEvery \<equiv> 1000"

record visitor =
  tokens :: f64
  lastSeen :: instant

record memoryStore =
  visitors :: "string \<rightharpoonup> visitor"
  calls :: u64

definition newMemoryStore :: memoryStore where
  "newMemoryStore = \<lparr>visitors = Map.empty, calls = 0\<rparr>"

definition stale :: "instant \<Rightarrow> visitor \<Rightarrow> bool" where
  "stale now v \<longleftrightarrow> staleAfter < time_sub now (lastSeen v)"

definition sweepLocked :: "instant \<Rightarrow> memoryStore \<Rightarrow> memoryStore" where
  "sweepLocked now s =
     s\<lparr>visitors := (\<lambda>k. case visitors s k of None \<Rightarrow> None | Some v \<Rightarrow> if stale now v then None else Some v)\<rparr>"

text \<open>The bucket's content at \<open>now\<close>, before the request is charged.\<close>

definition refill :: "f64 \<Rightarrow> f64 \<Rightarrow> instant \<Rightarrow> visitor \<Rightarrow> f64" where
  "refill rps burst now v =
     (let elapsed = durationSeconds (time_sub now (lastSeen v));
          t = tokens v + elapsed * rps
      in if t > burst then burst else t)"

text \<open>Counting the call, and the sweep on every thousandth.\<close>

definition countCall :: "instant \<Rightarrow> memoryStore \<Rightarrow> memoryStore" where
  "countCall now s =
     (let s = s\<lparr>calls := calls s + 1\<rparr> in if calls s mod sweepEvery = 0 then sweepLocked now s else s)"

definition memAllow :: "string \<Rightarrow> f64 \<Rightarrow> f64 \<Rightarrow> instant \<Rightarrow> memoryStore \<Rightarrow> bool \<times> memoryStore" where
  "memAllow key rps burst now s =
     (let s = countCall now s;
          put = (\<lambda>t. s\<lparr>visitors := (visitors s)(key \<mapsto> \<lparr>tokens = t, lastSeen = now\<rparr>)\<rparr>)
      in case visitors s key of
           None \<Rightarrow> (True, put (burst - 1))
         | Some v \<Rightarrow>
             let t = refill rps burst now v
             in if t < 1 then (False, put t) else (True, put (t - 1)))"

section \<open>The SugarDB store\<close>

datatype db_call = IncrCall string | ExpireCall string int

record sugar_db =
  dbCalls :: "db_call list" \<comment> \<open>commands issued, oldest first\<close>
  incrOracle :: "db_call list \<Rightarrow> string \<Rightarrow> string + int"
  expireOracle :: "db_call list \<Rightarrow> string \<Rightarrow> int \<Rightarrow> string + bool"

definition dbIncr :: "string \<Rightarrow> sugar_db \<Rightarrow> (string + int) \<times> sugar_db" where
  "dbIncr k db = (incrOracle db (dbCalls db) k, db\<lparr>dbCalls := dbCalls db @ [IncrCall k]\<rparr>)"

definition dbExpire :: "string \<Rightarrow> int \<Rightarrow> sugar_db \<Rightarrow> (string + bool) \<times> sugar_db" where
  "dbExpire k secs db = (expireOracle db (dbCalls db) k secs, db\<lparr>dbCalls := dbCalls db @ [ExpireCall k secs]\<rparr>)"

definition windowLimit :: "f64 \<Rightarrow> int" where
  "windowLimit burst = (let limit = f64ToInt burst in if limit < 1 then 1 else limit)"

definition sugarAllow :: "string \<Rightarrow> f64 \<Rightarrow> f64 \<Rightarrow> instant \<Rightarrow> sugar_db \<Rightarrow> bool \<times> sugar_db" where
  "sugarAllow key rps burst now db =
     (let limit = windowLimit burst in
      case dbIncr key db of
        (Inl err, db) \<Rightarrow> (False, db)
      | (Inr count, db) \<Rightarrow>
          if count = 1 then
            (case dbExpire key 1 db of
               (Inl err, db) \<Rightarrow> (False, db)
             | (Inr _, db) \<Rightarrow> (count \<le> limit, db))
          else (count \<le> limit, db))"

definition namespacedAllow ::
  "string \<Rightarrow> (string \<Rightarrow> f64 \<Rightarrow> f64 \<Rightarrow> instant \<Rightarrow> 's \<Rightarrow> bool \<times> 's) \<Rightarrow>
   string \<Rightarrow> f64 \<Rightarrow> f64 \<Rightarrow> instant \<Rightarrow> 's \<Rightarrow> bool \<times> 's" where
  "namespacedAllow pfx inner key rps burst now s = inner (pfx @ '':'' @ key) rps burst now s"

section \<open>Starting SugarDB\<close>

record sugarDBNodeConfig =
  bindAddr :: string
  joinAddr :: string
  bootstrap :: bool
  serverID :: string
  dataDir :: string
  discoveryPort :: int

text \<open>The fields of \<^verbatim>\<open>sugardb.Config\<close> the gateway sets.\<close>

record sugarConfig =
  scBindAddr :: string
  scJoinAddr :: string
  scBootstrapCluster :: bool
  scServerID :: string
  scDiscoveryPort :: int
  scDataDir :: string

text \<open>
  What the gateway takes from the process and from third-party code: the environment, temporary
  directories, SugarDB's defaults and whether it starts, and the JWT library.
\<close>

record platform =
  osGetenv :: "string \<Rightarrow> string"
  osMkdirTemp :: "string + string"
  sugarDefaults :: sugarConfig
  startSugarDB :: "sugarConfig \<Rightarrow> string option"
  jwtLib :: jwt_parser

definition newSugarDBInstance :: "platform \<Rightarrow> sugarDBNodeConfig \<Rightarrow> string + sugarConfig" where
  "newSugarDBInstance pf nc =
     (let cfg = sugarDefaults pf;
          cfg = (if bindAddr nc \<noteq> [] then cfg\<lparr>scBindAddr := bindAddr nc\<rparr> else cfg);
          cfg = (if joinAddr nc \<noteq> [] then cfg\<lparr>scJoinAddr := joinAddr nc\<rparr> else cfg);
          cfg = cfg\<lparr>scBootstrapCluster := bootstrap nc\<rparr>;
          cfg = (if serverID nc \<noteq> [] then cfg\<lparr>scServerID := serverID nc\<rparr> else cfg);
          cfg = (if discoveryPort nc \<noteq> 0 then cfg\<lparr>scDiscoveryPort := discoveryPort nc\<rparr> else cfg)
      in bindE (if dataDir nc = [] then mapErr (\<lambda>e. ''create data dir: '' @ e) (osMkdirTemp pf) else Inr (dataDir nc))
           (\<lambda>dir. let cfg = cfg\<lparr>scDataDir := dir\<rparr>
                  in case startSugarDB pf cfg of
                       Some e \<Rightarrow> Inl (''start embedded SugarDB: '' @ e)
                     | None \<Rightarrow> Inr cfg))"

text \<open>\<^verbatim>\<open>strconv.ParseBool\<close> and \<^verbatim>\<open>strconv.ParseUint(v, 10, 16)\<close>.\<close>

definition parseBool :: "string \<Rightarrow> bool option" where
  "parseBool v = (if v \<in> {''1'', ''t'', ''T'', ''true'', ''TRUE'', ''True''} then Some True
                  else if v \<in> {''0'', ''f'', ''F'', ''false'', ''FALSE'', ''False''} then Some False else None)"

definition parseUint16 :: "string \<Rightarrow> int option" where
  "parseUint16 v = (if v \<noteq> [] \<and> list_all ascii_digit v \<and> dec_val v \<le> 65535 then Some (dec_val v) else None)"

definition sharedNodeConfig :: "platform \<Rightarrow> string + sugarDBNodeConfig" where
  "sharedNodeConfig pf =
     (let env = osGetenv pf;
          nc = \<lparr>bindAddr = env ''DEALER_RATELIMIT_CLUSTER_BIND_ADDR'',
                joinAddr = env ''DEALER_RATELIMIT_CLUSTER_JOIN_ADDR'', bootstrap = False,
                serverID = env ''DEALER_RATELIMIT_CLUSTER_SERVER_ID'',
                dataDir = env ''DEALER_RATELIMIT_CLUSTER_DATA_DIR'', discoveryPort = 0\<rparr>;
          b = env ''DEALER_RATELIMIT_CLUSTER_BOOTSTRAP'';
          p = env ''DEALER_RATELIMIT_CLUSTER_DISCOVERY_PORT''
      in bindE (if b = [] then Inr nc
                else case parseBool b of None \<Rightarrow> Inl (''invalid DEALER_RATELIMIT_CLUSTER_BOOTSTRAP '' @ b)
                     | Some v \<Rightarrow> Inr (nc\<lparr>bootstrap := v\<rparr>))
           (\<lambda>nc. if p = [] then Inr nc
                 else case parseUint16 p of None \<Rightarrow> Inl (''invalid DEALER_RATELIMIT_CLUSTER_DISCOVERY_PORT '' @ p)
                      | Some n \<Rightarrow> Inr (nc\<lparr>discoveryPort := n\<rparr>)))"

section \<open>The plugin\<close>

text \<open>
  The part of the process the plugins share: the memory stores by identity, and SugarDB with the
  outcome of its one start, which is empty until a plugin first asks for it.
\<close>

record plugin_world = env +
  stores :: "nat \<Rightarrow> memoryStore"
  nextStore :: nat
  sugar :: sugar_db
  sugarSetup :: "(string + sugarConfig) option"

definition getSharedSugarDBStore :: "platform \<Rightarrow> 'a plugin_world_scheme \<Rightarrow> (string + sugarConfig) \<times> 'a plugin_world_scheme" where
  "getSharedSugarDBStore pf w =
     (case sugarSetup w of
        Some res \<Rightarrow> (res, w)
      | None \<Rightarrow> let res = bindE (sharedNodeConfig pf) (newSugarDBInstance pf) in (res, w\<lparr>sugarSetup := Some res\<rparr>))"

datatype store_ref = MemoryStore nat | NamespacedStore string

record rateLimiting =
  rlRequestsPerSecond :: f64
  rlBurst :: f64
  rlStore :: store_ref

definition rateAndBurst :: "cfgmap \<Rightarrow> plugin_error + f64 \<times> f64" where
  "rateAndBurst cfg =
     (case map_of cfg ''requests_per_second'' of
        None \<Rightarrow> Inl (Required ''requests_per_second'')
      | Some raw \<Rightarrow> bindE (toFloat64 ''requests_per_second'' raw) (\<lambda>rps.
          if rps \<le> 0 then Inl (NotPositive ''requests_per_second'')
          else case map_of cfg ''burst'' of
                 None \<Rightarrow> Inr (rps, rps)
               | Some rawBurst \<Rightarrow> bindE (toFloat64 ''burst'' rawBurst) (\<lambda>burst.
                   if burst < 1 then Inl BurstBelowOne else Inr (rps, burst))))"

definition newRateLimiting ::
  "platform \<Rightarrow> cfgmap \<Rightarrow> string \<Rightarrow> 'a plugin_world_scheme \<Rightarrow> (plugin_error + rateLimiting) \<times> 'a plugin_world_scheme" where
  "newRateLimiting pf cfg instanceID w =
     (case rateAndBurst cfg of
        Inl e \<Rightarrow> (Inl e, w)
      | Inr (rps, burst) \<Rightarrow>
          let mode = cfgString cfg ''mode'';
              mk = (\<lambda>st. \<lparr>rlRequestsPerSecond = rps, rlBurst = burst, rlStore = st\<rparr>) in
          if mode = [] \<or> mode = ''memory'' then
            (Inr (mk (MemoryStore (nextStore w))),
             w\<lparr>stores := (stores w)(nextStore w := newMemoryStore), nextStore := Suc (nextStore w)\<rparr>)
          else if mode = ''distributed'' then
            (case getSharedSugarDBStore pf w of
               (Inl e, w) \<Rightarrow> (Inl (SharedStoreError e), w)
             | (Inr _, w) \<Rightarrow> (Inr (mk (NamespacedStore instanceID)), w))
          else (Inl (BadMode mode), w))"

definition storeAllow :: "store_ref \<Rightarrow> string \<Rightarrow> f64 \<Rightarrow> f64 \<Rightarrow> instant \<Rightarrow> 'a plugin_world_scheme \<Rightarrow> bool \<times> 'a plugin_world_scheme" where
  "storeAllow ref key rps burst now w =
     (case ref of
        MemoryStore i \<Rightarrow> (let (ok, st) = memAllow key rps burst now (stores w i) in (ok, w\<lparr>stores := (stores w)(i := st)\<rparr>))
      | NamespacedStore pfx \<Rightarrow>
          (let (ok, db) = namespacedAllow pfx sugarAllow key rps burst now (sugar w) in (ok, w\<lparr>sugar := db\<rparr>)))"

definition rateLimitingWrap :: "rateLimiting \<Rightarrow> 'a plugin_world_scheme handler \<Rightarrow> 'a plugin_world_scheme handler" where
  "rateLimitingWrap p nxt w r s =
     (let (ok, s) = storeAllow (rlStore p) (fromRequest r) (rlRequestsPerSecond p) (rlBurst p) (clock s) s
      in if \<not> ok then Done (httpError ''rate limit exceeded'' 429 w) s else nxt w r s)"

interpretation rate_limiting_mw: middleware "rateLimitingWrap p" for p
proof
  fix h :: "'a plugin_world_scheme handler"
  assume h: "handler_ok h"
  show "handler_ok (rateLimitingWrap p h)"
    by (rule handler_okI) (auto simp: rateLimitingWrap_def Let_def handler_ok_shape [OF h] settled_httpError
        dest: handler_ok_settled [OF h] split: if_splits prod.splits)
qed

section \<open>The contract of a store\<close>

text \<open>
  Every store keeps something per key, and a call for one key leaves what it keeps for the others
  alone, or drops it for good: the in-memory store forgets a bucket that has been idle.
\<close>

locale token_store =
  fixes allow :: "string \<Rightarrow> f64 \<Rightarrow> f64 \<Rightarrow> instant \<Rightarrow> 's \<Rightarrow> bool \<times> 's"
    and view :: "'s \<Rightarrow> string \<Rightarrow> 'v"
    and forgets :: "instant \<Rightarrow> 'v \<Rightarrow> 'v \<Rightarrow> bool"
  assumes other_key: "k' \<noteq> k \<Longrightarrow> view (snd (allow k rps burst now s)) k' = view s k' \<or>
      forgets now (view s k') (view (snd (allow k rps burst now s)) k')"
    and forgets_once: "forgets t v v' \<Longrightarrow> \<not> forgets t' v' v''"
begin

definition serve :: "f64 \<Rightarrow> f64 \<Rightarrow> (string \<times> instant) list \<Rightarrow> 's \<Rightarrow> 's" where
  "serve rps burst cs s = fold (\<lambda>(k, now) s. snd (allow k rps burst now s)) cs s"

lemma others_do_not_interfere:
  assumes "k \<notin> fst ` set cs"
  shows "view (serve rps burst cs s) k = view s k \<or>
    (\<exists>t \<in> snd ` set cs. forgets t (view s k) (view (serve rps burst cs s) k))"
  using assms
proof (induction cs arbitrary: s)
  case Nil
  then show ?case by (simp add: serve_def)
next
  case (Cons c cs)
  obtain k0 now where c: "c = (k0, now)" by (cases c)
  let ?s = "snd (allow k0 rps burst now s)"
  have ne: "k \<noteq> k0" using Cons.prems c by auto
  have ih: "view (serve rps burst cs ?s) k = view ?s k \<or>
      (\<exists>t \<in> snd ` set cs. forgets t (view ?s k) (view (serve rps burst cs ?s) k))"
    using Cons c by auto
  have step: "serve rps burst (c # cs) s = serve rps burst cs ?s" by (simp add: serve_def c)
  have times: "snd ` set (c # cs) = insert now (snd ` set cs)" by (simp add: c)
  show ?case
    unfolding step times
  proof (cases "view ?s k = view s k")
    case True
    then show "view (serve rps burst cs ?s) k = view s k \<or>
        (\<exists>t \<in> insert now (snd ` set cs). forgets t (view s k) (view (serve rps burst cs ?s) k))"
      using ih by auto
  next
    case False
    then have f: "forgets now (view s k) (view ?s k)" using other_key [OF ne, of rps burst now s] by blast
    then have "view (serve rps burst cs ?s) k = view ?s k" using ih forgets_once by blast
    then show "view (serve rps burst cs ?s) k = view s k \<or>
        (\<exists>t \<in> insert now (snd ` set cs). forgets t (view s k) (view (serve rps burst cs ?s) k))"
      using f by simp
  qed
qed

end

definition mem_forgets :: "instant \<Rightarrow> visitor option \<Rightarrow> visitor option \<Rightarrow> bool" where
  "mem_forgets now v v' \<longleftrightarrow> v' = None \<and> (\<exists>u. v = Some u \<and> stale now u)"

lemma countCall_visitors:
  "visitors (countCall now s) k = visitors s k \<or>
    (\<exists>u. visitors s k = Some u \<and> stale now u \<and> visitors (countCall now s) k = None)"
proof (cases "countCall now s = sweepLocked now (s\<lparr>calls := calls s + 1\<rparr>)")
  case True
  then have "visitors (countCall now s) k = (case visitors s k of None \<Rightarrow> None | Some v \<Rightarrow> if stale now v then None else Some v)"
    by (simp add: sweepLocked_def)
  then show ?thesis by (auto split: option.splits if_splits)
next
  case False
  then have "countCall now s = s\<lparr>calls := calls s + 1\<rparr>"
    unfolding countCall_def Let_def by presburger
  then show ?thesis by simp
qed

lemma memAllow_other:
  assumes "k' \<noteq> k"
  shows "visitors (snd (memAllow k rps burst now s)) k' = visitors s k' \<or>
    mem_forgets now (visitors s k') (visitors (snd (memAllow k rps burst now s)) k')"
proof -
  have "visitors (snd (memAllow k rps burst now s)) k' = visitors (countCall now s) k'"
    using assms by (simp add: memAllow_def Let_def split: option.splits)
  then show ?thesis
    using countCall_visitors [of now s k'] by (auto simp: mem_forgets_def split: option.splits)
qed

interpretation mem: token_store memAllow visitors mem_forgets
  by unfold_locales (use memAllow_other in blast, simp add: mem_forgets_def)

fun call_key :: "db_call \<Rightarrow> string" where
  "call_key (IncrCall k) = k"
| "call_key (ExpireCall k _) = k"

definition key_calls :: "sugar_db \<Rightarrow> string \<Rightarrow> db_call list" where
  "key_calls db k = filter (\<lambda>c. call_key c = k) (dbCalls db)"

lemma sugarAllow_calls:
  "\<exists>cs. dbCalls (snd (sugarAllow k rps burst now db)) = dbCalls db @ cs \<and> (\<forall>c \<in> set cs. call_key c = k)"
  by (auto simp: sugarAllow_def Let_def dbIncr_def dbExpire_def split: sum.splits)

lemma sugarAllow_other: "k' \<noteq> k \<Longrightarrow> key_calls (snd (sugarAllow k rps burst now db)) k' = key_calls db k'"
  using sugarAllow_calls [of k rps burst now db] by (auto simp: key_calls_def filter_empty_conv)

interpretation sugardb: token_store sugarAllow key_calls "\<lambda>_ _ _. False"
  by unfold_locales (simp_all add: sugarAllow_other)

interpretation namespaced: token_store "namespacedAllow pfx sugarAllow"
  "\<lambda>db k. key_calls db (pfx @ '':'' @ k)" "\<lambda>_ _ _. False" for pfx
  by unfold_locales (simp_all add: namespacedAllow_def sugarAllow_other)

section \<open>Buckets against their ideal\<close>

text \<open>Rates and bursts up to a million, and a burst of at least one: the range of the analysis.\<close>

definition moderate :: "rat \<Rightarrow> rat \<Rightarrow> bool" where
  "moderate R B \<longleftrightarrow> 0 < R \<and> R \<le> 1000000 \<and> 1 \<le> B \<and> B \<le> 1000000"

definition earned :: "rat \<Rightarrow> instant \<Rightarrow> instant \<Rightarrow> rat" where
  "earned R from to = R * (of_int (to - from) / 10 ^ 9)"

lemma earned_nonneg: "0 \<le> R \<Longrightarrow> from \<le> to \<Longrightarrow> 0 \<le> earned R from to"
  by (simp add: earned_def)

lemma earned_split: "earned R a c = earned R a b + earned R b c"
  by (simp add: earned_def algebra_simps add_divide_distrib diff_divide_distrib)

text \<open>The product of the elapsed seconds and the rate, as computed.\<close>

lemma product_close:
  assumes "0 < R" "R \<le> 1000000" "\<bar>d\<bar> \<le> max_i64"
  shows "\<exists>p. fmul (durationSeconds d) (Fin R) = Fin p \<and>
    \<bar>p - R * (of_int d / 10 ^ 9)\<bar> \<le> \<bar>R * (of_int d / 10 ^ 9)\<bar> * (5 * halfUlp) + 10 ^ 7 * eta \<and>
    \<bar>p\<bar> \<le> 10 ^ 20 \<and> (0 \<le> d \<longrightarrow> 0 \<le> p)"
proof -
  let ?y = "of_int d / 10 ^ 9 :: rat"
  obtain el where el: "durationSeconds d = Fin el" "0 \<le> d \<Longrightarrow> 0 \<le> el"
    "\<bar>el - ?y\<bar> \<le> \<bar>?y\<bar> * (3 * halfUlp) + 3 * eta"
    using durationSeconds_close [OF assms(3)] by blast
  have "\<bar>of_int d :: rat\<bar> \<le> 9223372036854775807"
    using assms(3) by (metis of_int_abs of_int_le_iff of_int_numeral)
  then have "\<bar>el\<bar> \<le> 10 ^ 11" using el(3) eta_small by (simp add: halfUlp_def)
  then have "\<bar>el * R\<bar> \<le> 10 ^ 11 * 1000000"
    unfolding abs_mult using assms(1,2) by (intro mult_mono) auto
  then have p: "fmul (durationSeconds d) (Fin R) = Fin (rnd (el * R))" by (simp add: el(1) mkF64_close)
  have "el * R - R * ?y = (el - ?y) * R" by (simp add: algebra_simps)
  then have "\<bar>el * R - R * ?y\<bar> = \<bar>el - ?y\<bar> * R"
    using assms(1) by (simp only: abs_mult abs_of_pos)
  also have "\<dots> \<le> (\<bar>?y\<bar> * (3 * halfUlp) + 3 * eta) * R"
    using el(3) assms(1) by (intro mult_right_mono) auto
  also have "\<dots> = \<bar>R * ?y\<bar> * (3 * halfUlp) + 3 * eta * R"
    using assms(1) by (simp add: abs_mult algebra_simps)
  also have "3 * eta * R \<le> 3 * eta * 1000000" using assms(2) eta_small by (intro mult_left_mono) simp_all
  finally have "\<bar>el * R - R * ?y\<bar> \<le> \<bar>R * ?y\<bar> * (3 * halfUlp) + 3000000 * eta" by simp
  then have c: "\<bar>rnd (el * R) - R * ?y\<bar> \<le> \<bar>R * ?y\<bar> * (5 * halfUlp) + 10 ^ 7 * eta"
    using rnd_rel_error [of "el * R"] eta_small(1) by (simp add: halfUlp_def)
  have "\<bar>R * ?y\<bar> \<le> 1000000 * 9223372037"
    unfolding abs_mult using assms(1,2) \<open>\<bar>of_int d :: rat\<bar> \<le> 9223372036854775807\<close> by (intro mult_mono) (auto simp: abs_divide)
  then have "\<bar>rnd (el * R)\<bar> \<le> 10 ^ 20" using c eta_small by (simp add: halfUlp_def)
  moreover have "0 \<le> rnd (el * R)" if "0 \<le> d" using el(2) [OF that] assms(1) by (simp add: rnd_nonneg)
  ultimately show ?thesis using p c by blast
qed

lemma product_bound:
  assumes "moderate R B" "from \<le> to"
  shows "\<exists>p. fmul (durationSeconds (time_sub to from)) (Fin R) = Fin p \<and> 0 \<le> p \<and> p \<le> 10 ^ 20 \<and>
    p \<le> earned R from to * (1 + 5 * halfUlp) + 10 ^ 7 * eta"
proof -
  let ?d = "time_sub to from"
  have R: "0 < R" "R \<le> 1000000" using assms(1) by (simp_all add: moderate_def)
  have d: "0 \<le> ?d" "?d \<le> max_i64" "?d \<le> to - from" using assms(2) by (auto simp: time_sub_def)
  then obtain p where p: "fmul (durationSeconds ?d) (Fin R) = Fin p" "\<bar>p\<bar> \<le> 10 ^ 20" "0 \<le> p"
    "\<bar>p - R * (of_int ?d / 10 ^ 9)\<bar> \<le> \<bar>R * (of_int ?d / 10 ^ 9)\<bar> * (5 * halfUlp) + 10 ^ 7 * eta"
    using product_close [OF R, of ?d] by auto
  define z where "z = R * (of_int ?d / 10 ^ 9)"
  have "(of_int ?d :: rat) \<le> of_int (to - from)" using d(3) by (simp only: of_int_le_iff)
  then have "z \<le> earned R from to"
    unfolding z_def earned_def using R by (intro mult_left_mono divide_right_mono) simp_all
  moreover have z0: "0 \<le> z" unfolding z_def using R d(1) by (intro mult_nonneg_nonneg divide_nonneg_nonneg) simp_all
  ultimately have "z * (1 + 5 * halfUlp) \<le> earned R from to * (1 + 5 * halfUlp)"
    by (intro mult_right_mono) (simp_all add: halfUlp_def)
  moreover have "p \<le> z * (1 + 5 * halfUlp) + 10 ^ 7 * eta"
    using abs_le_D1 [OF p(4) [folded z_def]] z0 by (simp add: algebra_simps)
  ultimately show ?thesis using p by (intro exI [of _ p]) simp
qed

lemma refill_bound:
  assumes m: "moderate R B" and x: "tokens v = Fin x" "0 \<le> x" "x \<le> B" and "lastSeen v \<le> now"
  shows "\<exists>t. refill (Fin R) (Fin B) now v = Fin t \<and> 0 \<le> t \<and> t \<le> B \<and>
    t \<le> x + earned R (lastSeen v) now + 9 / 10 ^ 10"
proof -
  let ?z = "earned R (lastSeen v) now"
  obtain p where p: "fmul (durationSeconds (time_sub now (lastSeen v))) (Fin R) = Fin p" "0 \<le> p" "p \<le> 10 ^ 20"
    "p \<le> ?z * (1 + 5 * halfUlp) + 10 ^ 7 * eta"
    using product_bound [OF m assms(5)] by blast
  have B: "1 \<le> B" "B \<le> 1000000" using m by (simp_all add: moderate_def)
  have f: "fadd (tokens v) (Fin p) = Fin (rnd (x + p))"
    using p x B by (simp add: mkF64_moderate)
  have nn: "0 \<le> rnd (x + p)" using p x by (intro rnd_nonneg) simp
  have z0: "0 \<le> ?z" using m assms(5) by (intro earned_nonneg) (simp_all add: moderate_def)
  have close: "rnd (x + p) \<le> x + ?z + 9 / 10 ^ 10" if below: "x + ?z < B"
  proof -
    have "x + p \<le> x + ?z + 6 / 10 ^ 10" using below p(4) x B z0 eta_small by (simp add: halfUlp_def)
    moreover have "rnd (x + p) \<le> x + p + (x + p) * halfUlp + eta" using p x by (intro rnd_upper) simp
    moreover have "(x + p) * halfUlp \<le> 1000001 * halfUlp"
      using calculation(1) below B by (intro mult_right_mono) (simp_all add: halfUlp_def)
    moreover have "1000001 * halfUlp \<le> 2 / 10 ^ 10" by (simp add: halfUlp_def)
    moreover have "eta \<le> 1 / 10 ^ 10" using eta_small(2) by simp
    ultimately show ?thesis by simp
  qed
  show ?thesis
  proof (cases "B < rnd (x + p)")
    case True
    then have "B \<le> x + ?z + 9 / 10 ^ 10" using close by (cases "x + ?z < B") auto
    then show ?thesis using True B by (simp add: refill_def Let_def p(1) f)
  next
    case False
    then have "rnd (x + p) \<le> x + ?z + 9 / 10 ^ 10" using close by (cases "x + ?z < B") auto
    then show ?thesis using nn False by (simp add: refill_def Let_def p(1) f)
  qed
qed

section \<open>Accounting for admitted requests\<close>

text \<open>
  What a client could still be granted at \<open>t\<close>: its tokens and what they have earned since, at most
  the burst; a client without a bucket has the whole burst.
\<close>

definition credit :: "rat \<Rightarrow> rat \<Rightarrow> memoryStore \<Rightarrow> string \<Rightarrow> instant \<Rightarrow> rat" where
  "credit R B s k t =
     (case visitors s k of None \<Rightarrow> B
      | Some v \<Rightarrow> (case tokens v of Fin x \<Rightarrow> min B (x + earned R (lastSeen v) t) | _ \<Rightarrow> B))"

definition visitor_ok :: "rat \<Rightarrow> instant \<Rightarrow> visitor \<Rightarrow> bool" where
  "visitor_ok B t v \<longleftrightarrow> (\<exists>x. tokens v = Fin x \<and> 0 \<le> x \<and> x \<le> B) \<and> lastSeen v \<le> t"

definition store_ok :: "rat \<Rightarrow> instant \<Rightarrow> memoryStore \<Rightarrow> bool" where
  "store_ok B t s \<longleftrightarrow> (\<forall>k v. visitors s k = Some v \<longrightarrow> visitor_ok B t v)"

lemma store_ok_mono: "store_ok B t s \<Longrightarrow> t \<le> t' \<Longrightarrow> store_ok B t' s"
  by (fastforce simp: store_ok_def visitor_ok_def)

lemma store_ok_new: "store_ok B t newMemoryStore"
  by (simp add: store_ok_def newMemoryStore_def)

lemma credit_le_burst: "credit R B s k t \<le> B"
  by (simp add: credit_def split: option.splits f64.splits)

lemma credit_nonneg:
  assumes "moderate R B" "store_ok B t s"
  shows "0 \<le> credit R B s k t"
proof (cases "visitors s k")
  case (Some v)
  then obtain x where "tokens v = Fin x" "0 \<le> x" "lastSeen v \<le> t"
    using assms(2) by (auto simp: store_ok_def visitor_ok_def)
  then show ?thesis
    using Some assms(1) earned_nonneg [of R "lastSeen v" t] by (simp add: credit_def moderate_def)
qed (use assms in \<open>simp add: credit_def moderate_def\<close>)

lemma credit_time:
  assumes "0 \<le> R" "t \<le> t'"
  shows "credit R B s k t' \<le> credit R B s k t + earned R t t'"
proof (cases "visitors s k")
  case (Some v)
  have "earned R (lastSeen v) t' = earned R (lastSeen v) t + earned R t t'" by (rule earned_split)
  then show ?thesis
    using Some earned_nonneg [OF assms] by (cases "tokens v") (simp_all add: credit_def)
qed (use earned_nonneg [OF assms] in \<open>simp add: credit_def\<close>)

text \<open>Sweeping away an idle bucket loses nothing when ten minutes refill it.\<close>

lemma countCall_ok: "store_ok B t s \<Longrightarrow> store_ok B t (countCall now s)"
  unfolding store_ok_def by (metis countCall_visitors option.distinct(1))

lemma credit_countCall:
  assumes "moderate R B" "store_ok B now s" "B \<le> 600 * R"
  shows "credit R B (countCall now s) k now = credit R B s k now"
proof -
  have "credit R B s k now = B" if u: "visitors s k = Some u" "stale now u" for u
  proof -
    obtain x where x: "tokens u = Fin x" "0 \<le> x" "lastSeen u \<le> now"
      using assms(2) u by (auto simp: store_ok_def visitor_ok_def)
    have "600000000000 \<le> now - lastSeen u" using u(2) x(3) by (auto simp: stale_def time_sub_def)
    then have "(600000000000 :: rat) \<le> of_int (now - lastSeen u)" by (metis of_int_le_iff of_int_numeral)
    then have "600 \<le> (of_int (now - lastSeen u) / 10 ^ 9 :: rat)" by simp
    then have "R * 600 \<le> earned R (lastSeen u) now"
      unfolding earned_def using assms(1) by (intro mult_left_mono) (simp_all add: moderate_def)
    then show ?thesis using u(1) x assms(3) by (simp add: credit_def)
  qed
  then show ?thesis using countCall_visitors [of now s k] by (auto simp: credit_def)
qed

lemma fsub_one:
  assumes "1 \<le> x" "x \<le> 1000000"
  shows "\<exists>y. fsub (Fin x) fone = Fin y \<and> 0 \<le> y \<and> y \<le> x \<and> y \<le> x - 1 + 2 / 10 ^ 10"
proof -
  have "rnd (x - 1) \<le> (x - 1) + (x - 1) * halfUlp + eta" using assms by (intro rnd_upper) simp
  moreover have "(x - 1) * halfUlp \<le> 1000000 * halfUlp" using assms by (intro mult_right_mono) (simp_all add: halfUlp_def)
  moreover have "1000000 * halfUlp \<le> 115 / 10 ^ 12" "eta \<le> 1 / 10 ^ 12" using eta_small(2) by (simp_all add: halfUlp_def)
  moreover have "0 \<le> rnd (x - 1)" using assms by (intro rnd_nonneg) simp
  moreover have "fsub (Fin x) fone = Fin (rnd (x - 1))" using assms by (simp add: fsub_def mkF64_moderate)
  ultimately show ?thesis by auto
qed

lemma credit_put:
  "credit R B (s\<lparr>visitors := (visitors s)(k \<mapsto> \<lparr>tokens = Fin y, lastSeen = now\<rparr>)\<rparr>) k now = min B y"
  by (simp add: credit_def earned_def)

lemma store_ok_put:
  "store_ok B now s \<Longrightarrow> 0 \<le> y \<Longrightarrow> y \<le> B \<Longrightarrow>
    store_ok B now (s\<lparr>visitors := (visitors s)(k \<mapsto> \<lparr>tokens = Fin y, lastSeen = now\<rparr>)\<rparr>)"
  by (auto simp: store_ok_def visitor_ok_def)

text \<open>One call: the bucket stays within its bounds, and an admission costs a token, up to rounding.\<close>

lemma memAllow_step:
  fixes k
  assumes m: "moderate R B" and ok: "store_ok B now s" and B600: "B \<le> 600 * R"
  defines "s' \<equiv> snd (memAllow k (Fin R) (Fin B) now s)" and "a \<equiv> fst (memAllow k (Fin R) (Fin B) now s)"
  shows "store_ok B now s'" "of_bool a + credit R B s' k now \<le> credit R B s k now + 2 / 10 ^ 9"
proof -
  let ?c = "countCall now s"
  have okc: "store_ok B now ?c" using ok by (rule countCall_ok)
  have cr: "credit R B ?c k now = credit R B s k now" using m ok B600 by (rule credit_countCall)
  have B: "1 \<le> B" "B \<le> 1000000" using m by (simp_all add: moderate_def)
  have "store_ok B now s' \<and> of_bool a + credit R B s' k now \<le> credit R B ?c k now + 2 / 10 ^ 9"
  proof (cases "visitors ?c k")
    case None
    obtain y where y: "fsub (Fin B) fone = Fin y" "0 \<le> y" "y \<le> B" "y \<le> B - 1 + 2 / 10 ^ 10"
      using fsub_one B by blast
    then show ?thesis
      using None okc by (simp add: s'_def a_def memAllow_def Let_def credit_put store_ok_put) (simp add: credit_def)
  next
    case (Some v)
    then obtain x where x: "tokens v = Fin x" "0 \<le> x" "x \<le> B" "lastSeen v \<le> now"
      using okc by (auto simp: store_ok_def visitor_ok_def)
    obtain t where t: "refill (Fin R) (Fin B) now v = Fin t" "0 \<le> t" "t \<le> B"
      "t \<le> x + earned R (lastSeen v) now + 9 / 10 ^ 10"
      using refill_bound [OF m x] by blast
    have c: "credit R B ?c k now = min B (x + earned R (lastSeen v) now)" using Some x by (simp add: credit_def)
    show ?thesis
    proof (cases "t < 1")
      case True
      then show ?thesis
        using Some okc t c by (simp add: s'_def a_def memAllow_def Let_def credit_put store_ok_put)
    next
      case False
      then obtain y where y: "fsub (Fin t) fone = Fin y" "0 \<le> y" "y \<le> t" "y \<le> t - 1 + 2 / 10 ^ 10"
        using fsub_one [of t] t B by auto
      then show ?thesis
        using False Some okc t c by (simp add: s'_def a_def memAllow_def Let_def credit_put store_ok_put)
    qed
  qed
  then show "store_ok B now s'" "of_bool a + credit R B s' k now \<le> credit R B s k now + 2 / 10 ^ 9"
    using cr by simp_all
qed

lemma memAllow_credit_other:
  assumes "moderate R B" "store_ok B now s" "B \<le> 600 * R" "k' \<noteq> k"
  shows "credit R B (snd (memAllow k (Fin R) (Fin B) now s)) k' now = credit R B s k' now"
proof -
  have "visitors (snd (memAllow k (Fin R) (Fin B) now s)) k' = visitors (countCall now s) k'"
    using assms(4) by (simp add: memAllow_def Let_def split: option.splits)
  then show ?thesis using credit_countCall [OF assms(1-3), of k'] by (simp add: credit_def)
qed

section \<open>Runs\<close>

text \<open>A sequence of calls on a store, with the decisions taken.\<close>

fun runStore :: "(string \<Rightarrow> f64 \<Rightarrow> f64 \<Rightarrow> instant \<Rightarrow> 's \<Rightarrow> bool \<times> 's) \<Rightarrow> f64 \<Rightarrow> f64 \<Rightarrow>
    (string \<times> instant) list \<Rightarrow> 's \<Rightarrow> bool list \<times> 's" where
  "runStore allow rps burst [] s = ([], s)"
| "runStore allow rps burst ((k, now) # cs) s =
     (let (ok, s) = allow k rps burst now s; (oks, s) = runStore allow rps burst cs s in (ok # oks, s))"

fun granted :: "string \<Rightarrow> (string \<times> instant) list \<Rightarrow> bool list \<Rightarrow> nat" where
  "granted k ((k', _) # cs) (ok # oks) = of_bool (k' = k \<and> ok) + granted k cs oks"
| "granted k _ _ = 0"

fun lastTime :: "instant \<Rightarrow> (string \<times> instant) list \<Rightarrow> instant" where
  "lastTime t [] = t"
| "lastTime t ((_, now) # cs) = lastTime now cs"

lemma snd_runStore:
  "snd (runStore allow rps burst cs s) = fold (\<lambda>(k, now) s. snd (allow k rps burst now s)) cs s"
  by (induction cs arbitrary: s) (auto simp: Let_def case_prod_unfold)

lemma runStore_append:
  "runStore allow rps burst (cs @ ds) s =
    (let (oks, s1) = runStore allow rps burst cs s; (oks', s2) = runStore allow rps burst ds s1 in (oks @ oks', s2))"
  by (induction allow rps burst cs s rule: runStore.induct) (auto simp: Let_def split: prod.splits)

lemma lastTime_le: "t \<le> u \<Longrightarrow> \<forall>c \<in> set cs. snd c \<le> u \<Longrightarrow> lastTime t cs \<le> u"
  by (induction t cs rule: lastTime.induct) auto

lemma run_credit:
  assumes m: "moderate R B" and B600: "B \<le> 600 * R"
    and "store_ok B t s" "sorted (map snd cs)" "\<forall>c \<in> set cs. t \<le> snd c"
    and "runStore memAllow (Fin R) (Fin B) cs s = (oks, s')"
  shows "store_ok B (lastTime t cs) s' \<and>
    of_nat (granted k cs oks) + credit R B s' k (lastTime t cs) \<le>
      credit R B s k t + earned R t (lastTime t cs) + of_nat (length cs) * (2 / 10 ^ 9)"
  using assms(3-6)
proof (induction cs arbitrary: t s oks)
  case Nil
  then show ?case by (simp add: earned_def)
next
  case (Cons c cs)
  obtain k0 now where c: "c = (k0, now)" by (cases c)
  obtain a s1 oks1 where run: "memAllow k0 (Fin R) (Fin B) now s = (a, s1)"
    "runStore memAllow (Fin R) (Fin B) cs s1 = (oks1, s')" "oks = a # oks1"
    using Cons.prems(4) by (auto simp: c Let_def split: prod.splits)
  have t: "t \<le> now" using Cons.prems(3) c by simp
  have R: "0 \<le> R" using m by (simp add: moderate_def)
  have ok: "store_ok B now s" using store_ok_mono [OF Cons.prems(1) t] .
  note step = memAllow_step [OF m ok B600, of k0, unfolded run, simplified]
  have here: "of_bool (k0 = k \<and> a) + credit R B s1 k now \<le> credit R B s k now + 2 / 10 ^ 9"
    using step(2) memAllow_credit_other [OF m ok B600, of k k0] by (cases "k0 = k") (simp_all add: run)
  have "store_ok B (lastTime now cs) s' \<and>
    of_nat (granted k cs oks1) + credit R B s' k (lastTime now cs) \<le>
      credit R B s1 k now + earned R now (lastTime now cs) + of_nat (length cs) * (2 / 10 ^ 9)"
    using Cons.IH [OF step(1) _ _ run(2)] Cons.prems(2) by (auto simp: c)
  then show ?case
    using here credit_time [OF R t, of B s k] earned_split [of R t "lastTime now cs" now]
    by (cases "k0 = k \<and> a") (auto simp: c run(3) algebra_simps add_divide_distrib)
qed

section \<open>Names of the shared counters\<close>

text \<open>\<^verbatim>\<open>svc.Name + ":" + strconv.Itoa(i)\<close> of \<^verbatim>\<open>buildMux\<close>.\<close>

definition instanceID :: "string \<Rightarrow> nat \<Rightarrow> string" where
  "instanceID svc i = svc @ '':'' @ itoa (int i)"

lemma until_colon:
  assumes "x @ CHR '':'' # u = y @ CHR '':'' # v" "CHR '':'' \<notin> set x" "CHR '':'' \<notin> set y"
  shows "x = y \<and> u = v"
  using assms by (induction x arbitrary: y) (case_tac y; auto)+

lemma instanceID_separates:
  assumes "instanceID svc i @ '':'' @ k = instanceID svc' i' @ '':'' @ k'"
    and "CHR '':'' \<notin> set svc" "CHR '':'' \<notin> set svc'"
  shows "svc = svc' \<and> i = i' \<and> k = k'"
proof -
  have e: "svc @ CHR '':'' # (itoa (int i) @ CHR '':'' # k) = svc' @ CHR '':'' # (itoa (int i') @ CHR '':'' # k')"
    using assms(1) by (simp add: instanceID_def)
  have "svc = svc'" and "itoa (int i) @ CHR '':'' # k = itoa (int i') @ CHR '':'' # k'"
    using until_colon [OF e assms(2,3)] by auto
  then have "itoa (int i) = itoa (int i')" "k = k'"
    using until_colon itoa_no_colon by blast+
  then show ?thesis using \<open>svc = svc'\<close> itoa_inj by blast
qed

section \<open>Special runs\<close>

abbreviation put :: "string \<Rightarrow> f64 \<Rightarrow> instant \<Rightarrow> memoryStore \<Rightarrow> memoryStore" where
  "put k t now s \<equiv> s\<lparr>visitors := (visitors s)(k \<mapsto> \<lparr>tokens = t, lastSeen = now\<rparr>)\<rparr>"

lemma memAllow_new:
  "visitors (countCall now s) k = None \<Longrightarrow> memAllow k rps burst now s = (True, put k (fsub burst fone) now (countCall now s))"
  by (simp add: memAllow_def Let_def)

lemma memAllow_refuse:
  "visitors (countCall now s) k = Some v \<Longrightarrow> flt (refill rps burst now v) fone \<Longrightarrow>
    memAllow k rps burst now s = (False, put k (refill rps burst now v) now (countCall now s))"
  by (simp add: memAllow_def Let_def)

lemma memAllow_grant:
  "visitors (countCall now s) k = Some v \<Longrightarrow> \<not> flt (refill rps burst now v) fone \<Longrightarrow>
    memAllow k rps burst now s = (True, put k (fsub (refill rps burst now v) fone) now (countCall now s))"
  by (simp add: memAllow_def Let_def)

lemma runStore_Cons:
  "allow k rps burst now s = (ok, s') \<Longrightarrow>
    fst (runStore allow rps burst ((k, now) # cs) s) = ok # fst (runStore allow rps burst cs s')"
  by (simp split: prod.splits)

lemma not_stale_now: "lastSeen v = now \<Longrightarrow> \<not> stale now v"
  by (simp add: stale_def)

lemma countCall_keeps: "visitors s k = Some v \<Longrightarrow> \<not> stale now v \<Longrightarrow> visitors (countCall now s) k = Some v"
  using countCall_visitors [of now s k] by auto

lemma refill_now:
  assumes "int m < 9007199254740992" "m \<le> b"
  shows "refill (Fin R) (Fin (of_nat b)) now \<lparr>tokens = Fin (of_nat m), lastSeen = now\<rparr> = Fin (of_nat m)"
proof -
  have "durationSeconds 0 = Fin 0" by (simp add: durationSeconds_def intToF64_def mkF64_def f64_max_def)
  moreover have "mkF64 0 = Fin 0" by (simp add: mkF64_def f64_max_def)
  moreover have "mkF64 (of_nat m) = Fin (of_nat m)" using mkF64_of_int [of "int m"] assms by simp
  ultimately show ?thesis using assms by (simp add: refill_def)
qed

lemma burst_tail:
  assumes "visitors s k = Some \<lparr>tokens = Fin (of_nat m), lastSeen = now\<rparr>" "m \<le> b" "b < 9007199254740992"
  shows "fst (runStore memAllow (Fin R) (Fin (of_nat b)) (replicate n (k, now)) s) =
    replicate (min n m) True @ replicate (n - m) False"
  using assms
proof (induction n arbitrary: s m)
  case (Suc n)
  note IH = Suc.IH and prems = Suc.prems
  let ?c = "countCall now s"
  have c: "visitors ?c k = Some \<lparr>tokens = Fin (of_nat m), lastSeen = now\<rparr>"
    using Suc.prems(1) by (intro countCall_keeps) (simp_all add: not_stale_now)
  have r: "refill (Fin R) (Fin (of_nat b)) now \<lparr>tokens = Fin (of_nat m), lastSeen = now\<rparr> = Fin (of_nat m)"
    using Suc.prems by (intro refill_now) auto
  show ?case
  proof (cases m)
    case 0
    then show ?thesis
      using Suc.IH [of "put k (Fin (of_nat m)) now ?c" 0] Suc.prems runStore_Cons [of memAllow, OF memAllow_refuse [OF c]] r
      by simp
  next
    case (Suc m')
    have "fsub (Fin (of_nat m)) fone = Fin (of_nat m')"
      using mkF64_of_int [of "int m'"] Suc prems by (simp add: fsub_def)
    then show ?thesis
      using IH [of "put k (Fin (of_nat m')) now ?c" m'] Suc prems runStore_Cons [of memAllow, OF memAllow_grant [OF c]] r
      by simp
  qed
qed simp

definition below_one :: "f64 \<Rightarrow> bool" where
  "below_one x \<longleftrightarrow> x = NegInf \<or> (\<exists>q < 1. x = Fin q)"

lemma refill_below_one:
  assumes "0 < R" "R < 1" "lastSeen v \<le> now" "below_one (tokens v)"
  shows "below_one (refill (Fin R) (Fin R) now v)"
proof -
  have "moderate R 1" using assms by (simp add: moderate_def)
  then obtain p where "fmul (durationSeconds (time_sub now (lastSeen v))) (Fin R) = Fin p"
    using product_bound assms(3) by blast
  then show ?thesis
    using assms by (cases "tokens v") (auto simp: refill_def Let_def below_one_def mkF64_def not_less intro: le_less_trans)
qed

lemma locked_out:
  assumes "0 < R" "R < 1" "visitors s k = Some v" "lastSeen v = t" "below_one (tokens v)"
    and "sorted (t # ts)" "\<forall>i < length ts. (t # ts) ! Suc i - (t # ts) ! i \<le> 600000000000"
  shows "fst (runStore memAllow (Fin R) (Fin R) (map (\<lambda>t. (k, t)) ts) s) = replicate (length ts) False"
  using assms(3-7)
proof (induction ts arbitrary: s v t)
  case (Cons now ts)
  have now: "t \<le> now" "now - t \<le> 600000000000" using Cons.prems by auto
  then have "\<not> stale now v" using Cons.prems(2) by (auto simp: stale_def time_sub_def)
  then have c: "visitors (countCall now s) k = Some v" using Cons.prems(1) by (intro countCall_keeps)
  let ?x = "refill (Fin R) (Fin R) now v"
  have x: "below_one ?x" using refill_below_one assms(1,2) now Cons.prems by blast
  then have "flt ?x fone" by (auto simp: below_one_def)
  moreover have "\<forall>i < length ts. (now # ts) ! Suc i - (now # ts) ! i \<le> 600000000000"
    using Cons.prems(5) by auto
  ultimately show ?case
    using Cons.IH [of "put k ?x now (countCall now s)" "\<lparr>tokens = ?x, lastSeen = now\<rparr>" now] x Cons.prems(4)
      runStore_Cons [of memAllow, OF memAllow_refuse [OF c]]
    by simp
qed simp

lemma window_tail:
  assumes "\<forall>h. incrOracle db h k = Inr (1 + int (length (filter (\<lambda>c. c = IncrCall k) h)))"
    and "\<forall>h. \<exists>b. expireOracle db h k 1 = Inr b"
    and "length (filter (\<lambda>c. c = IncrCall k) (dbCalls db)) = m"
  shows "fst (runStore sugarAllow rps burst (replicate n (k, now)) db) =
    replicate (min n (nat (windowLimit burst) - m)) True @ replicate (n - (nat (windowLimit burst) - m)) False"
  using assms
proof (induction n arbitrary: db m)
  case (Suc n)
  obtain db' where db': "sugarAllow k rps burst now db = (1 + int m \<le> windowLimit burst, db')"
    "length (filter (\<lambda>c. c = IncrCall k) (dbCalls db')) = Suc m" "incrOracle db' = incrOracle db" "expireOracle db' = expireOracle db"
  proof -
    obtain b where "expireOracle db (dbCalls db @ [IncrCall k]) k 1 = Inr b" using Suc.prems(2) by blast
    then show thesis
      using that Suc.prems by (cases "m = 0") (simp_all add: sugarAllow_def Let_def dbIncr_def dbExpire_def)
  qed
  have ih: "fst (runStore sugarAllow rps burst (replicate n (k, now)) db') =
      replicate (min n (nat (windowLimit burst) - Suc m)) True @ replicate (n - (nat (windowLimit burst) - Suc m)) False"
    using Suc.prems db'(2-4) by (intro Suc.IH) simp_all
  show ?case
  proof (cases "1 + int m \<le> windowLimit burst")
    case True
    then have "min (Suc n) (nat (windowLimit burst) - m) = Suc (min n (nat (windowLimit burst) - Suc m))"
      "Suc n - (nat (windowLimit burst) - m) = n - (nat (windowLimit burst) - Suc m)" by auto
    then show ?thesis using ih runStore_Cons [of sugarAllow, OF db'(1)] True by simp
  next
    case False
    then have "nat (windowLimit burst) - m = 0" by simp
    then show ?thesis using ih runStore_Cons [of sugarAllow, OF db'(1)] False by simp
  qed
qed simp

section \<open>Properties\<close>

text \<open>
  The token bucket enforces its rate over every window: whatever calls were made before, and
  however the calls of other clients interleave, the requests of one client admitted in a window of
  calls number at most the burst plus the rate times the length of the window, plus two
  thousand-millionths of a request per call for the rounding of the floating-point arithmetic. The
  burst must be refillable in the ten minutes after which an idle bucket is dropped.
\<close>

lemma rate_limit_over_window:
  assumes "moderate R B" "B \<le> 600 * R" "sorted (map snd (before @ (k1, t1) # window))"
    and "runStore memAllow (Fin R) (Fin B) before newMemoryStore = (oks, s)"
    and "runStore memAllow (Fin R) (Fin B) ((k1, t1) # window) s = (decisions, s')"
  shows "of_nat (granted k ((k1, t1) # window) decisions) \<le>
    B + R * (of_int (lastTime t1 window - t1) / 10 ^ 9) + of_nat (Suc (length window)) * (2 / 10 ^ 9)"
proof -
  let ?t0 = "Min (insert t1 (snd ` set before))"
  have s: "sorted (map snd before)" "sorted (map snd ((k1, t1) # window))" "\<forall>c \<in> set before. snd c \<le> t1"
    using assms(3) by (auto simp: sorted_append)
  have "\<forall>c \<in> set before. ?t0 \<le> snd c" by simp
  then have "store_ok B (lastTime ?t0 before) s"
    using run_credit [OF assms(1,2) store_ok_new s(1) _ assms(4)] by blast
  moreover have "lastTime ?t0 before \<le> t1" using s(3) by (intro lastTime_le) simp_all
  ultimately have "store_ok B t1 s" by (rule store_ok_mono)
  then show ?thesis
    using run_credit [OF assms(1,2) _ s(2) _ assms(5), of t1 k] s(2)
      credit_le_burst [of R B s k t1] credit_nonneg [OF assms(1), of "lastTime t1 window" s' k]
    by (auto simp: earned_def)
qed

text \<open>
  At one instant a client that is new to the store gets exactly its burst: for a burst of \<open>b\<close>,
  the first \<open>b\<close> of \<open>n\<close> simultaneous requests are admitted and the others refused.
\<close>

lemma burst_admitted_exactly:
  assumes "visitors s k = None" "1 \<le> b" "b < 9007199254740992"
  shows "fst (runStore memAllow (Fin R) (Fin (of_nat b)) (replicate n (k, now)) s) =
    replicate (min n b) True @ replicate (n - b) False"
proof (cases n)
  case (Suc n')
  have c: "visitors (countCall now s) k = None" using countCall_visitors [of now s k] assms(1) by auto
  have f: "fsub (Fin (of_nat b)) fone = Fin (of_nat (b - 1))"
    using mkF64_of_int [of "int (b - 1)"] assms by (simp add: fsub_def of_nat_diff)
  let ?s = "put k (Fin (of_nat (b - 1))) now (countCall now s)"
  have "fst (runStore memAllow (Fin R) (Fin (of_nat b)) (replicate n' (k, now)) ?s) =
      replicate (min n' (b - 1)) True @ replicate (n' - (b - 1)) False"
    using assms by (intro burst_tail) simp_all
  moreover have "min n b = Suc (min n' (b - 1))" "n - b = n' - (b - 1)" using Suc assms by auto
  ultimately show ?thesis
    using Suc f runStore_Cons [of memAllow, OF memAllow_new [OF c]] by simp
qed simp

text \<open>
  C38: In the in-memory mode, a rate below one per second without a burst, which the constructor accepts,
  does not slow a client down but locks it out: of any sequence of requests of a client the limiter does not
  know yet, without a pause of more than ten minutes, only the first is admitted.
\<close>

theorem rate_below_one_locks_out:
  assumes "0 < R" "R < 1" "visitors s k = None"
    and "sorted ts" "\<forall>i < length ts - 1. ts ! Suc i - ts ! i \<le> 600000000000"
  shows "rateAndBurst [(''requests_per_second'', YFloat (Fin R))] = Inr (Fin R, Fin R) \<and>
    (ts \<noteq> [] \<longrightarrow> fst (runStore memAllow (Fin R) (Fin R) (map (\<lambda>t. (k, t)) ts) s) = True # replicate (length ts - 1) False)"
proof (intro conjI impI)
  show "rateAndBurst [(''requests_per_second'', YFloat (Fin R))] = Inr (Fin R, Fin R)"
    using assms by (simp add: rateAndBurst_def toFloat64_def fle_def)
  assume "ts \<noteq> []"
  then obtain t ts' where ts: "ts = t # ts'" by (cases ts) auto
  have c: "visitors (countCall t s) k = None" using countCall_visitors [of t s k] assms(3) by auto
  have no_inf: "below_one (fsub (Fin R) fone)"
    using rnd_nonpos [of "R - 1"] assms(2) by (auto simp: fsub_def mkF64_def Let_def below_one_def f64_max_def)
  let ?s = "put k (fsub (Fin R) fone) t (countCall t s)"
  have "fst (runStore memAllow (Fin R) (Fin R) (map (\<lambda>t. (k, t)) ts') ?s) = replicate (length ts') False"
    using assms(1,2,4,5) no_inf by (intro locked_out [where t = t and v = "\<lparr>tokens = fsub (Fin R) fone, lastSeen = t\<rparr>"]) (simp_all add: ts)
  then show "fst (runStore memAllow (Fin R) (Fin R) (map (\<lambda>t. (k, t)) ts) s) = True # replicate (length ts - 1) False"
    using runStore_Cons [of memAllow, OF memAllow_new [OF c]] by (simp add: ts)
qed

text \<open>
  In distributed mode, when SugarDB counts the increments of a key that has not expired, the
  requests of a window are admitted up to the burst (rounded down, at least one) and refused
  beyond it.
\<close>

lemma window_counter_exact:
  assumes counts: "\<forall>h. incrOracle db h k = Inr (1 + int (length (filter (\<lambda>c. c = IncrCall k) h)))"
    and expires: "\<forall>h. \<exists>b. expireOracle db h k 1 = Inr b"
    and "IncrCall k \<notin> set (dbCalls db)"
  shows "fst (runStore sugarAllow rps burst (replicate n (k, now)) db) =
    replicate (min n (nat (windowLimit burst))) True @ replicate (n - nat (windowLimit burst)) False"
proof -
  have "fst (runStore sugarAllow rps burst (replicate n (k, now)) db) =
      replicate (min n (nat (windowLimit burst) - 0)) True @ replicate (n - (nat (windowLimit burst) - 0)) False"
    using assms by (intro window_tail) (auto simp: filter_empty_conv)
  then show ?thesis by simp
qed

text \<open>
  Two \<open>rate_limiting\<close> declarations in distributed mode never share a counter: as long as service
  names contain no colon, a request charged to one declaration issues no command on any key of
  another.
\<close>

lemma declarations_do_not_share_counters:
  assumes "CHR '':'' \<notin> set svc" "CHR '':'' \<notin> set svc'" "(svc, i) \<noteq> (svc', i')"
  shows "key_calls (snd (namespacedAllow (instanceID svc i) sugarAllow k rps burst now db)) (instanceID svc' i' @ '':'' @ k') =
    key_calls db (instanceID svc' i' @ '':'' @ k')"
proof -
  have "instanceID svc' i' @ '':'' @ k' \<noteq> instanceID svc i @ '':'' @ k"
    using instanceID_separates [of svc' i' k' svc i k] assms by auto
  then show ?thesis unfolding namespacedAllow_def by (rule sugarAllow_other)
qed

text \<open>
  Why buckets must refill within ten minutes: the sweep drops an idle one, however empty, and the
  client's next request finds a full burst. With a rate of 0.01 and a burst of 100 a bucket that was empty
  holds six tokens by then.
\<close>

lemma sweep_grants_burst:
  assumes "visitors s k = Some v" "stale now v" "(calls s + 1) mod sweepEvery = 0"
  shows "fst (memAllow k rps burst now s) \<and> visitors (snd (memAllow k rps burst now s)) k = Some \<lparr>tokens = burst - 1, lastSeen = now\<rparr>"
  using assms by (simp add: memAllow_def countCall_def sweepLocked_def Let_def)

text \<open>
  The bucket of a client is out of reach of the other clients of the same store: whatever they
  request, it stays as it is, or it is dropped after having been idle for more than ten minutes.
\<close>

lemma clients_are_isolated:
  assumes "k \<notin> fst ` set cs"
  shows "visitors (snd (runStore memAllow rps burst cs s)) k = visitors s k \<or>
    (\<exists>t \<in> snd ` set cs. \<exists>v. visitors s k = Some v \<and> staleAfter < time_sub t (lastSeen v) \<and>
       visitors (snd (runStore memAllow rps burst cs s)) k = None)"
proof -
  have "snd (runStore memAllow rps burst cs s) = mem.serve rps burst cs s"
    by (simp add: mem.serve_def snd_runStore)
  then show ?thesis
    using mem.others_do_not_interfere [OF assms, of rps burst s] by (auto simp: mem_forgets_def stale_def)
qed

section \<open>Witnesses\<close>

theorem rate_below_one_locks_out_witness:
  "fst (runStore memAllow (Fin (1/2)) (Fin (1/2)) [(''a'', 0), (''a'', 300000000000), (''a'', 700000000000)] newMemoryStore) =
    [True, False, False]"
  using rate_below_one_locks_out [of "1/2" newMemoryStore "''a''" "[0, 300000000000, 700000000000]"]
  by (simp add: newMemoryStore_def less_Suc_eq eval_nat_numeral)

definition demo_db :: sugar_db where
  "demo_db = \<lparr>dbCalls = [], incrOracle = (\<lambda>h k. Inr (1 + int (length (filter (\<lambda>c. c = IncrCall k) h)))),
     expireOracle = (\<lambda>h k secs. Inr True)\<rparr>"

end
