(* ===== verification/Tracing.thy ===== *)
theory Tracing
  imports Rate_Limiting
begin

text \<open>
  Package \<^verbatim>\<open>tracing\<close>: the request id middleware (\<^verbatim>\<open>requestid.go\<close>) and the span
  middleware (\<^verbatim>\<open>otel.go\<close>). The operating system's random source is an arbitrary sequence of
  results; the OpenTelemetry SDK is a parameter that says which \<^verbatim>\<open>traceparent\<close> a started
  span has, none for the no-op provider.
\<close>

section \<open>State\<close>

record span =
  spanName :: string
  spanAttrs :: "(string \<times> string) list"
  spanEnded :: bool

record trace_world = plugin_world +
  cryptoOracle :: "nat \<Rightarrow> string option" \<comment> \<open>what the \<open>n\<close>-th \<^verbatim>\<open>rand.Read\<close> of 16 bytes yields\<close>
  cryptoCount :: nat
  spans :: "span list"

definition headerName :: string where
  "headerName = ''X-Request-Id''"

section \<open>Request ids\<close>

definition hexDigit :: "nat \<Rightarrow> char" where
  "hexDigit n = (if n < 10 then char_of (48 + n) else char_of (87 + n))"

definition hexEncode :: "string \<Rightarrow> string" where
  "hexEncode bs = concat (map (\<lambda>c. [hexDigit (of_char c div 16), hexDigit (of_char c mod 16)]) bs)"

definition newID :: "'a trace_world_scheme \<Rightarrow> string \<times> 'a trace_world_scheme" where
  "newID s = ((case cryptoOracle s (cryptoCount s) of None \<Rightarrow> [] | Some b \<Rightarrow> hexEncode b),
              s\<lparr>cryptoCount := Suc (cryptoCount s)\<rparr>)"

definition tracingMiddleware :: "bool \<Rightarrow> 'a trace_world_scheme handler \<Rightarrow> 'a trace_world_scheme handler" where
  "tracingMiddleware trustInbound nxt w r s =
     (let inbound = hGet (reqHeader r) headerName;
          id = (if trustInbound then inbound else []);
          (id, s) = (if id = [] then newID s else (id, s));
          w = mapHeader (hSet headerName id) w;
          r = r\<lparr>ctxRequestID := Some id, ctxInboundID := Some inbound\<rparr>;
          r = r\<lparr>reqHeader := hSet headerName id (reqHeader r)\<rparr>
      in nxt w r s)"

definition preserveInbound :: "'w handler \<Rightarrow> 'w handler" where
  "preserveInbound nxt w r s =
     (let inbound = (case ctxInboundID r of None \<Rightarrow> [] | Some i \<Rightarrow> i);
          r = (if inbound \<noteq> [] then r\<lparr>reqHeader := hSet headerName inbound (reqHeader r)\<rparr> else r)
      in nxt w r s)"

definition fromContext :: "request \<Rightarrow> string" where
  "fromContext r = (case ctxRequestID r of None \<Rightarrow> [] | Some i \<Rightarrow> i)"

section \<open>Spans\<close>

text \<open>
  \<^verbatim>\<open>NewTracerProvider\<close>, with what building the exporter and the resource returned:
  \<open>Inr False\<close> is the nil provider of a gateway without tracing.
\<close>

definition newTracerProvider :: "(string \<Rightarrow> string option) \<Rightarrow> (string \<Rightarrow> string option) \<Rightarrow> string \<Rightarrow> string \<Rightarrow> string + bool" where
  "newTracerProvider newExporter newResource otlpEndpoint serviceName =
     (if otlpEndpoint = [] then Inr False
      else case newExporter otlpEndpoint of
             Some e \<Rightarrow> Inl (''tracing: build OTLP exporter: '' @ e)
           | None \<Rightarrow> (case newResource serviceName of
                        Some e \<Rightarrow> Inl (''tracing: build resource: '' @ e)
                      | None \<Rightarrow> Inr True))"

definition endSpan :: "nat \<Rightarrow> 'a trace_world_scheme \<Rightarrow> 'a trace_world_scheme" where
  "endSpan i s = s\<lparr>spans := (spans s)[i := (spans s ! i)\<lparr>spanEnded := True\<rparr>]\<rparr>"

fun map_world :: "('w \<Rightarrow> 'w) \<Rightarrow> 'w hres \<Rightarrow> 'w hres" where
  "map_world f (Done w s) = Done w (f s)"
| "map_world f (Panicked w s) = Panicked w (f s)"

text \<open>The deferred \<^verbatim>\<open>span.End()\<close> also runs when the handler panics.\<close>

definition spanMiddleware :: "(string \<Rightarrow> nat \<Rightarrow> string option) \<Rightarrow> 'a trace_world_scheme handler \<Rightarrow> 'a trace_world_scheme handler" where
  "spanMiddleware startSpan nxt w r s =
     (let name = reqMethod r @ '' '' @ urlPath r;
          i = length (spans s);
          attrs = [(''http.method'', reqMethod r), (''http.path'', urlPath r)] @
            (if fromContext r \<noteq> [] then [(''request.id'', fromContext r)] else []);
          s = s\<lparr>spans := spans s @ [\<lparr>spanName = name, spanAttrs = attrs, spanEnded = False\<rparr>]\<rparr>;
          r = r\<lparr>ctxSpan := startSpan name i\<rparr>
      in map_world (endSpan i) (nxt w r s))"

section \<open>Middlewares\<close>

lemma map_world_simps [simp]:
  "writer_of (map_world f x) = writer_of x"
  "world_of (map_world f x) = f (world_of x)"
  "map_world f x = Done w s \<longleftrightarrow> (\<exists>s0. x = Done w s0 \<and> s = f s0)"
  by (cases x; auto)+

interpretation tracing_mw: middleware "tracingMiddleware trust" for trust
proof
  fix h :: "'a trace_world_scheme handler"
  assume h: "handler_ok h"
  have d: "h (mapHeader f w) r s = Done w' s' \<Longrightarrow> fresh w \<Longrightarrow> settled w'" for f w r s w' s'
    using handler_ok_settled [OF h, of "mapHeader f w"] by simp
  show "handler_ok (tracingMiddleware trust h)"
    by (rule handler_okI) (auto simp: tracingMiddleware_def Let_def handler_ok_shape [OF h]
        dest: d split: if_splits prod.splits)
qed

interpretation preserve_mw: middleware preserveInbound
proof
  fix h :: "'a handler"
  assume h: "handler_ok h"
  show "handler_ok (preserveInbound h)"
    by (rule handler_okI) (auto simp: preserveInbound_def Let_def handler_ok_shape [OF h] dest: handler_ok_settled [OF h])
qed

interpretation span_mw: middleware "spanMiddleware startSpan" for startSpan
proof
  fix h :: "'a trace_world_scheme handler"
  assume h: "handler_ok h"
  show "handler_ok (spanMiddleware startSpan h)"
    by (rule handler_okI) (auto simp: spanMiddleware_def Let_def handler_ok_shape [OF h] dest: handler_ok_settled [OF h])
qed

section \<open>Hexadecimal encoding\<close>

lemma hexDigit_props: "n < 16 \<Longrightarrow> is_hex (hexDigit n) \<and> hex_val (hexDigit n) = int n \<and> \<not> ascii_upper (hexDigit n)"
proof -
  assume "n < 16"
  then have "n \<in> set [0..<16]" by simp
  moreover have "list_all (\<lambda>n. is_hex (hexDigit n) \<and> hex_val (hexDigit n) = int n \<and> \<not> ascii_upper (hexDigit n)) [0..<16]"
    by code_simp
  ultimately show ?thesis unfolding list_all_iff by blast
qed

lemma hexDigit_inj: "m < 16 \<Longrightarrow> n < 16 \<Longrightarrow> hexDigit m = hexDigit n \<Longrightarrow> m = n"
  by (metis hexDigit_props of_nat_eq_iff)

lemma hexEncode_simps [simp]:
  "hexEncode [] = []"
  "hexEncode (c # cs) = hexDigit (of_char c div 16) # hexDigit (of_char c mod 16) # hexEncode cs"
  by (simp_all add: hexEncode_def)

lemma nibbles: "(of_char (c :: char) :: nat) div 16 < 16" "(of_char c :: nat) mod 16 < 16"
  by (simp_all add: less_mult_imp_div_less)

lemma hexEncode_inj: "hexEncode a = hexEncode b \<Longrightarrow> a = b"
proof (induction a arbitrary: b)
  case Nil
  then show ?case by (cases b) auto
next
  case (Cons c cs)
  then obtain d ds where b: "b = d # ds" by (cases b) auto
  then have "of_char c div 16 = (of_char d div 16 :: nat)" "of_char c mod 16 = (of_char d mod 16 :: nat)"
    using Cons.prems hexDigit_inj nibbles by auto
  then have "of_char c = (of_char d :: nat)" by (metis div_mult_mod_eq)
  then show ?case using Cons b by simp
qed

section \<open>Properties\<close>

lemma canonical_headerName [simp]: "canonicalKey headerName = headerName"
  unfolding headerName_def by code_simp

text \<open>
  C27: Unless inbound ids are trusted, no client chooses the id its request is known under: whatever
  headers it sends, the id in the response header and in the request's context is the gateway's own, and
  it is the only one in the \<^verbatim>\<open>X-Request-Id\<close> header of the request passed on. Only where a service
  asks for the inbound id to be preserved, and the client sent one, does that header, and nothing else,
  carry the client's value.
\<close>

theorem request_id_not_client_chosen:
  assumes "newID s = (reqID, s1)"
  shows "\<exists>w' r'. tracingMiddleware False (if preserved then preserveInbound nxt else nxt) w (r\<lparr>reqHeader := h\<rparr>) s = nxt w' r' s1 \<and>
    hValues (hdr (base_of w')) headerName = [reqID] \<and> fromContext r' = reqID \<and>
    hValues (reqHeader r') headerName = [if preserved \<and> hGet h headerName \<noteq> [] then hGet h headerName else reqID]"
proof -
  let ?h = "hSet headerName reqID h" and ?in = "hGet h headerName"
  let ?r = "r\<lparr>ctxRequestID := Some reqID, ctxInboundID := Some ?in,
      reqHeader := if preserved \<and> ?in \<noteq> [] then hSet headerName ?in ?h else ?h\<rparr>"
  let ?w = "mapHeader (hSet headerName reqID) w"
  have "tracingMiddleware False (if preserved then preserveInbound nxt else nxt) w (r\<lparr>reqHeader := h\<rparr>) s = nxt ?w ?r s1"
    using assms by (simp add: tracingMiddleware_def preserveInbound_def Let_def)
  moreover have "hValues (hdr (base_of ?w)) headerName = [reqID]" "fromContext ?r = reqID"
    "hValues (reqHeader ?r) headerName = [if preserved \<and> ?in \<noteq> [] then ?in else reqID]"
    by (simp_all add: header_laws fromContext_def)
  ultimately show ?thesis by blast
qed

text \<open>
  A generated id is 32 lower-case hexadecimal digits whenever the random source delivers, and
  different random bytes give different ids.
\<close>

lemma generated_ids:
  assumes "cryptoOracle s (cryptoCount s) = Some b" "cryptoOracle s' (cryptoCount s') = Some b'"
    and "length b = 16"
  shows "length (fst (newID s)) = 32 \<and> (\<forall>c \<in> set (fst (newID s)). is_hex c \<and> \<not> ascii_upper c) \<and>
    (fst (newID s) = fst (newID s') \<longleftrightarrow> b = b')"
proof -
  have len: "length (hexEncode b) = 2 * length b" by (induction b) auto
  have "\<forall>c \<in> set (hexEncode b). is_hex c \<and> \<not> ascii_upper c"
    using hexDigit_props nibbles by (induction b) auto
  then show ?thesis using assms len hexEncode_inj by (auto simp: newID_def)
qed

section \<open>Witnesses\<close>

definition demo_trace_world :: trace_world where
  "demo_trace_world = \<lparr>clock = 100, netOracle = (\<lambda>n r. (Inr demo_response, 3)), netCalls = [], sleeps = [],
     randOracle = (\<lambda>n. 7), randCount = 0, stores = (\<lambda>_. newMemoryStore), nextStore = 0, sugar = demo_db,
     sugarSetup = None, cryptoOracle = (\<lambda>n. Some (replicate 16 (char_of n))), cryptoCount = 0, spans = []\<rparr>"

theorem request_id_not_client_chosen_witness:
  "\<exists>w' r'. tracingMiddleware False (demo_answer ''ok'') demo_writer
      (demo_request\<lparr>reqHeader := [headerName \<mapsto> [''spoofed'']]\<rparr>) demo_trace_world =
      demo_answer ''ok'' w' r' (snd (newID demo_trace_world)) \<and>
    fromContext r' = fst (newID demo_trace_world) \<and> hValues (reqHeader r') headerName = [fst (newID demo_trace_world)]"
proof -
  have "newID demo_trace_world = (fst (newID demo_trace_world), snd (newID demo_trace_world))" by simp
  from request_id_not_client_chosen [OF this, where h = "[headerName \<mapsto> [''spoofed'']]" and nxt = "demo_answer ''ok''"
      and w = demo_writer and r = demo_request and preserved = False]
  show ?thesis by auto
qed

end
