(* ===== verification/Http_Log.thy ===== *)
theory Http_Log
  imports Tracing
begin

text \<open>
  The \<open>http_log\<close> plugin (\<^verbatim>\<open>http_log.go\<close>): each instance writes lines through a
  \<^verbatim>\<open>bufio.Writer\<close> of 4096 bytes to standard output. A write to standard output may fail
  after some of its bytes; a \<^verbatim>\<open>bufio.Writer\<close> keeps its first error for good. The text of a
  time stamp depends on the process's time zone and is a parameter.
\<close>

section \<open>Standard output\<close>

record sink =
  written :: string
  writeCount :: nat
  writeFails :: "nat \<Rightarrow> nat option" \<comment> \<open>the \<open>n\<close>-th write fails after this many bytes\<close>

text \<open>The number of bytes accepted, and whether the write failed.\<close>

definition sinkWrite :: "string \<Rightarrow> sink \<Rightarrow> nat \<times> bool \<times> sink" where
  "sinkWrite p k =
     (case writeFails k (writeCount k) of
        None \<Rightarrow> (length p, False, k\<lparr>written := written k @ p, writeCount := Suc (writeCount k)\<rparr>)
      | Some m \<Rightarrow> (min m (length p), True, k\<lparr>written := written k @ take m p, writeCount := Suc (writeCount k)\<rparr>))"

section \<open>Buffered writing\<close>

record bufWriter =
  pending :: string
  failed :: bool

definition bufSize :: nat where
  "bufSize = 4096"

definition newBufWriter :: bufWriter where
  "newBufWriter = \<lparr>pending = [], failed = False\<rparr>"

definition bufFlush :: "bufWriter \<times> sink \<Rightarrow> bufWriter \<times> sink" where
  "bufFlush bk =
     (case bk of (b, k) \<Rightarrow>
        if failed b \<or> pending b = [] then (b, k)
        else case sinkWrite (pending b) k of
               (n, True, k) \<Rightarrow> (b\<lparr>pending := drop n (pending b), failed := True\<rparr>, k)
             | (n, False, k) \<Rightarrow> (b\<lparr>pending := []\<rparr>, k))"

text \<open>
  \<^verbatim>\<open>WriteString\<close>: as long as the text does not fit, an empty buffer is bypassed and a
  partly filled one is filled and flushed.
\<close>

function bufWriteString :: "string \<Rightarrow> bufWriter \<times> sink \<Rightarrow> bufWriter \<times> sink" where
  "bufWriteString s (b, k) =
     (if bufSize - length (pending b) < length s \<and> \<not> failed b then
        (if pending b = [] then
           (case sinkWrite s k of (n, e, k) \<Rightarrow> bufWriteString (drop n s) (b\<lparr>failed := e\<rparr>, k))
         else
           let n = bufSize - length (pending b)
           in bufWriteString (drop n s) (bufFlush (b\<lparr>pending := pending b @ take n s\<rparr>, k)))
      else if failed b then (b, k)
      else (b\<lparr>pending := pending b @ s\<rparr>, k))"
  by pat_completeness auto
termination
  by (relation "measure (\<lambda>(s, b, k). if failed b then 0 else Suc (length s + length (pending b)))")
    (auto simp: sinkWrite_def bufFlush_def bufSize_def split: option.splits if_splits)

declare bufWriteString.simps [simp del]

definition bufWriteByte :: "char \<Rightarrow> bufWriter \<times> sink \<Rightarrow> bufWriter \<times> sink" where
  "bufWriteByte c bk =
     (case bk of (b, k) \<Rightarrow>
        if failed b then (b, k)
        else let (b, k) = (if bufSize \<le> length (pending b) then bufFlush (b, k) else (b, k))
             in if failed b then (b, k) else (b\<lparr>pending := pending b @ [c]\<rparr>, k))"

section \<open>The plugin\<close>

record log_world = trace_world +
  logBufs :: "nat \<Rightarrow> bufWriter"
  nextLog :: nat
  stdout :: sink

definition logWrites :: "string \<Rightarrow> string \<Rightarrow> string \<Rightarrow> string \<Rightarrow> bufWriter \<times> sink \<Rightarrow> bufWriter \<times> sink" where
  "logWrites stamp method path requestID bk =
     (let bk = bufWriteString stamp bk;
          bk = bufWriteByte CHR '' '' bk;
          bk = bufWriteString method bk;
          bk = bufWriteByte CHR '' '' bk;
          bk = bufWriteString path bk;
          bk = (if requestID \<noteq> [] then bufWriteString requestID (bufWriteString '' request_id='' bk) else bk)
      in bufWriteByte (CHR 10) bk)"

definition onLog :: "nat \<Rightarrow> (bufWriter \<times> sink \<Rightarrow> bufWriter \<times> sink) \<Rightarrow> 'a log_world_scheme \<Rightarrow> 'a log_world_scheme" where
  "onLog i f s = (let (b, k) = f (logBufs s i, stdout s) in s\<lparr>logBufs := (logBufs s)(i := b), stdout := k\<rparr>)"

definition newHTTPLog :: "'a log_world_scheme \<Rightarrow> nat \<times> 'a log_world_scheme" where
  "newHTTPLog s = (nextLog s, s\<lparr>logBufs := (logBufs s)(nextLog s := newBufWriter), nextLog := Suc (nextLog s)\<rparr>)"

definition httpLogWrap :: "(instant \<Rightarrow> string) \<Rightarrow> nat \<Rightarrow> 'a log_world_scheme handler \<Rightarrow> 'a log_world_scheme handler" where
  "httpLogWrap formatTime i nxt w r s =
     nxt w r (onLog i (logWrites (formatTime (clock s)) (reqMethod r) (urlPath r) (fromContext r)) s)"

text \<open>\<^verbatim>\<open>httpLog.Flush\<close>.\<close>

definition logFlush :: "nat \<Rightarrow> 'a log_world_scheme \<Rightarrow> 'a log_world_scheme" where
  "logFlush i s = onLog i bufFlush s"

interpretation http_log_mw: middleware "httpLogWrap fmt i" for fmt i
proof
  fix h :: "'a log_world_scheme handler"
  assume h: "handler_ok h"
  show "handler_ok (httpLogWrap fmt i h)"
    by (rule handler_okI) (auto simp: httpLogWrap_def handler_ok_shape [OF h] dest: handler_ok_settled [OF h])
qed

section \<open>Nothing is lost or reordered\<close>

definition healthy :: "bufWriter \<times> sink \<Rightarrow> bool" where
  "healthy bk \<longleftrightarrow> \<not> failed (fst bk) \<and> (\<forall>n. writeFails (snd bk) n = None)"

definition logged :: "bufWriter \<times> sink \<Rightarrow> string" where
  "logged bk = written (snd bk) @ pending (fst bk)"

lemma bufFlush_output:
  "healthy bk \<Longrightarrow> healthy (bufFlush bk) \<and> logged (bufFlush bk) = logged bk \<and> pending (fst (bufFlush bk)) = []"
  by (cases bk) (auto simp: healthy_def logged_def bufFlush_def sinkWrite_def)

lemma bufWriteString_empty [simp]: "bufWriteString [] (b, k) = (b, k)"
  by (simp add: bufWriteString.simps)

lemma bufWriteString_output:
  "healthy bk \<Longrightarrow> healthy (bufWriteString s bk) \<and> logged (bufWriteString s bk) = logged bk @ s"
proof (induction s bk rule: bufWriteString.induct)
  case (1 s b k)
  let ?n = "bufSize - length (pending b)"
  consider "\<not> ?n < length s" | "?n < length s" "pending b = []" | "?n < length s" "pending b \<noteq> []" by blast
  then show ?case
  proof cases
    case 1
    then show ?thesis using "1.prems" by (simp add: bufWriteString.simps [of s b k] healthy_def logged_def)
  next
    case 2
    then show ?thesis
      using "1.prems" by (simp add: bufWriteString.simps [of s b k] healthy_def logged_def sinkWrite_def)
  next
    case 3
    let ?bk = "(b\<lparr>pending := pending b @ take ?n s\<rparr>, k)"
    have "healthy ?bk" "logged ?bk = logged (b, k) @ take ?n s"
      using "1.prems" by (simp_all add: healthy_def logged_def)
    then show ?thesis
      using 3 "1.IH"(2) [OF _ 3(2) refl] bufFlush_output [of ?bk] "1.prems"
      by (simp add: bufWriteString.simps [of s b k] healthy_def Let_def)
  qed
qed

lemma bufWriteByte_output:
  assumes "healthy bk"
  shows "healthy (bufWriteByte c bk) \<and> logged (bufWriteByte c bk) = logged bk @ [c]"
proof -
  obtain b k where bk: "bk = (b, k)" by (cases bk)
  obtain b' k' where f: "bufFlush (b, k) = (b', k')" by (cases "bufFlush (b, k)")
  show ?thesis
    using assms bufFlush_output [of "(b, k)"]
    by (auto simp: bk f bufWriteByte_def healthy_def logged_def)
qed

definition logLine :: "string \<Rightarrow> string \<Rightarrow> string \<Rightarrow> string \<Rightarrow> string" where
  "logLine stamp method path requestID =
     stamp @ '' '' @ method @ '' '' @ path @ (if requestID \<noteq> [] then '' request_id='' @ requestID else []) @ [CHR 10]"

lemma logWrites_output:
  "healthy bk \<Longrightarrow> healthy (logWrites st m p rid bk) \<and> logged (logWrites st m p rid bk) = logged bk @ logLine st m p rid"
  by (simp add: logWrites_def logLine_def Let_def bufWriteString_output bufWriteByte_output)

section \<open>Properties\<close>

text \<open>
  C28: While standard output accepts what is written to it and one \<open>http_log\<close> instance alone writes to
  it, every request it logs appears as one whole line, in the order of the requests, however the lines
  straddle its buffer; a flush leaves nothing behind in the buffer.
\<close>

theorem log_lines_complete:
  assumes "healthy bk"
  shows "logged (fold (\<lambda>(st, m, p, rid). logWrites st m p rid) rs bk) =
      logged bk @ concat (map (\<lambda>(st, m, p, rid). logLine st m p rid) rs) \<and>
    written (snd (bufFlush (fold (\<lambda>(st, m, p, rid). logWrites st m p rid) rs bk))) =
      logged bk @ concat (map (\<lambda>(st, m, p, rid). logLine st m p rid) rs)"
proof -
  have "healthy (fold (\<lambda>(st, m, p, rid). logWrites st m p rid) rs bk) \<and>
    logged (fold (\<lambda>(st, m, p, rid). logWrites st m p rid) rs bk) =
      logged bk @ concat (map (\<lambda>(st, m, p, rid). logLine st m p rid) rs)"
    using assms
  proof (induction rs arbitrary: bk)
    case (Cons r rs)
    obtain st m p rid where r: "r = (st, m, p, rid)" by (cases r)
    show ?case
      using Cons.IH [of "logWrites st m p rid bk"] logWrites_output [OF Cons.prems, of st m p rid]
      by (simp add: r)
  qed simp
  then show ?thesis
    using bufFlush_output [of "fold (\<lambda>(st, m, p, rid). logWrites st m p rid) rs bk"] by (auto simp: logged_def)
qed

section \<open>Witnesses\<close>

definition demo_sink :: sink where
  "demo_sink = \<lparr>written = [], writeCount = 0, writeFails = (\<lambda>_. None)\<rparr>"

theorem log_lines_complete_witness:
  "written (snd (bufFlush (logWrites ''12:00'' ''GET'' ''/a'' ''7f'' (newBufWriter, demo_sink)))) =
    ''12:00 GET /a request_id=7f'' @ [CHR 10]"
  using log_lines_complete [of "(newBufWriter, demo_sink)" "[(''12:00'', ''GET'', ''/a'', ''7f'')]"]
  by (simp add: healthy_def newBufWriter_def demo_sink_def logged_def logLine_def)

end
