(* ===== verification/Registry.thy ===== *)
theory Registry
  imports Http_Log
begin

text \<open>
  The plugin registry (\<^verbatim>\<open>registry.go\<close>): a plugin instance is a value of \<open>plugin\<close>,
  \<open>buildPlugin\<close> is \<^verbatim>\<open>plugin.Build\<close> and \<open>pluginWrap\<close> dispatches to the
  \<^verbatim>\<open>Wrap\<close> method of an instance.
\<close>

section \<open>Plugins\<close>

datatype plugin =
    AddHeader "(string \<times> string) list"
  | HttpLog nat
  | RequestSizeLimiting int
  | JwtAuth string
  | Cors cors
  | ResponseHeaders responseHeaders
  | RateLimiting rateLimiting

definition lift :: "('b \<Rightarrow> plugin) \<Rightarrow> plugin_error + 'b \<Rightarrow> 'w \<Rightarrow> (plugin_error + plugin) \<times> 'w" where
  "lift c res s = (bindE res (\<lambda>x. Inr (c x)), s)"

definition buildPlugin ::
  "platform \<Rightarrow> string \<Rightarrow> cfgmap \<Rightarrow> string \<Rightarrow> 'a log_world_scheme \<Rightarrow> (plugin_error + plugin) \<times> 'a log_world_scheme" where
  "buildPlugin pf name cfg instID s =
     (if name = ''rate_limiting'' then
        (let (res, s) = newRateLimiting pf cfg instID s in lift RateLimiting res s)
      else if name = ''add_header'' then lift AddHeader (newAddHeader cfg) s
      else if name = ''http_log'' then (let (i, s) = newHTTPLog s in (Inr (HttpLog i), s))
      else if name = ''request_size_limiting'' then lift RequestSizeLimiting (newRequestSizeLimiting cfg) s
      else if name = ''jwt_auth'' then lift JwtAuth (newJWTAuth (osGetenv pf) cfg) s
      else if name = ''cors'' then lift Cors (newCORS cfg) s
      else if name = ''response_headers'' then lift ResponseHeaders (newResponseHeaders cfg) s
      else (Inl (UnknownPlugin name), s))"

fun pluginName :: "plugin \<Rightarrow> string" where
  "pluginName (AddHeader hs) = ''add_header''"
| "pluginName (HttpLog i) = ''http_log''"
| "pluginName (RequestSizeLimiting n) = ''request_size_limiting''"
| "pluginName (JwtAuth secret) = ''jwt_auth''"
| "pluginName (Cors p) = ''cors''"
| "pluginName (ResponseHeaders p) = ''response_headers''"
| "pluginName (RateLimiting p) = ''rate_limiting''"

fun pluginWrap :: "platform \<Rightarrow> (instant \<Rightarrow> string) \<Rightarrow> plugin \<Rightarrow> 'a log_world_scheme handler \<Rightarrow> 'a log_world_scheme handler" where
  "pluginWrap pf fmt (AddHeader hs) = addHeaderWrap hs"
| "pluginWrap pf fmt (HttpLog i) = httpLogWrap fmt i"
| "pluginWrap pf fmt (RequestSizeLimiting n) = requestSizeLimitingWrap n"
| "pluginWrap pf fmt (JwtAuth secret) = jwtAuthWrap (jwtLib pf) secret"
| "pluginWrap pf fmt (Cors p) = corsWrap p"
| "pluginWrap pf fmt (ResponseHeaders p) = responseHeadersWrap p"
| "pluginWrap pf fmt (RateLimiting p) = rateLimitingWrap p"

definition pluginChain :: "platform \<Rightarrow> (instant \<Rightarrow> string) \<Rightarrow> plugin list \<Rightarrow> 'a log_world_scheme handler \<Rightarrow> 'a log_world_scheme handler" where
  "pluginChain pf fmt ps h = chain (map (pluginWrap pf fmt) ps) h"

definition flushLoggers :: "plugin list \<Rightarrow> 'a log_world_scheme \<Rightarrow> 'a log_world_scheme" where
  "flushLoggers ps s = fold (\<lambda>p s. case p of HttpLog i \<Rightarrow> logFlush i s | _ \<Rightarrow> s) ps s"

section \<open>Every built-in plugin is a middleware\<close>

interpretation plugin_mw: middleware "pluginWrap pf fmt p" for pf fmt p
proof
  fix h :: "'a log_world_scheme handler"
  assume h: "handler_ok h"
  show "handler_ok (pluginWrap pf fmt p h)"
  proof (cases p)
    case (RateLimiting x)
    then show ?thesis using rate_limiting_mw.wrap_ok [OF h] by simp
  next
    case (HttpLog x)
    then show ?thesis using http_log_mw.wrap_ok [OF h] by simp
  qed (use add_header_mw.wrap_ok [OF h] size_limit_mw.wrap_ok [OF h] jwt_mw.wrap_ok [OF h] cors_mw.wrap_ok [OF h]
      response_headers_mw.wrap_ok [OF h] in auto)
qed

interpretation plugin_chain_mw: middleware "pluginChain pf fmt ps" for pf fmt ps
  by unfold_locales (auto simp: pluginChain_def intro!: chain_ok plugin_mw.wrap_ok)

section \<open>What plugins leave alone\<close>

text \<open>
  What neither a rate limiter's store nor a log buffer is part of, no chain of plugins changes.
\<close>

lemma map_writer_world [simp]: "world_of (map_writer f x) = world_of x"
  by (cases x) auto

lemma plugin_keeps:
  assumes allow: "\<And>ref k rps burst now s. F (snd (storeAllow ref k rps burst now s)) = F s"
    and log: "\<And>i f s. p = HttpLog i \<Longrightarrow> F (onLog i f s) = F s"
    and h: "\<And>w r s. F (world_of (h w r s)) = F s"
  shows "F (world_of (pluginWrap pf fmt p h w r s)) = F s"
proof (cases p)
  case (RateLimiting rl)
  then show ?thesis using allow h by (simp add: rateLimitingWrap_def Let_def case_prod_unfold)
next
  case (HttpLog i)
  then show ?thesis using log h by (simp add: httpLogWrap_def)
next
  case (JwtAuth secret)
  then show ?thesis using h by (simp add: jwtAuthWrap_def Let_def split: sum.splits)
qed (use h in \<open>simp_all add: addHeaderWrap_def requestSizeLimitingWrap_def corsWrap_def responseHeadersWrap_def Let_def\<close>)

lemma chain_keeps:
  assumes allow: "\<And>ref k rps burst now s. F (snd (storeAllow ref k rps burst now s)) = F s"
    and log: "\<And>i f s. HttpLog i \<in> set ps \<Longrightarrow> F (onLog i f s) = F s"
    and h: "\<And>w r s. F (world_of (h w r s)) = F s"
  shows "F (world_of (pluginChain pf fmt ps h w r s)) = F s"
  using log
proof (induction ps arbitrary: w r s)
  case Nil
  then show ?case using h by (simp add: pluginChain_def)
next
  case (Cons p ps)
  have "pluginChain pf fmt (p # ps) h = pluginWrap pf fmt p (pluginChain pf fmt ps h)" by (simp add: pluginChain_def)
  moreover have "F (world_of (pluginChain pf fmt ps h w r s)) = F s" for w r s using Cons by auto
  ultimately show ?case using plugin_keeps [of F p "pluginChain pf fmt ps h" pf fmt w r s, OF allow] Cons.prems by auto
qed

lemma storeAllow_keeps:
  "sugarSetup (snd (storeAllow ref k rps burst now s)) = sugarSetup s"
  "logBufs (snd (storeAllow ref k rps burst now s'')) = logBufs s''" "nextLog (snd (storeAllow ref k rps burst now s'')) = nextLog s''"
  "log_world.more (snd (storeAllow ref k rps burst now (s' :: 'a log_world_scheme))) = log_world.more s'"
  by (cases ref; simp add: storeAllow_def Let_def case_prod_unfold)+

lemma onLog_keeps:
  "sugarSetup (onLog i f s) = sugarSetup s" "log_world.more (onLog i f s) = log_world.more s" "nextLog (onLog i f s) = nextLog s"
  "j \<noteq> i \<Longrightarrow> logBufs (onLog i f s) j = logBufs s j"
  by (simp_all add: onLog_def case_prod_unfold Let_def)

section \<open>Flushing\<close>

lemma logFlush_other: "j \<noteq> i \<Longrightarrow> logBufs (logFlush i s) j = logBufs s j"
  by (simp add: logFlush_def onLog_def split: prod.splits)

lemma logFlush_sink: "(\<forall>n. writeFails (stdout s) n = None) \<Longrightarrow> \<forall>n. writeFails (stdout (logFlush i s)) n = None"
  by (auto simp: logFlush_def onLog_def bufFlush_def sinkWrite_def split: prod.splits)

lemma logFlush_own:
  assumes "\<forall>n. writeFails (stdout s) n = None" "\<not> failed (logBufs s i)"
  shows "pending (logBufs (logFlush i s) i) = [] \<and> \<not> failed (logBufs (logFlush i s) i)"
  using assms bufFlush_output [of "(logBufs s i, stdout s)"]
  by (auto simp: logFlush_def onLog_def healthy_def split: prod.splits)

lemma flushLoggers_Cons: "flushLoggers (p # ps) s = flushLoggers ps (case p of HttpLog i \<Rightarrow> logFlush i s | _ \<Rightarrow> s)"
  by (simp add: flushLoggers_def)

lemma logFlush_keeps_empty:
  assumes "\<forall>n. writeFails (stdout s) n = None" "\<not> failed (logBufs s j)" "pending (logBufs s j) = []"
  shows "pending (logBufs (logFlush i s) j) = []"
  using assms logFlush_own [of s j] logFlush_other [of j i s] by (cases "i = j") auto

lemma flushLoggers_empties:
  assumes "\<forall>n. writeFails (stdout s) n = None" "\<forall>i. \<not> failed (logBufs s i)"
  shows "(HttpLog i \<in> set ps \<or> pending (logBufs s i) = [] \<longrightarrow> pending (logBufs (flushLoggers ps s) i) = [])"
  using assms
proof (induction ps arbitrary: s)
  case Nil
  then show ?case by (simp add: flushLoggers_def)
next
  case (Cons p ps)
  let ?s = "case p of HttpLog i \<Rightarrow> logFlush i s | _ \<Rightarrow> s"
  have "\<forall>n. writeFails (stdout ?s) n = None"
    using Cons.prems(1) logFlush_sink by (cases p) simp_all
  moreover have "\<not> failed (logBufs (logFlush j s) k)" for j k
    using Cons.prems logFlush_own [of s j] logFlush_other [of k j s] by (cases "j = k") auto
  then have "\<forall>i. \<not> failed (logBufs ?s i)" using Cons.prems(2) by (cases p) simp_all
  ultimately have "HttpLog i \<in> set ps \<or> pending (logBufs ?s i) = [] \<longrightarrow> pending (logBufs (flushLoggers ps ?s) i) = []"
    by (rule Cons.IH)
  moreover have "pending (logBufs ?s i) = []" if "HttpLog i = p \<or> pending (logBufs s i) = []"
    using that Cons.prems logFlush_own [of s i] logFlush_keeps_empty [of s i] by (cases p) auto
  ultimately show ?case by (auto simp: flushLoggers_Cons)
qed

end
