(* ===== verification/Reverse_Proxy.thy ===== *)
theory Reverse_Proxy
  imports Retry Registry
begin

text \<open>
  The reverse proxy of one origin (\<^verbatim>\<open>gateway/internal/proxy/proxy.go\<close>) on top of
  \<^verbatim>\<open>httputil.ReverseProxy\<close>: the director, the removal of hop-by-hop headers,
  \<^verbatim>\<open>X-Forwarded-For\<close>, informational responses, protocol upgrades, the copy of the answer,
  and the error response. The parser of origin URLs is a parameter. Trailers and the intervals at
  which a streamed body is flushed are left out; log output to standard error too.
\<close>

section \<open>Hop-by-hop headers\<close>

definition hopHeaders :: "string list" where
  "hopHeaders = [''Connection'', ''Proxy-Connection'', ''Keep-Alive'', ''Proxy-Authenticate'',
     ''Proxy-Authorization'', ''Te'', ''Trailer'', ''Transfer-Encoding'', ''Upgrade'']"

definition headerTokens :: "header \<Rightarrow> string \<Rightarrow> string list" where
  "headerTokens h k = filter (\<lambda>t. t \<noteq> []) (map trimSpace (concat (map (splitOn CHR '','') (hValues h k))))"

definition delAll :: "string list \<Rightarrow> header \<Rightarrow> header" where
  "delAll ks h = fold hDel ks h"

definition removeHopByHopHeaders :: "header \<Rightarrow> header" where
  "removeHopByHopHeaders h = delAll hopHeaders (delAll (headerTokens h ''Connection'') h)"

definition containsToken :: "header \<Rightarrow> string \<Rightarrow> string \<Rightarrow> bool" where
  "containsToken h k tok = list_ex (\<lambda>t. toLower t = toLower tok) (headerTokens h k)"

definition upgradeType :: "header \<Rightarrow> string" where
  "upgradeType h = (if containsToken h ''Connection'' ''Upgrade'' then hGet h ''Upgrade'' else [])"

definition isPrint :: "string \<Rightarrow> bool" where
  "isPrint s = list_all (\<lambda>c. CHR '' '' \<le> c \<and> c \<le> CHR ''~'') s"

section \<open>The proxy\<close>

text \<open>A parsed origin URL.\<close>

record target =
  tgScheme :: string
  tgHost :: string
  tgPath :: string
  tgRawQuery :: string

record retryOptions =
  roMaxAttempts :: int
  roBackoffBase :: duration
  roRetryUnsafeMethods :: bool

record 'w reverseProxy =
  rpTransport :: "'w roundTripper"
  rpDirector :: "request \<Rightarrow> request"
  rpModifyResponse :: "response \<Rightarrow> 'w \<Rightarrow> response \<times> 'w"
  rpErrorHandler :: "writer \<Rightarrow> request \<Rightarrow> 'w \<Rightarrow> writer \<times> 'w"

definition singleJoiningSlash :: "string \<Rightarrow> string \<Rightarrow> string" where
  "singleJoiningSlash a b =
     (let aslash = hasSuffix a ''/''; bslash = hasPrefix b ''/''
      in if aslash \<and> bslash then a @ drop 1 b
         else if \<not> aslash \<and> \<not> bslash then a @ ''/'' @ b else a @ b)"

definition joinQuery :: "string \<Rightarrow> string \<Rightarrow> string" where
  "joinQuery a b = (if a = [] \<or> b = [] then a @ b else a @ ''&'' @ b)"

definition rewriteRequestURL :: "target \<Rightarrow> request \<Rightarrow> request" where
  "rewriteRequestURL t r =
     r\<lparr>urlScheme := tgScheme t, urlHost := tgHost t, urlPath := singleJoiningSlash (tgPath t) (urlPath r),
       urlRawQuery := joinQuery (tgRawQuery t) (urlRawQuery r)\<rparr>"

text \<open>\<^verbatim>\<open>propagation.TraceContext.Inject\<close> writes nothing without a valid span context.\<close>

definition injectTrace :: "request \<Rightarrow> header \<Rightarrow> header" where
  "injectTrace r h = (case ctxSpan r of None \<Rightarrow> h | Some tp \<Rightarrow> hSet ''traceparent'' tp h)"

definition proxyDirector :: "target \<Rightarrow> request \<Rightarrow> request" where
  "proxyDirector t r =
     (let userAgent = hGet (reqHeader r) ''User-Agent'';
          r = rewriteRequestURL t r;
          r = r\<lparr>reqHeader := hSet ''User-Agent'' userAgent (reqHeader r)\<rparr>
      in r\<lparr>reqHeader := injectTrace r (reqHeader r)\<rparr>)"

definition dropOriginRequestID :: "response \<Rightarrow> 'w \<Rightarrow> response \<times> 'w" where
  "dropOriginRequestID resp s = (resp\<lparr>respHeader := hDel headerName (respHeader resp)\<rparr>, s)"

text \<open>The JSON text of a string: quotes, backslashes, control characters and the HTML characters.\<close>

definition jsonChar :: "char \<Rightarrow> string" where
  "jsonChar c =
     (let n = of_char c :: nat;
          u = CHR 92 # ''u00'' @ [hexDigit (n div 16), hexDigit (n mod 16)] in
      if c = CHR 34 \<or> c = CHR 92 then [CHR 92, c]
      else if n = 8 then [CHR 92, CHR ''b''] else if n = 12 then [CHR 92, CHR ''f'']
      else if n = 10 then [CHR 92, CHR ''n''] else if n = 13 then [CHR 92, CHR ''r'']
      else if n = 9 then [CHR 92, CHR ''t'']
      else if n < 32 \<or> c \<in> set ''<>&'' then u else [c])"

definition jsonString :: "string \<Rightarrow> string" where
  "jsonString s = CHR 34 # concat (map jsonChar s) @ [CHR 34]"

definition badGatewayBody :: "string \<Rightarrow> string" where
  "badGatewayBody name =
     ''{'' @ jsonString ''error'' @ '':'' @ jsonString ''bad_gateway'' @ '','' @
     jsonString ''service'' @ '':'' @ jsonString name @ ''}'' @ [CHR 10]"

definition writeBadGateway :: "string \<Rightarrow> writer \<Rightarrow> writer" where
  "writeBadGateway name w =
     writeW (badGatewayBody name) (writeHeader 502 (mapHeader (hSet ''Content-Type'' ''application/json'') w))"

datatype proxy_error = InvalidOrigin string | MissingSchemeOrHost string | NoOrigins string

text \<open>
  The origin timeout of \<^verbatim>\<open>NewReverseProxy\<close>, which limits how long a connection may take to open and
  the answer's header to arrive, is not part of the model. It is a setting of \<^verbatim>\<open>http.Transport\<close> and
  decides which of the answers of the network oracle, and which of its delays, come about; the theorems
  are for every oracle.
\<close>

definition proxyTransport :: "retryOptions \<Rightarrow> 'a env_scheme roundTripper" where
  "proxyTransport retry =
     (if roMaxAttempts retry > 1
      then retryRoundTrip (newRetryTransport netRoundTrip (roMaxAttempts retry) (roBackoffBase retry) (roRetryUnsafeMethods retry))
      else netRoundTrip)"

definition targetProxy :: "string \<Rightarrow> target \<Rightarrow> retryOptions \<Rightarrow> 'a env_scheme reverseProxy" where
  "targetProxy name t retry =
     \<lparr>rpTransport = proxyTransport retry, rpDirector = proxyDirector t, rpModifyResponse = dropOriginRequestID,
      rpErrorHandler = (\<lambda>w r s. (writeBadGateway name w, s))\<rparr>"

definition newReverseProxy ::
  "(string \<Rightarrow> target option) \<Rightarrow> string \<Rightarrow> string \<Rightarrow> retryOptions \<Rightarrow> proxy_error + 'a env_scheme reverseProxy" where
  "newReverseProxy parseURL name origURL retry =
     (case parseURL origURL of
        None \<Rightarrow> Inl (InvalidOrigin origURL)
      | Some t \<Rightarrow>
          if tgScheme t = [] \<or> tgHost t = [] then Inl (MissingSchemeOrHost origURL)
          else Inr (targetProxy name t retry))"

section \<open>Serving a request\<close>

definition addForwardedFor :: "request \<Rightarrow> header \<Rightarrow> header" where
  "addForwardedFor req h =
     (case splitHostPort (remoteAddr req) of
        None \<Rightarrow> h
      | Some (clientIP, _) \<Rightarrow>
          let prior = hValues h ''X-Forwarded-For''
          in hSet ''X-Forwarded-For'' (if prior \<noteq> [] then joinWith '', '' prior @ '', '' @ clientIP else clientIP) h)"

text \<open>The request handed to the transport, made from the client's \<open>req\<close> and the directed \<open>outreq\<close>.\<close>

definition outgoing :: "request \<Rightarrow> request \<Rightarrow> request" where
  "outgoing req outreq =
     (let upType = upgradeType (reqHeader outreq);
          h = removeHopByHopHeaders (reqHeader outreq);
          h = (if containsToken (reqHeader req) ''Te'' ''trailers'' then hSet ''Te'' ''trailers'' h else h);
          h = (if upType \<noteq> [] then hSet ''Upgrade'' upType (hSet ''Connection'' ''Upgrade'' h) else h);
          h = addForwardedFor req h;
          h = (if h ''User-Agent'' = None then hSet ''User-Agent'' [] h else h)
      in outreq\<lparr>reqHeader := h\<rparr>)"

text \<open>\<^verbatim>\<open>Got1xxResponse\<close>: the header map is emptied after an informational response.\<close>

definition write1xx :: "int \<times> header \<Rightarrow> writer \<Rightarrow> writer" where
  "write1xx ch w =
     mapHeader (\<lambda>_. Map.empty) (writeHeader (fst ch) (mapHeader (\<lambda>h. copyHeader h (snd ch)) w))"

definition handleUpgradeResponse :: "'w reverseProxy \<Rightarrow> writer \<Rightarrow> request \<Rightarrow> response \<Rightarrow> 'w \<Rightarrow> 'w hres" where
  "handleUpgradeResponse rp w outreq res s =
     (let reqUpType = upgradeType (reqHeader outreq); resUpType = upgradeType (respHeader res);
          (w, s) = (if \<not> isPrint resUpType then rpErrorHandler rp w outreq s else (w, s)) in
      if toLower reqUpType \<noteq> toLower resUpType then
        (let (w, s) = rpErrorHandler rp w outreq s in Done w s)
      else
        let (ok, w) = hijackW w in
        if \<not> ok then (let (w, s) = rpErrorHandler rp w outreq s in Done w s)
        else Done (mapHeader (\<lambda>h. copyHeader h (respHeader res)) w) s)"

text \<open>
  A status below 100 or above 999 makes \<^verbatim>\<open>WriteHeader\<close> panic. The transport never returns an
  informational response as the final one; the value is treated like an invalid status.
\<close>

definition finalStatus :: "int \<Rightarrow> bool" where
  "finalStatus c \<longleftrightarrow> 200 \<le> c \<and> c \<le> 999"

text \<open>The informational responses the transport reports; 101 is a final one.\<close>

definition infoResponses :: "response \<Rightarrow> (int \<times> header) list" where
  "infoResponses res = filter (\<lambda>(c, h). 100 \<le> c \<and> c \<le> 199 \<and> c \<noteq> 101) (respInfo res)"

definition rpServeHTTP :: "'w reverseProxy \<Rightarrow> 'w handler" where
  "rpServeHTTP rp w req s =
     (let outreq = rpDirector rp (if contentLength req = 0 then req\<lparr>reqBody := None\<rparr> else req) in
      if \<not> isPrint (upgradeType (reqHeader outreq)) then
        (let (w, s) = rpErrorHandler rp w req s in Done w s)
      else
        let outreq = outgoing req outreq in
        case rpTransport rp outreq s of
          (None, s) \<Rightarrow> Panicked w s
        | (Some (Inl err), s) \<Rightarrow> (let (w, s) = rpErrorHandler rp w outreq s in Done w s)
        | (Some (Inr res), s) \<Rightarrow>
            let w = fold write1xx (infoResponses res) w in
            if respStatus res = 101 then
              (let (res, s) = rpModifyResponse rp res s in handleUpgradeResponse rp w outreq res s)
            else
              let (res, s) = rpModifyResponse rp (res\<lparr>respHeader := removeHopByHopHeaders (respHeader res)\<rparr>) s;
                  w = mapHeader (\<lambda>h. copyHeader h (respHeader res)) w in
              if \<not> finalStatus (respStatus res) then Panicked w s
              else
                let w = writeW (respBody res) (writeHeader (respStatus res) w)
                in if respBroken res then Panicked w s else Done w s)"

section \<open>Headers removed and set\<close>

lemma canonical_proxy [simp]:
  "canonicalKey ''Connection'' = ''Connection''"
  "canonicalKey ''Upgrade'' = ''Upgrade''"
  "canonicalKey ''Te'' = ''Te''"
  "canonicalKey ''User-Agent'' = ''User-Agent''"
  "canonicalKey ''Content-Type'' = ''Content-Type''"
  "canonicalKey ''traceparent'' = ''Traceparent''"
  by code_simp+

lemma hopHeaders_canonical: "map canonicalKey hopHeaders = hopHeaders"
  by code_simp

lemma hop_canonical: "k \<in> set hopHeaders \<Longrightarrow> canonicalKey k = k"
proof -
  have "list_all (\<lambda>k. canonicalKey k = k) hopHeaders" by code_simp
  then show "k \<in> set hopHeaders \<Longrightarrow> canonicalKey k = k" by (simp only: list_all_iff)
qed

lemma hValues_delAll: "hValues (delAll ks h) k = (if canonicalKey k \<in> canonicalKey ` set ks then [] else hValues h k)"
  by (induction ks arbitrary: h) (auto simp: delAll_def hValues_hDel)

lemma hop_canonical_set: "canonicalKey ` set hopHeaders = set hopHeaders"
  by (metis hopHeaders_canonical set_map)

lemma hValues_removeHop:
  "hValues (removeHopByHopHeaders h) k =
    (if canonicalKey k \<in> set hopHeaders \<union> canonicalKey ` set (headerTokens h ''Connection'') then [] else hValues h k)"
  by (simp add: removeHopByHopHeaders_def hValues_delAll hop_canonical_set)

lemma headerTokens_none: "hValues h k = [] \<Longrightarrow> headerTokens h k = []"
  by (simp add: headerTokens_def)

lemma headerTokens_cong: "hValues h k = hValues h' k \<Longrightarrow> headerTokens h k = headerTokens h' k"
  by (simp add: headerTokens_def)

lemma upgradeType_cong:
  "hValues h ''Connection'' = hValues h' ''Connection'' \<Longrightarrow> hValues h ''Upgrade'' = hValues h' ''Upgrade'' \<Longrightarrow>
    upgradeType h = upgradeType h'"
  by (simp add: upgradeType_def containsToken_def headerTokens_def hGet_def)

lemma hValues_addForwardedFor:
  "canonicalKey k \<noteq> ''X-Forwarded-For'' \<Longrightarrow> hValues (addForwardedFor req h) k = hValues h k"
  by (auto simp: addForwardedFor_def Let_def hValues_hSet split: option.splits)

text \<open>The header of the outgoing request, up to the two headers set at its end.\<close>

lemma hValues_outgoing:
  assumes "canonicalKey k \<noteq> ''X-Forwarded-For''" "canonicalKey k \<noteq> ''User-Agent''"
  shows "hValues (reqHeader (outgoing req o1)) k =
    (let upType = upgradeType (reqHeader o1) in
     if canonicalKey k = ''Upgrade'' \<and> upType \<noteq> [] then [upType]
     else if canonicalKey k = ''Connection'' \<and> upType \<noteq> [] then [''Upgrade'']
     else if canonicalKey k = ''Te'' \<and> containsToken (reqHeader req) ''Te'' ''trailers'' then [''trailers'']
     else if canonicalKey k \<in> set hopHeaders \<union> canonicalKey ` set (headerTokens (reqHeader o1) ''Connection'') then []
     else hValues (reqHeader o1) k)"
  using assms by (simp add: outgoing_def Let_def hValues_hSet hValues_addForwardedFor hValues_removeHop)

lemma upgradeType_outgoing: "upgradeType (reqHeader (outgoing req o1)) = upgradeType (reqHeader o1)"
proof -
  let ?h = "reqHeader (outgoing req o1)" and ?u = "upgradeType (reqHeader o1)"
  have c: "hValues ?h ''Connection'' = (if ?u \<noteq> [] then [''Upgrade''] else [])"
    by (simp add: hValues_outgoing Let_def hopHeaders_def)
  have u: "?u \<noteq> [] \<Longrightarrow> hValues ?h ''Upgrade'' = [?u]"
    by (simp add: hValues_outgoing Let_def)
  have tok: "headerTokens ?h ''Connection'' = (if ?u \<noteq> [] then [''Upgrade''] else [])"
  proof -
    have "filter (\<lambda>t. t \<noteq> []) (map trimSpace (concat (map (splitOn CHR '','') [''Upgrade'']))) = [''Upgrade'']"
      by code_simp
    then show ?thesis using c by (simp add: headerTokens_def)
  qed
  show ?thesis
    using tok u by (cases "?u = []") (simp_all add: upgradeType_def [of ?h] containsToken_def hGet_def)
qed

lemma printable_lower: "(CHR '' '' \<le> lower_char c \<and> lower_char c \<le> CHR ''~'') \<longleftrightarrow> (CHR '' '' \<le> c \<and> c \<le> CHR ''~'')"
proof (cases "ascii_upper c")
  case True
  then have "65 \<le> (of_char c :: nat)" "(of_char c :: nat) \<le> 90"
    by (simp_all add: ascii_upper_def less_eq_char_def)
  then show ?thesis using True by (simp add: lower_char_def less_eq_char_def)
qed (simp add: lower_char_def)

lemma isPrint_toLower: "isPrint (toLower s) \<longleftrightarrow> isPrint s"
  unfolding isPrint_def toLower_def list_all_iff using printable_lower by auto

section \<open>Informational responses\<close>

lemma shape_infos: "shape (fold write1xx (infoResponses res) w) = shape w"
proof -
  have "shape (fold write1xx xs w) = shape w" for xs
    by (induction xs arbitrary: w) (simp_all add: write1xx_def)
  then show ?thesis .
qed

lemma unsent_infos:
  assumes "unsent w"
  shows "unsent (fold write1xx (infoResponses res) w)"
proof -
  have "unsent (fold write1xx xs w)" if "\<forall>(c, h) \<in> set xs. 100 \<le> c \<and> c \<le> 199 \<and> c \<noteq> 101" for xs
    using assms that
  proof (induction xs arbitrary: w)
    case (Cons x xs)
    have "unsent (write1xx x w)"
      using Cons.prems by (auto simp: write1xx_def case_prod_unfold intro!: unsent_informational)
    then show ?case using Cons by simp
  qed simp
  then show ?thesis by (auto simp: infoResponses_def)
qed

section \<open>The contract of the proxy\<close>

text \<open>
  An error handler answers with a 502, on a writer that has sent nothing final or only such an
  answer; that and the transport's contract are all the proxy relies on.
\<close>

locale reverse_proxy = round_tripper "rpTransport rp" for rp :: "'a env_scheme reverseProxy" +
  assumes eh_shape: "shape (fst (rpErrorHandler rp w r s)) = shape w"
    and eh_answers: "unsent w \<or> (wroteHeader (base_of w) \<and> sentStatus (base_of w) = 502) \<Longrightarrow>
      settled (fst (rpErrorHandler rp w r s)) \<and> wroteHeader (base_of (fst (rpErrorHandler rp w r s))) \<and>
      sentStatus (base_of (fst (rpErrorHandler rp w r s))) = 502"
begin

lemma eh_done:
  assumes "unsent w \<or> (wroteHeader (base_of w) \<and> sentStatus (base_of w) = 502)"
  shows "\<exists>w' s'. (let (w, s) = rpErrorHandler rp w r s in Done w s) = Done w' s' \<and> settled w' \<and> shape w' = shape w"
  using eh_answers [OF assms, of r s] eh_shape [of w r s] by (cases "rpErrorHandler rp w r s") auto

lemma upgrade_ok:
  assumes "unsent w" "isPrint (upgradeType (reqHeader outreq))"
  shows "\<exists>w' s'. handleUpgradeResponse rp w outreq res s = Done w' s' \<and> settled w' \<and> shape w' = shape w"
proof (cases "toLower (upgradeType (reqHeader outreq)) = toLower (upgradeType (respHeader res))")
  case True
  then have "isPrint (upgradeType (respHeader res))" using assms(2) isPrint_toLower by metis
  then show ?thesis
    using True assms(1) eh_done [of "snd (hijackW w)" outreq s] settled_hijackW_unsent [of w]
      unsent_hijack_failed [of w] shape_hijackW [of w]
    by (cases "hijackW w") (auto simp: handleUpgradeResponse_def)
next
  case False
  let ?e = "if \<not> isPrint (upgradeType (respHeader res)) then rpErrorHandler rp w outreq s else (w, s)"
  obtain w1 s1 where 1: "?e = (w1, s1)" by (cases ?e)
  have w1: "unsent w1 \<or> (wroteHeader (base_of w1) \<and> sentStatus (base_of w1) = 502)" "shape w1 = shape w"
    using 1 assms eh_answers [of w outreq s] eh_shape [of w outreq s] by (auto split: if_splits)
  then show ?thesis
    using False eh_done [OF w1(1), of outreq s1] 1 by (auto simp: handleUpgradeResponse_def)
qed

lemma serve_done:
  assumes "unsent w"
  shows "shape (writer_of (rpServeHTTP rp w req s)) = shape w \<and>
    (\<forall>w' s'. rpServeHTTP rp w req s = Done w' s' \<longrightarrow> settled w')"
proof -
  define o1 where "o1 = rpDirector rp (if contentLength req = 0 then req\<lparr>reqBody := None\<rparr> else req)"
  obtain out s1 where t: "rpTransport rp (outgoing req o1) s = (out, s1)" by (cases "rpTransport rp (outgoing req o1) s")
  show ?thesis
  proof (cases "isPrint (upgradeType (reqHeader o1))")
    case False
    then show ?thesis
      using eh_done [of w req s] assms by (auto simp: rpServeHTTP_def Let_def simp flip: o1_def)
  next
    case True
    consider "out = None" | e where "out = Some (Inl e)" | res where "out = Some (Inr res)"
      by (metis option.exhaust sum.exhaust)
    then show ?thesis
    proof cases
      case 2
      then show ?thesis
        using True t eh_done [of w "outgoing req o1" s1] assms by (auto simp: rpServeHTTP_def Let_def simp flip: o1_def)
    next
      case 3
      let ?w = "fold write1xx (infoResponses res) w"
      have w: "unsent ?w" "shape ?w = shape w"
        using unsent_infos [OF assms, of res] shape_infos [of res w] by simp_all
      obtain res1 s2 where m1: "rpModifyResponse rp res s1 = (res1, s2)" by (cases "rpModifyResponse rp res s1")
      obtain res3 s3 where m2: "rpModifyResponse rp (res\<lparr>respHeader := removeHopByHopHeaders (respHeader res)\<rparr>) s1 = (res3, s3)"
        by (cases "rpModifyResponse rp (res\<lparr>respHeader := removeHopByHopHeaders (respHeader res)\<rparr>) s1")
      have up: "isPrint (upgradeType (reqHeader (outgoing req o1)))" using True by (simp add: upgradeType_outgoing)
      show ?thesis
        using True t 3 m1 m2 w upgrade_ok [OF w(1) up, of res1 s2]
        by (auto simp: rpServeHTTP_def Let_def finalStatus_def settled_write settled_writeHeader_unsent simp flip: o1_def)
    qed (use True t in \<open>auto simp: rpServeHTTP_def Let_def simp flip: o1_def\<close>)
  qed
qed

lemma eh_pair_shape: "rpErrorHandler rp w r s = (w', s') \<Longrightarrow> shape w' = shape w"
  using eh_shape [of w r s] by simp

lemma hijack_pair_shape: "hijackW w = (ok, w') \<Longrightarrow> shape w' = shape w"
  using shape_hijackW [of w] by simp

lemma upgrade_shape: "shape (writer_of (handleUpgradeResponse rp w outreq res s)) = shape w"
  by (auto simp: handleUpgradeResponse_def Let_def dest!: eh_pair_shape hijack_pair_shape split: prod.splits if_splits)

lemma serve_shape: "shape (writer_of (rpServeHTTP rp w req s)) = shape w"
  by (auto simp: rpServeHTTP_def Let_def upgrade_shape shape_infos dest!: eh_pair_shape
      split: prod.splits if_splits option.splits sum.splits)

lemma serve_ok: "handler_ok (rpServeHTTP rp)"
  by (rule handler_okI) (use serve_shape serve_done fresh_unsent in blast)+

end

lemma shape_writeBadGateway [simp]: "shape (writeBadGateway name w) = shape w"
  by (simp add: writeBadGateway_def)

lemma writeBadGateway_answers:
  assumes "unsent w \<or> (wroteHeader (base_of w) \<and> sentStatus (base_of w) = 502)"
  shows "settled (writeBadGateway name w) \<and> wroteHeader (base_of (writeBadGateway name w)) \<and>
    sentStatus (base_of (writeBadGateway name w)) = 502"
proof -
  let ?w = "writeHeader 502 (mapHeader (hSet ''Content-Type'' ''application/json'') w)"
  have "wroteHeader (base_of ?w) \<and> sentStatus (base_of ?w) = 502"
    using assms writeHeader_unsent_sent [of "mapHeader (hSet ''Content-Type'' ''application/json'') w" 502]
    by (auto simp: base_writeHeader_final base_writeHeader_def)
  moreover from this have "settled ?w" by (auto simp: settled_def client_status_def)
  ultimately show ?thesis by (simp add: writeBadGateway_def settled_write write_keeps)
qed

lemma proxyTransport_contract: "round_tripper (proxyTransport retry)"
  by (simp add: proxyTransport_def net.round_tripper_axioms retrying.round_tripper_axioms)

lemmas transport_laws =
  round_tripper.rt_frame [OF proxyTransport_contract] round_tripper.rt_oracle [OF proxyTransport_contract]
  round_tripper.rt_log [OF proxyTransport_contract] round_tripper.rt_clock [OF proxyTransport_contract]

interpretation target_proxy: reverse_proxy "targetProxy name t retry" for name t retry
  by unfold_locales (simp_all add: targetProxy_def writeBadGateway_answers transport_laws)

section \<open>The answer\<close>

lemma hValues_copyHeader: "hValues (copyHeader h g) k = hValues h k @ hValues g k"
  by (auto simp: hValues_def copyHeader_def split: option.splits)

text \<open>What the client gets of a complete answer of the origin.\<close>

lemma answer_copied:
  assumes "unsent w" "isPrint (upgradeType (reqHeader req))"
    and "rpTransport (targetProxy name t retry) (outgoing req (proxyDirector t (if contentLength req = 0 then req\<lparr>reqBody := None\<rparr> else req))) s = (Some (Inr res), s1)"
    and "finalStatus (respStatus res)" "\<not> respBroken res"
  defines "w1 \<equiv> fold write1xx (infoResponses res) w"
  shows "\<exists>w'. rpServeHTTP (targetProxy name t retry) w req s = Done w' s1 \<and>
    wroteHeader (base_of w') \<and> sentStatus (base_of w') = respStatus res \<and>
    sentHeader (base_of w') = rh_all w1 (copyHeader (hdr (base_of w1)) (hDel headerName (removeHopByHopHeaders (respHeader res))))"
proof -
  let ?req = "if contentLength req = 0 then req\<lparr>reqBody := None\<rparr> else req"
  have up: "upgradeType (reqHeader (proxyDirector t ?req)) = upgradeType (reqHeader req)"
    by (rule upgradeType_cong)
      (auto simp: proxyDirector_def rewriteRequestURL_def injectTrace_def Let_def hValues_hSet split: option.splits)
  let ?w2 = "mapHeader (\<lambda>h. copyHeader h (hDel headerName (removeHopByHopHeaders (respHeader res)))) w1"
  have u: "unsent ?w2" using unsent_infos [OF assms(1), of res] by (simp add: w1_def)
  have st: "200 \<le> respStatus res" "respStatus res \<noteq> 101" using assms(4) by (auto simp: finalStatus_def)
  have "rpServeHTTP (targetProxy name t retry) w req s = Done (writeW (respBody res) (writeHeader (respStatus res) ?w2)) s1"
    using assms up st by (simp add: rpServeHTTP_def Let_def targetProxy_def dropOriginRequestID_def)
  then show ?thesis
    using writeHeader_unsent_sent [OF u st(1)] by (simp add: write_keeps)
qed

lemma hdr_after_info:
  assumes "\<forall>x \<in> set xs. 100 \<le> fst x \<and> fst x < 200" "xs \<noteq> []"
  shows "hdr (base_of (fold write1xx xs w)) = Map.empty"
proof -
  have "hdr (base_of (write1xx x w)) = Map.empty" for x w by (simp add: write1xx_def)
  then show ?thesis using assms(2) by (induction xs rule: rev_induct) simp_all
qed

text \<open>The network gets the outgoing request, as it is or with its body read into memory.\<close>

lemma transport_sends:
  "\<exists>k q. netCalls (snd (proxyTransport retry r s)) = netCalls s @ replicate k q \<and> (q = r \<or> q = sentRequest r) \<and>
    k \<le> max 1 (nat (roMaxAttempts retry))"
proof (cases "roMaxAttempts retry > 1")
  case True
  then show ?thesis using retry_sends [of "newRetryTransport netRoundTrip (roMaxAttempts retry) (roBackoffBase retry) (roRetryUnsafeMethods retry)" r s]
    by (simp add: proxyTransport_def newRetryTransport_def)
next
  case False
  then show ?thesis by (auto simp: proxyTransport_def intro!: exI [of _ 1])
qed

lemma targetProxy_sel:
  "rpTransport (targetProxy name t retry) = proxyTransport retry" "rpDirector (targetProxy name t retry) = proxyDirector t"
  "rpModifyResponse (targetProxy name t retry) = dropOriginRequestID"
  "rpErrorHandler (targetProxy name t retry) = (\<lambda>w r s. (writeBadGateway name w, s))"
  by (simp_all add: targetProxy_def)

text \<open>Hooks that do not send anything themselves.\<close>

definition quiet_hooks :: "'a env_scheme reverseProxy \<Rightarrow> bool" where
  "quiet_hooks rp \<longleftrightarrow> (\<forall>w r s. netCalls (snd (rpErrorHandler rp w r s)) = netCalls s) \<and>
     (\<forall>resp s. netCalls (snd (rpModifyResponse rp resp s)) = netCalls s)"

lemma quiet_sends:
  assumes "quiet_hooks rp"
  shows "netCalls (snd (rpErrorHandler rp w r s)) = netCalls s" "netCalls (snd (rpModifyResponse rp resp s)) = netCalls s"
  using assms by (simp_all add: quiet_hooks_def)

lemma netCalls_upgrade:
  assumes "quiet_hooks rp"
  shows "netCalls (world_of (handleUpgradeResponse rp w outreq res s)) = netCalls s"
  by (simp add: handleUpgradeResponse_def Let_def case_prod_unfold quiet_sends [OF assms])

lemma rpServe_sends:
  fixes req :: request
  assumes "quiet_hooks rp"
  defines "out \<equiv> outgoing req (rpDirector rp (if contentLength req = 0 then req\<lparr>reqBody := None\<rparr> else req))"
  shows "netCalls (world_of (rpServeHTTP rp w req s)) \<in> {netCalls s, netCalls (snd (rpTransport rp out s))}"
proof -
  obtain res s1 where t: "rpTransport rp out s = (res, s1)" by (cases "rpTransport rp out s")
  consider "res = None" | e where "res = Some (Inl e)" | a where "res = Some (Inr a)"
    by (metis option.exhaust sum.exhaust)
  then show ?thesis
    by cases (use t in \<open>simp_all add: rpServeHTTP_def Let_def case_prod_unfold netCalls_upgrade [OF assms(1)]
        quiet_sends [OF assms(1)] flip: out_def\<close>)
qed

lemma targetProxy_quiet: "quiet_hooks (targetProxy name t retry)"
  by (simp add: quiet_hooks_def targetProxy_sel dropOriginRequestID_def)

text \<open>A method that must not be repeated is sent once.\<close>

lemma transport_unsafe:
  assumes "reqMethod r \<notin> {''GET'', ''HEAD'', ''OPTIONS''}" "\<not> roRetryUnsafeMethods retry"
  shows "netCalls (snd (proxyTransport retry r s)) = netCalls s @ [r]"
  using assms by (simp add: proxyTransport_def retryRoundTrip_def methodIsRetryable_def newRetryTransport_def)

lemma proxyDirector_header:
  assumes "canonicalKey k \<noteq> ''User-Agent''" "canonicalKey k \<noteq> ''Traceparent''" "reqHeader r = reqHeader req"
  shows "hValues (reqHeader (proxyDirector t r)) k = hValues (reqHeader req) k"
  using assms by (auto simp: proxyDirector_def rewriteRequestURL_def injectTrace_def Let_def hValues_hSet split: option.splits)

lemma outgoing_end_to_end:
  assumes "canonicalKey k \<notin> {''X-Forwarded-For'', ''User-Agent'', ''Traceparent''}" "reqHeader r = reqHeader req"
  defines "up \<equiv> upgradeType (reqHeader req)"
  shows "hValues (reqHeader (outgoing req (proxyDirector t r))) k =
    (if canonicalKey k = ''Upgrade'' \<and> up \<noteq> [] then [up]
     else if canonicalKey k = ''Connection'' \<and> up \<noteq> [] then [''Upgrade'']
     else if canonicalKey k = ''Te'' \<and> containsToken (reqHeader req) ''Te'' ''trailers'' then [''trailers'']
     else if canonicalKey k \<in> set hopHeaders \<union> canonicalKey ` set (headerTokens (reqHeader req) ''Connection'') then []
     else hValues (reqHeader req) k)"
proof -
  note dir = proxyDirector_header [OF _ _ assms(2), where t = t]
  have tok: "headerTokens (reqHeader (proxyDirector t r)) ''Connection'' = headerTokens (reqHeader req) ''Connection''"
    by (intro headerTokens_cong dir) simp_all
  moreover have "hGet (reqHeader (proxyDirector t r)) ''Upgrade'' = hGet (reqHeader req) ''Upgrade''"
    using dir [of "''Upgrade''"] by (simp add: hGet_def)
  ultimately have "upgradeType (reqHeader (proxyDirector t r)) = up"
    by (simp add: up_def upgradeType_def containsToken_def)
  then show ?thesis using assms(1) tok dir by (simp add: hValues_outgoing Let_def)
qed

lemma outgoing_fields:
  fixes t
  assumes "splitHostPort (remoteAddr req) = Some (peer, port)"
    and "''X-Forwarded-For'' \<notin> canonicalKey ` set (headerTokens (reqHeader req) ''Connection'')"
    and "r = (if contentLength req = 0 then req\<lparr>reqBody := None\<rparr> else req)"
  defines "out \<equiv> outgoing req (proxyDirector t r)"
  shows "reqMethod out = reqMethod req \<and> reqHost out = reqHost req \<and> reqBody out = reqBody r \<and>
    urlScheme out = tgScheme t \<and> urlHost out = tgHost t \<and> urlPath out = singleJoiningSlash (tgPath t) (urlPath req) \<and>
    urlRawQuery out = joinQuery (tgRawQuery t) (urlRawQuery req) \<and>
    hValues (reqHeader out) ''X-Forwarded-For'' = [joinWith '', '' (hValues (reqHeader req) ''X-Forwarded-For'' @ [peer])]"
proof -
  let ?d = "proxyDirector t r"
  note r = assms(3)
  have "reqHeader r = reqHeader req" by (simp add: r)
  note dir = proxyDirector_header [OF _ _ this, where t = t]
  have tok: "headerTokens (reqHeader ?d) ''Connection'' = headerTokens (reqHeader req) ''Connection''"
    by (intro headerTokens_cong dir) simp_all
  have fields: "reqMethod out = reqMethod req" "reqHost out = reqHost req" "reqBody out = reqBody r"
    "urlScheme out = tgScheme t" "urlHost out = tgHost t" "urlPath out = singleJoiningSlash (tgPath t) (urlPath req)"
    "urlRawQuery out = joinQuery (tgRawQuery t) (urlRawQuery req)"
    by (simp_all add: r out_def outgoing_def proxyDirector_def rewriteRequestURL_def Let_def)
  have prior: "hValues (removeHopByHopHeaders (reqHeader ?d)) ''X-Forwarded-For'' = hValues (reqHeader req) ''X-Forwarded-For''"
    using assms(2) by (simp add: hValues_removeHop tok dir hopHeaders_def)
  have join: "joinWith '', '' (vs @ [v]) = (if vs \<noteq> [] then joinWith '', '' vs @ '', '' @ v else v)" for vs v
    by (induction vs rule: joinWith.induct [of _ "'', ''"]) auto
  have xff: "hValues (reqHeader out) ''X-Forwarded-For'' = [joinWith '', '' (hValues (reqHeader req) ''X-Forwarded-For'' @ [peer])]"
    using assms(1) prior join
    by (simp add: out_def outgoing_def addForwardedFor_def Let_def hValues_hSet)
  show ?thesis using fields xff by blast
qed

section \<open>Properties\<close>

text \<open>
  C21: Every request that reaches an origin, the retries included: method, host and body as the client sent
  them (no body for an empty one), the path and the query joined to the origin's, the peer's address
  appended to the forwarded chain, and of the hop-by-hop headers and those the client's
  \<^verbatim>\<open>Connection\<close> header names nothing, except that an upgrade is passed on as
  \<^verbatim>\<open>Connection: Upgrade\<close> with the protocol asked for and \<^verbatim>\<open>Te\<close> as
  \<^verbatim>\<open>trailers\<close> if the client accepts them. Every other header but the
  \<^verbatim>\<open>User-Agent\<close> and the trace context arrives as it came. The remote address has a host and a
  port, and the client's \<^verbatim>\<open>Connection\<close> header does not name \<^verbatim>\<open>X-Forwarded-For\<close>,
  which would drop the chain before the peer.
\<close>

theorem forwarded_request:
  fixes t s
  assumes "splitHostPort (remoteAddr req) = Some (peer, port)"
    and "''X-Forwarded-For'' \<notin> canonicalKey ` set (headerTokens (reqHeader req) ''Connection'')"
    and "sent \<in> set (drop (length (netCalls s)) (netCalls (world_of (rpServeHTTP (targetProxy name t retry) w req s))))"
  defines "up \<equiv> upgradeType (reqHeader req)"
  shows "reqMethod sent = reqMethod req \<and> reqHost sent = reqHost req \<and>
    bodyBytes sent = (if contentLength req = 0 then None else bodyBytes req) \<and>
    urlScheme sent = tgScheme t \<and> urlHost sent = tgHost t \<and> urlPath sent = singleJoiningSlash (tgPath t) (urlPath req) \<and>
    urlRawQuery sent = joinQuery (tgRawQuery t) (urlRawQuery req) \<and>
    hValues (reqHeader sent) ''X-Forwarded-For'' = [joinWith '', '' (hValues (reqHeader req) ''X-Forwarded-For'' @ [peer])] \<and>
    (\<forall>k. canonicalKey k \<notin> {''X-Forwarded-For'', ''User-Agent'', ''Traceparent''} \<longrightarrow> hValues (reqHeader sent) k =
      (if canonicalKey k = ''Upgrade'' \<and> up \<noteq> [] then [up]
       else if canonicalKey k = ''Connection'' \<and> up \<noteq> [] then [''Upgrade'']
       else if canonicalKey k = ''Te'' \<and> containsToken (reqHeader req) ''Te'' ''trailers'' then [''trailers'']
       else if canonicalKey k \<in> set hopHeaders \<union> canonicalKey ` set (headerTokens (reqHeader req) ''Connection'') then []
       else hValues (reqHeader req) k))"
proof -
  define r where "r = (if contentLength req = 0 then req\<lparr>reqBody := None\<rparr> else req)"
  let ?out = "outgoing req (proxyDirector t r)"
  have r: "reqHeader r = reqHeader req" by (simp add: r_def)
  have "sent = ?out \<or> sent = sentRequest ?out"
    using assms(3) rpServe_sends [OF targetProxy_quiet, of name t retry w req s] transport_sends [of retry ?out s]
    by (auto simp: r_def targetProxy_sel split: if_splits)
  then have "reqMethod sent = reqMethod ?out" "reqHost sent = reqHost ?out" "bodyBytes sent = bodyBytes ?out"
    "urlScheme sent = urlScheme ?out" "urlHost sent = urlHost ?out" "urlPath sent = urlPath ?out"
    "urlRawQuery sent = urlRawQuery ?out" and h: "reqHeader sent = reqHeader ?out"
    by (auto simp: sentRequest_keeps)
  moreover have "bodyBytes ?out = (if contentLength req = 0 then None else bodyBytes req)"
    using outgoing_fields [OF assms(1,2) r_def, of t] by (simp add: bodyBytes_def r_def)
  ultimately show ?thesis unfolding up_def using outgoing_fields [OF assms(1,2) r_def, of t] outgoing_end_to_end [OF _ r, of _ t]
    by (intro conjI) (simp_all only: h, simp_all)
qed

text \<open>
  C40: The client can take headers away from the request the origin gets: a header an \<open>add_header\<close> plugin
  added, or any other the request carries by then, the trace context included, is dropped when the
  client's own \<^verbatim>\<open>Connection\<close> header names it, because the hop-by-hop headers are removed after the
  gateway added its own. Left out are the headers the reverse proxy writes again after that,
  \<^verbatim>\<open>X-Forwarded-For\<close>, \<^verbatim>\<open>User-Agent\<close>, \<^verbatim>\<open>Connection\<close>,
  \<^verbatim>\<open>Upgrade\<close> and \<^verbatim>\<open>Te\<close>, and plugins that set \<^verbatim>\<open>Connection\<close> themselves.
\<close>

theorem client_can_strip_headers:
  assumes "k \<in> set (headerTokens (reqHeader req) ''Connection'')"
    and "canonicalKey k \<notin> {''X-Forwarded-For'', ''User-Agent'', ''Upgrade'', ''Connection'', ''Te''}"
    and "\<forall>kv \<in> set added. canonicalKey (fst kv) \<noteq> ''Connection''"
  defines "r \<equiv> req\<lparr>reqHeader := setAll added (reqHeader req)\<rparr>"
  shows "addHeaderWrap added nxt w req s = nxt w r s \<and>
    hValues (reqHeader (outgoing r (proxyDirector t r))) k = []"
proof
  show "addHeaderWrap added nxt w req s = nxt w r s" by (simp add: addHeaderWrap_def r_def)
  have "lastSet added ''Connection'' = None" using assms(3) by (auto simp: lastSet_None_iff)
  then have "hValues (reqHeader r) ''Connection'' = hValues (reqHeader req) ''Connection''"
    by (simp add: r_def hValues_def setAll_lookup)
  then have "hValues (reqHeader (proxyDirector t r)) ''Connection'' = hValues (reqHeader req) ''Connection''"
    by (simp add: proxyDirector_header [OF _ _ refl])
  then have "headerTokens (reqHeader (proxyDirector t r)) ''Connection'' = headerTokens (reqHeader req) ''Connection''"
    by (rule headerTokens_cong)
  then show "hValues (reqHeader (outgoing r (proxyDirector t r))) k = []"
    using assms(1,2) by (simp add: hValues_outgoing Let_def)
qed

text \<open>
  The client gets the origin's status, and the request id of the gateway exactly as it stood on
  the response, never a second one from an origin that echoes the id it received.
\<close>

lemma answer_keeps_request_id:
  assumes "unsent w" "set (shape w) \<subseteq> {StatusLayer}" "isPrint (upgradeType (reqHeader req))"
    and "rpTransport (targetProxy name t retry) (outgoing req (proxyDirector t (if contentLength req = 0 then req\<lparr>reqBody := None\<rparr> else req))) s = (Some (Inr res), s1)"
    and "finalStatus (respStatus res)" "\<not> respBroken res" "infoResponses res = []"
  shows "\<exists>w'. rpServeHTTP (targetProxy name t retry) w req s = Done w' s1 \<and>
    sentStatus (base_of w') = respStatus res \<and>
    hValues (sentHeader (base_of w')) headerName = hValues (hdr (base_of w)) headerName"
  using answer_copied [OF assms(1,3,4,5,6)] assms(2,7)
  by (auto simp: rh_all_unapplied status_layers hValues_copyHeader hValues_hDel)

text \<open>
  An origin that sends an informational response first makes the gateway lose every header it
  had set on the response, its request id among them: the final response carries none.
\<close>

lemma informational_response_drops_request_id:
  assumes "unsent w" "set (shape w) \<subseteq> {StatusLayer}" "isPrint (upgradeType (reqHeader req))"
    and "rpTransport (targetProxy name t retry) (outgoing req (proxyDirector t (if contentLength req = 0 then req\<lparr>reqBody := None\<rparr> else req))) s = (Some (Inr res), s1)"
    and "finalStatus (respStatus res)" "\<not> respBroken res" "infoResponses res \<noteq> []"
  shows "\<exists>w'. rpServeHTTP (targetProxy name t retry) w req s = Done w' s1 \<and>
    sentStatus (base_of w') = respStatus res \<and> hValues (sentHeader (base_of w')) headerName = []"
proof -
  let ?w1 = "fold write1xx (infoResponses res) w"
  have "hdr (base_of ?w1) = Map.empty"
    using assms(7) by (intro hdr_after_info) (auto simp: infoResponses_def)
  moreover have "rh_all ?w1 h = h" for h
    using assms(2) shape_infos [of res w] status_layers [of ?w1] by (simp add: rh_all_unapplied)
  ultimately show ?thesis
    using answer_copied [OF assms(1,3,4,5,6)]
    by (auto simp: hValues_copyHeader hValues_hDel) (simp add: hValues_def)
qed

section \<open>Witnesses\<close>

definition demo_target :: target where
  "demo_target = \<lparr>tgScheme = ''http'', tgHost = ''origin:8080'', tgPath = [], tgRawQuery = []\<rparr>"

definition demo_retry :: retryOptions where
  "demo_retry = \<lparr>roMaxAttempts = 1, roBackoffBase = 0, roRetryUnsafeMethods = False\<rparr>"

definition demo_net :: "response \<Rightarrow> env" where
  "demo_net res = \<lparr>clock = 100, netOracle = (\<lambda>n r. (Inr res, 3)), netCalls = [], sleeps = [],
     randOracle = (\<lambda>n. 7), randCount = 0\<rparr>"

definition demo_written :: writer where
  "demo_written = mapHeader (hSet headerName ''id1'') demo_writer"

lemma demo_peer: "splitHostPort (remoteAddr demo_request) = Some (''10.0.0.9'', ''5000'')"
  by code_simp

lemma demo_no_upgrade: "upgradeType (reqHeader demo_request) = []" "headerTokens (reqHeader demo_request) ''Connection'' = []"
  by (simp_all add: upgradeType_def containsToken_def headerTokens_def demo_request_fields hValues_def)

theorem forwarded_request_witness:
  "\<exists>q. netCalls (world_of (rpServeHTTP (targetProxy ''shop'' demo_target demo_retry) demo_written demo_request (demo_net demo_response))) = [q] \<and>
    hValues (reqHeader q) ''X-Forwarded-For'' = [''10.0.0.9''] \<and> urlRawQuery q = ''page=2'' \<and> bodyBytes q = Some ''hi''"
proof -
  let ?out = "outgoing demo_request (proxyDirector demo_target demo_request)" and ?s = "demo_net demo_response"
  have "rpTransport (targetProxy ''shop'' demo_target demo_retry) ?out ?s =
      (Some (Inr demo_response), ?s\<lparr>clock := 103, netCalls := [?out]\<rparr>)"
    by (simp add: targetProxy_sel proxyTransport_def demo_retry_def netRoundTrip_def demo_net_def)
  moreover have "unsent demo_written" "isPrint (upgradeType (reqHeader demo_request))" "finalStatus (respStatus demo_response)"
    "\<not> respBroken demo_response"
    by (simp_all add: demo_written_def fresh_unsent demo_no_upgrade isPrint_def demo_response_def finalStatus_def)
  ultimately obtain w' where serve: "rpServeHTTP (targetProxy ''shop'' demo_target demo_retry) demo_written demo_request ?s =
      Done w' (?s\<lparr>clock := 103, netCalls := [?out]\<rparr>)"
    using answer_copied [of demo_written demo_request "''shop''" demo_target demo_retry ?s demo_response "?s\<lparr>clock := 103, netCalls := [?out]\<rparr>"]
    by (auto simp: demo_request_fields(2))
  have sent: "?out \<in> set (drop (length (netCalls ?s)) (netCalls (world_of
      (rpServeHTTP (targetProxy ''shop'' demo_target demo_retry) demo_written demo_request ?s))))"
    using serve by (simp add: demo_net_def)
  show ?thesis
    using forwarded_request [OF demo_peer _ sent] serve
    by (simp add: demo_no_upgrade demo_target_def)
      (simp add: demo_request_def hValues_def joinQuery_def bodyBytes_def)
qed

theorem client_can_strip_headers_witness:
  "let req = demo_request\<lparr>reqHeader := [''Connection'' \<mapsto> [''x-internal-auth'']]\<rparr>;
       r = req\<lparr>reqHeader := setAll [(''X-Internal-Auth'', ''s3cret'')] (reqHeader req)\<rparr>
   in hValues (reqHeader (outgoing r (proxyDirector demo_target r))) ''x-internal-auth'' = []"
proof -
  let ?req = "demo_request\<lparr>reqHeader := [''Connection'' \<mapsto> [''x-internal-auth'']]\<rparr>"
  have "map trimSpace (splitOn CHR '','' ''x-internal-auth'') = [''x-internal-auth'']" by code_simp
  then have tok: "''x-internal-auth'' \<in> set (headerTokens (reqHeader ?req) ''Connection'')"
    by (simp add: headerTokens_def hValues_def)
  have canon: "canonicalKey ''x-internal-auth'' = ''X-Internal-Auth''" "canonicalKey ''X-Internal-Auth'' = ''X-Internal-Auth''"
    by code_simp+
  show ?thesis
    using client_can_strip_headers [OF tok, of "[(''X-Internal-Auth'', ''s3cret'')]" "demo_answer ''ok''" demo_writer "0::nat" demo_target]
    by (simp add: canon Let_def)
qed

end
