(* ===== verification/Origin.thy ===== *)
theory Origin
  imports Prelude
begin

text \<open>
  The per-origin health state of \<^verbatim>\<open>gateway/internal/proxy/origin.go\<close>: the reactive
  cooldown, the flag set by active probing, and the circuit breaker. Every method of
  \<^verbatim>\<open>originState\<close> runs under its mutex, so a concurrent execution is a sequence of whole
  method calls; \<open>origin_run\<close> and \<open>origin_reach\<close> range over all such sequences.
\<close>

section \<open>State and operations\<close>

record originState =
  lastFailureAt :: instant
  forcedDown :: bool
  consecutiveFailures :: int

definition maxBreakerCooldownShift :: int where
  "maxBreakerCooldownShift = 10"

text \<open>The zero value \<^verbatim>\<open>&originState{}\<close>.\<close>

definition newOriginState :: originState where
  "newOriginState = \<lparr>lastFailureAt = 0, forcedDown = False, consecutiveFailures = 0\<rparr>"

definition recordFailure :: "instant \<Rightarrow> originState \<Rightarrow> originState" where
  "recordFailure now s =
     s\<lparr>lastFailureAt := now, consecutiveFailures := i64 (consecutiveFailures s + 1)\<rparr>"

definition recordSuccess :: "originState \<Rightarrow> originState" where
  "recordSuccess s = s\<lparr>consecutiveFailures := 0, lastFailureAt := 0\<rparr>"

definition setForcedDown :: "bool \<Rightarrow> originState \<Rightarrow> originState" where
  "setForcedDown down s = s\<lparr>forcedDown := down\<rparr>"

text \<open>
  A negative shift count would panic in Go; both callers pass a difference they have just
  checked to be non-negative (\<open>escalation_shift_nonneg\<close> below), so the shift is a \<^typ>\<open>nat\<close> count.
\<close>

definition escalatedCooldown :: "duration \<Rightarrow> int \<Rightarrow> duration" where
  "escalatedCooldown base shift =
     (let shift = (if shift > maxBreakerCooldownShift then maxBreakerCooldownShift else shift)
      in shl64 base (nat shift))"

definition available :: "instant \<Rightarrow> duration \<Rightarrow> int \<Rightarrow> duration \<Rightarrow> originState \<Rightarrow> bool" where
  "available now cooldown breakerThreshold breakerCooldown s =
     (if forcedDown s then False
      else if is_zero (lastFailureAt s) then True
      else
        let effective =
          (if breakerThreshold > 0 \<and> consecutiveFailures s \<ge> breakerThreshold
           then escalatedCooldown breakerCooldown (i64 (consecutiveFailures s - breakerThreshold))
           else cooldown)
        in time_sub now (lastFailureAt s) > effective)"

definition breakerOpen :: "instant \<Rightarrow> int \<Rightarrow> duration \<Rightarrow> originState \<Rightarrow> bool" where
  "breakerOpen now breakerThreshold breakerCooldown s =
     (if breakerThreshold \<le> 0 \<or> consecutiveFailures s < breakerThreshold then False
      else
        let effective = escalatedCooldown breakerCooldown (i64 (consecutiveFailures s - breakerThreshold))
        in time_sub now (lastFailureAt s) \<le> effective)"

section \<open>The calls an origin's state receives\<close>

datatype origin_event =
    Failed instant \<comment> \<open>the reverse proxy's error handler ran at this instant\<close>
  | Answered \<comment> \<open>the origin answered, with any status\<close>
  | Probed bool \<comment> \<open>a health probe finished; \<open>True\<close> when it was healthy\<close>

fun origin_step :: "origin_event \<Rightarrow> originState \<Rightarrow> originState" where
  "origin_step (Failed t) s = recordFailure t s"
| "origin_step Answered s = recordSuccess s"
| "origin_step (Probed healthy) s = setForcedDown (\<not> healthy) s"

definition origin_run :: "origin_event list \<Rightarrow> originState \<Rightarrow> originState" where
  "origin_run es s = fold origin_step es s"

text \<open>
  The clock never reads Go's zero instant, and fewer than \<open>2^63\<close> failures are recorded. The
  reachable states carry the number of calls made so far.
\<close>

inductive origin_reach :: "nat \<Rightarrow> originState \<Rightarrow> bool" where
  fresh: "origin_reach 0 newOriginState"
| failed: "origin_reach n s \<Longrightarrow> 0 < t \<Longrightarrow> origin_reach (Suc n) (recordFailure t s)"
| answered: "origin_reach n s \<Longrightarrow> origin_reach (Suc n) (recordSuccess s)"
| probed: "origin_reach n s \<Longrightarrow> origin_reach (Suc n) (setForcedDown d s)"

lemmas origin_ops = recordFailure_def recordSuccess_def setForcedDown_def newOriginState_def

section \<open>The invariant\<close>

text \<open>The failure counter and the time stamp agree: one is zero exactly when the other is.\<close>

definition origin_inv :: "originState \<Rightarrow> bool" where
  "origin_inv s \<longleftrightarrow> 0 \<le> consecutiveFailures s \<and> in_i64 (consecutiveFailures s) \<and>
     (lastFailureAt s = 0 \<longleftrightarrow> consecutiveFailures s = 0)"

lemma origin_inv_new [intro, simp]: "origin_inv newOriginState"
  by (simp add: origin_inv_def newOriginState_def in_i64_def)

lemma origin_inv_recordSuccess [intro, simp]: "origin_inv (recordSuccess s)"
  by (simp add: origin_inv_def recordSuccess_def in_i64_def)

lemma origin_inv_setForcedDown [simp]: "origin_inv (setForcedDown d s) \<longleftrightarrow> origin_inv s"
  by (simp add: origin_inv_def setForcedDown_def)

lemma origin_inv_recordFailure:
  assumes "origin_inv s" "0 < t" "consecutiveFailures s < max_i64"
  shows "origin_inv (recordFailure t s)"
proof -
  have "in_i64 (consecutiveFailures s + 1)"
    using assms by (auto simp: origin_inv_def in_i64_def)
  then show ?thesis
    using assms by (auto simp: origin_inv_def recordFailure_def)
qed

lemma origin_reach_count:
  assumes "origin_reach n s" "int n \<le> max_i64"
  shows "origin_inv s \<and> consecutiveFailures s \<le> int n"
  using assms
proof (induction rule: origin_reach.induct)
  case (failed n s t)
  then have inv: "origin_inv s" and le: "consecutiveFailures s \<le> int n" and "int n < max_i64"
    by auto
  then have lt: "consecutiveFailures s < max_i64" by linarith
  have "in_i64 (consecutiveFailures s + 1)"
    using inv lt by (auto simp: origin_inv_def in_i64_def)
  then have "consecutiveFailures (recordFailure t s) = consecutiveFailures s + 1"
    by (simp add: recordFailure_def)
  with origin_inv_recordFailure [OF inv \<open>0 < t\<close> lt] le show ?case by simp
next
  case fresh
  show ?case by (simp add: newOriginState_def origin_inv_def in_i64_def)
next
  case (answered n s)
  then show ?case by (simp add: recordSuccess_def origin_inv_def in_i64_def)
next
  case (probed n s d)
  then show ?case by (simp add: setForcedDown_def origin_inv_def)
qed

lemma escalation_shift_nonneg:
  assumes "0 < threshold" "threshold \<le> consecutiveFailures s" "in_i64 (consecutiveFailures s)"
  shows "0 \<le> i64 (consecutiveFailures s - threshold)"
proof -
  have "in_i64 (consecutiveFailures s - threshold)"
    using assms by (auto simp: in_i64_def)
  then show ?thesis using assms by simp
qed

section \<open>Escalation\<close>

text \<open>With a base of at most \<open>2^53 - 1\<close> nanoseconds (about 104 days) no escalation overflows.\<close>

abbreviation max_breaker_base :: duration where
  "max_breaker_base \<equiv> 9007199254740991"

lemma escalatedCooldown_eq:
  assumes "0 \<le> base" "base \<le> max_breaker_base" "0 \<le> shift"
  shows "escalatedCooldown base shift = base * 2 ^ nat (min shift 10)"
proof -
  let ?n = "nat (min shift 10)"
  have "(2::int) ^ ?n \<le> 2 ^ 10" by (rule power_increasing) auto
  then have p: "(2::int) ^ ?n \<le> 1024" by simp
  have "base * 2 ^ ?n \<le> max_breaker_base * 1024"
    using assms p by (intro mult_mono) auto
  then have "in_i64 (base * 2 ^ ?n)"
    using assms(1) by (intro in_i64_nonneg) auto
  then show ?thesis
    by (auto simp: escalatedCooldown_def maxBreakerCooldownShift_def shl64_def min_def)
qed

lemma escalatedCooldown_mono:
  assumes "0 \<le> base" "base \<le> max_breaker_base" "0 \<le> m" "m \<le> n"
  shows "escalatedCooldown base m \<le> escalatedCooldown base n"
proof -
  have "(2::int) ^ nat (min m 10) \<le> 2 ^ nat (min n 10)"
    using assms by (intro power_increasing) auto
  then show ?thesis
    using assms by (simp add: escalatedCooldown_eq mult_left_mono)
qed

lemma escalatedCooldown_bounds:
  assumes "0 \<le> base" "base \<le> max_breaker_base" "0 \<le> shift"
  shows "base \<le> escalatedCooldown base shift \<and> escalatedCooldown base shift \<le> 1024 * base"
proof -
  have "base = escalatedCooldown base 0"
    using assms by (simp add: escalatedCooldown_eq)
  moreover have "escalatedCooldown base 0 \<le> escalatedCooldown base shift"
    using assms by (intro escalatedCooldown_mono) auto
  moreover have "(2::int) ^ nat (min shift 10) \<le> 2 ^ 10"
    by (rule power_increasing) auto
  then have "escalatedCooldown base shift \<le> base * 1024"
    using assms by (simp add: escalatedCooldown_eq mult_left_mono)
  ultimately show ?thesis by (simp add: mult.commute)
qed

section \<open>Availability and the breaker\<close>

lemma available_fresh [simp]: "available now c th bc newOriginState"
  by (simp add: available_def newOriginState_def is_zero_def)

lemma available_after_success [simp]:
  "available now c th bc (recordSuccess s) \<longleftrightarrow> \<not> forcedDown s"
  by (simp add: available_def recordSuccess_def is_zero_def)

lemma breaker_closed_after_success [simp]: "\<not> breakerOpen now th bc (recordSuccess s)"
  by (auto simp: breakerOpen_def recordSuccess_def)

lemma not_available_forcedDown: "forcedDown s \<Longrightarrow> \<not> available now c th bc s"
  by (simp add: available_def)

text \<open>Once the threshold is reached, the two checks are complements, up to the probe's flag.\<close>

lemma available_iff_breaker:
  assumes "origin_inv s" "0 < th" "th \<le> consecutiveFailures s"
  shows "available now c th bc s \<longleftrightarrow> \<not> forcedDown s \<and> \<not> breakerOpen now th bc s"
proof -
  have "lastFailureAt s \<noteq> 0" using assms by (auto simp: origin_inv_def)
  then show ?thesis
    using assms by (auto simp: available_def breakerOpen_def is_zero_def Let_def)
qed

lemma available_mono:
  assumes "available now c th bc s" "now \<le> now'"
  shows "available now' c th bc s"
  using assms time_sub_mono [OF assms(2), of "lastFailureAt s"]
  by (auto simp: available_def Let_def split: if_splits)

lemma failures_run:
  assumes "consecutiveFailures s = 0" "int (length ts) \<le> max_i64"
  shows "consecutiveFailures (origin_run (map Failed ts) s) = int (length ts) \<and>
    (ts \<noteq> [] \<longrightarrow> lastFailureAt (origin_run (map Failed ts) s) = last ts) \<and>
    forcedDown (origin_run (map Failed ts) s) = forcedDown s"
  using assms(2)
proof (induction ts rule: rev_induct)
  case Nil
  then show ?case using assms(1) by (simp add: origin_run_def)
next
  case (snoc t ts)
  then have "in_i64 (int (length ts) + 1)" by (intro in_i64_nonneg) auto
  with snoc show ?case by (simp add: origin_run_def recordFailure_def)
qed

lemma origin_step_count:
  "origin_inv s \<Longrightarrow> consecutiveFailures s < max_i64 \<Longrightarrow> (\<And>t. e = Failed t \<Longrightarrow> 0 < t) \<Longrightarrow>
    origin_inv (origin_step e s) \<and> consecutiveFailures (origin_step e s) \<le> consecutiveFailures s + 1"
proof (cases e)
  case (Failed t)
  assume a: "origin_inv s" "consecutiveFailures s < max_i64" "\<And>t. e = Failed t \<Longrightarrow> 0 < t"
  then have "in_i64 (consecutiveFailures s + 1)" by (auto simp: origin_inv_def in_i64_def)
  then show ?thesis
    using a Failed origin_inv_recordFailure [of s t] by (simp add: recordFailure_def)
qed (auto simp: origin_inv_def recordSuccess_def setForcedDown_def in_i64_def)

lemma origin_inv_run:
  assumes "origin_inv s" "consecutiveFailures s + int (length es) \<le> max_i64" "\<forall>t. Failed t \<in> set es \<longrightarrow> 0 < t"
  shows "origin_inv (origin_run es s)"
  using assms
proof (induction es arbitrary: s)
  case (Cons e es)
  have "origin_inv (origin_step e s) \<and> consecutiveFailures (origin_step e s) \<le> consecutiveFailures s + 1"
    using Cons.prems by (intro origin_step_count) auto
  then show ?case using Cons by (simp add: origin_run_def)
qed (simp add: origin_run_def)

section \<open>Properties\<close>

text \<open>
  In every state an origin can reach, the two checks of the load balancer agree: an origin that
  has failed often enough to trip its breaker is available exactly when no probe holds it down and
  its breaker is not open. So the fast failure of the load balancer never hides an origin that would
  be tried.
\<close>

lemma breaker_and_availability_agree:
  assumes "origin_reach n s" "int n \<le> max_i64" "0 < th" "th \<le> consecutiveFailures s"
  shows "available now c th bc s \<longleftrightarrow> \<not> forcedDown s \<and> \<not> breakerOpen now th bc s"
  using origin_reach_count [OF assms(1,2)] assms(3,4) by (intro available_iff_breaker) blast+

text \<open>
  C20: After any number of consecutive failures the breaker is open exactly when they number at least
  the configured threshold and the time since the last of them is at most the breaker cooldown, doubled
  for every failure beyond the threshold up to ten times; so it stays closed below the threshold. The
  first answer of the origin closes it and makes the origin available again unless a probe holds it
  down. The configured cooldown is at most 104 days, as a longer one could overflow, and no more than
  \<open>2^63 - 1\<close> failures are counted.
\<close>

theorem breaker_opens_and_closes:
  assumes "0 < th" "int (length ts) \<le> max_i64" "0 \<le> bc" "bc \<le> max_breaker_base"
    and "consecutiveFailures s = 0" "ts \<noteq> []" "last ts \<le> now"
  shows "(breakerOpen now th bc (origin_run (map Failed ts) s) \<longleftrightarrow>
      th \<le> int (length ts) \<and> now - last ts \<le> bc * 2 ^ nat (min (int (length ts) - th) 10)) \<and>
    \<not> breakerOpen now th bc (origin_run (map Failed ts @ [Answered]) s) \<and>
    (available now c th bc (origin_run (map Failed ts @ [Answered]) s) \<longleftrightarrow> \<not> forcedDown s)"
proof -
  let ?n = "int (length ts)" and ?s = "origin_run (map Failed ts) s"
  note run = failures_run [OF assms(5,2)]
  have "breakerOpen now th bc ?s \<longleftrightarrow> now - last ts \<le> bc * 2 ^ nat (min (?n - th) 10)" if "th \<le> ?n"
  proof -
    have "i64 (?n - th) = ?n - th" using assms(1,2) that by (intro i64_id) (auto simp: in_i64_def)
    moreover have e: "escalatedCooldown bc (?n - th) = bc * 2 ^ nat (min (?n - th) 10)"
      using assms(3,4) that by (intro escalatedCooldown_eq) simp_all
    moreover have "bc * 2 ^ nat (min (?n - th) 10) < max_i64"
      using escalatedCooldown_bounds [of bc "?n - th"] assms(3,4) that e by simp
    moreover have "time_sub now (last ts) \<le> x \<longleftrightarrow> now - last ts \<le> x" if "x < max_i64" for x
      using that assms(7) by (auto simp: time_sub_def)
    ultimately show ?thesis using run assms(1,6) that by (simp add: breakerOpen_def)
  qed
  moreover have "\<not> breakerOpen now th bc ?s" if "\<not> th \<le> ?n" using that run by (simp add: breakerOpen_def)
  ultimately show ?thesis using run by (auto simp: origin_run_def)
qed

text \<open>
  The open time doubles with every failure beyond the threshold, up to 1024 times the configured
  cooldown, and never overflows for a configured cooldown of up to 104 days.
\<close>

lemma cooldown_escalation:
  assumes "0 \<le> base" "base \<le> max_breaker_base" "0 \<le> shift"
  shows "escalatedCooldown base (shift + 1) = (if shift < 10 then 2 * escalatedCooldown base shift else escalatedCooldown base shift) \<and>
    base \<le> escalatedCooldown base shift \<and> escalatedCooldown base shift \<le> 1024 * base"
proof -
  have "nat (min (shift + 1) 10) = (if shift < 10 then Suc (nat (min shift 10)) else nat (min shift 10))"
    using assms(3) by auto
  then have "escalatedCooldown base (shift + 1) = (if shift < 10 then 2 * escalatedCooldown base shift else escalatedCooldown base shift)"
    using assms by (simp add: escalatedCooldown_eq)
  then show ?thesis using escalatedCooldown_bounds [OF assms] by blast
qed

text \<open>
  A breaker whose cooldown has elapsed lets every request through, not a single trial: until
  another outcome is recorded, the origin stays available at every later instant.
\<close>

lemma half_open_admits_all:
  assumes "origin_reach n s" "int n \<le> max_i64" "0 < th" "th \<le> consecutiveFailures s" "\<not> forcedDown s"
    and "\<not> breakerOpen now th bc s" "now \<le> now'"
  shows "available now' c th bc s \<and> \<not> breakerOpen now' th bc s"
proof -
  have inv: "origin_inv s" using origin_reach_count [OF assms(1,2)] by blast
  have "available now c th bc s" using available_iff_breaker [OF inv assms(3,4)] assms(5,6) by blast
  then have "available now' c th bc s" using assms(7) by (rule available_mono)
  then show ?thesis using available_iff_breaker [OF inv assms(3,4)] by blast
qed

section \<open>Witnesses\<close>

definition demo_tripped :: originState where
  "demo_tripped = recordFailure 200 (recordFailure 100 newOriginState)"

lemma demo_tripped_reach: "origin_reach 2 demo_tripped"
proof -
  have "origin_reach (Suc (Suc 0)) demo_tripped"
    unfolding demo_tripped_def by (intro origin_reach.intros) simp_all
  then show ?thesis by (simp add: numeral_2_eq_2)
qed

lemma demo_tripped_count: "consecutiveFailures demo_tripped = 2" "\<not> forcedDown demo_tripped"
  by (simp_all add: demo_tripped_def origin_ops i64_def)

theorem breaker_opens_and_closes_witness:
  "breakerOpen 250 2 1000 (origin_run [Failed 100, Failed 200] newOriginState)"
  using breaker_opens_and_closes [of 2 "[100, 200]" 1000 newOriginState 250] by (simp add: newOriginState_def)

end
