(* ===== verification/Load_Balancer.thy ===== *)
theory Load_Balancer
  imports Reverse_Proxy Origin
begin

text \<open>
  The round-robin proxy of a service (\<^verbatim>\<open>loadbalancer.go\<close>) and the active health prober
  (\<^verbatim>\<open>health.go\<close>). Origin states are shared between a proxy and its prober and live in the
  world by identity, as does the \<^verbatim>\<open>atomic.Uint64\<close> of each proxy.
\<close>

section \<open>State\<close>

record lb_world = log_world +
  origins :: "nat \<Rightarrow> originState"
  nextOrigin :: nat
  counters :: "nat \<Rightarrow> u64"
  nextLB :: nat

record breakerOptions =
  boThreshold :: int
  boCooldown :: duration

record roundRobinOrigin =
  rrURL :: string
  rrTarget :: target
  rrState :: nat

record roundRobinProxy =
  lbName :: string
  lbOrigins :: "roundRobinOrigin list"
  lbRetry :: retryOptions
  lbCooldown :: duration
  lbBreaker :: breakerOptions
  lbCounter :: nat

definition onOrigin :: "nat \<Rightarrow> (originState \<Rightarrow> originState) \<Rightarrow> 'a lb_world_scheme \<Rightarrow> 'a lb_world_scheme" where
  "onOrigin i f s = s\<lparr>origins := (origins s)(i := f (origins s i))\<rparr>"

section \<open>Building\<close>

text \<open>The reverse proxy of one origin, its hooks wrapped to record the outcome.\<close>

definition originProxy :: "string \<Rightarrow> retryOptions \<Rightarrow> target \<Rightarrow> nat \<Rightarrow> 'a lb_world_scheme reverseProxy" where
  "originProxy name retry t state =
     (let rp = targetProxy name t retry
      in rp\<lparr>rpErrorHandler := (\<lambda>w r s. rpErrorHandler rp w r (onOrigin state (recordFailure (clock s)) s)),
            rpModifyResponse := (\<lambda>resp s. rpModifyResponse rp resp (onOrigin state recordSuccess s))\<rparr>)"

definition newState :: "'a lb_world_scheme \<Rightarrow> nat \<times> 'a lb_world_scheme" where
  "newState s = (nextOrigin s, s\<lparr>origins := (origins s)(nextOrigin s := newOriginState), nextOrigin := Suc (nextOrigin s)\<rparr>)"

text \<open>The loop over the origin URLs.\<close>

fun buildOrigins ::
  "(string \<Rightarrow> target option) \<Rightarrow> string \<Rightarrow> retryOptions \<Rightarrow> string list \<Rightarrow> 'a lb_world_scheme
    \<Rightarrow> (proxy_error + roundRobinOrigin list) \<times> 'a lb_world_scheme" where
  "buildOrigins parseURL name retry [] s = (Inr [], s)"
| "buildOrigins parseURL name retry (u # us) s =
     (case newReverseProxy parseURL name u retry :: proxy_error + 'a lb_world_scheme reverseProxy of
        Inl e \<Rightarrow> (Inl e, s)
      | Inr rp \<Rightarrow>
          let (i, s) = newState s in
          case buildOrigins parseURL name retry us s of
            (Inl e, s) \<Rightarrow> (Inl e, s)
          | (Inr os, s) \<Rightarrow> (Inr (\<lparr>rrURL = u, rrTarget = the (parseURL u), rrState = i\<rparr> # os), s))"

definition newOriginProxy ::
  "(string \<Rightarrow> target option) \<Rightarrow> string \<Rightarrow> string list \<Rightarrow> duration \<Rightarrow> retryOptions \<Rightarrow> breakerOptions \<Rightarrow> 'a lb_world_scheme
    \<Rightarrow> (proxy_error + roundRobinProxy) \<times> 'a lb_world_scheme" where
  "newOriginProxy parseURL name urls cooldown retry breaker s =
     (if urls = [] then (Inl (NoOrigins name), s)
      else case buildOrigins parseURL name retry urls s of
             (Inl e, s) \<Rightarrow> (Inl e, s)
           | (Inr os, s) \<Rightarrow>
               (Inr \<lparr>lbName = name, lbOrigins = os, lbRetry = retry, lbCooldown = cooldown, lbBreaker = breaker,
                     lbCounter = nextLB s\<rparr>,
                s\<lparr>counters := (counters s)(nextLB s := 0), nextLB := Suc (nextLB s)\<rparr>))"

section \<open>Serving\<close>

definition serveOrigin :: "roundRobinProxy \<Rightarrow> roundRobinOrigin \<Rightarrow> 'a lb_world_scheme handler" where
  "serveOrigin lb o' = rpServeHTTP (originProxy (lbName lb) (lbRetry lb) (rrTarget o') (rrState o'))"

definition originAt :: "roundRobinProxy \<Rightarrow> u64 \<Rightarrow> roundRobinOrigin" where
  "originAt lb k = lbOrigins lb ! unat (k mod of_nat (length (lbOrigins lb)))"

text \<open>The origins in the order the loop visits them; the sum wraps at \<open>2^64\<close>.\<close>

definition scanOrder :: "roundRobinProxy \<Rightarrow> u64 \<Rightarrow> roundRobinOrigin list" where
  "scanOrder lb start = map (\<lambda>i. originAt lb (start + of_nat i)) [0..<length (lbOrigins lb)]"

definition isAvailable :: "roundRobinProxy \<Rightarrow> 'a lb_world_scheme \<Rightarrow> roundRobinOrigin \<Rightarrow> bool" where
  "isAvailable lb s o' = available (clock s) (lbCooldown lb) (boThreshold (lbBreaker lb)) (boCooldown (lbBreaker lb)) (origins s (rrState o'))"

definition isTripped :: "roundRobinProxy \<Rightarrow> 'a lb_world_scheme \<Rightarrow> roundRobinOrigin \<Rightarrow> bool" where
  "isTripped lb s o' = breakerOpen (clock s) (boThreshold (lbBreaker lb)) (boCooldown (lbBreaker lb)) (origins s (rrState o'))"

definition advance :: "roundRobinProxy \<Rightarrow> 'a lb_world_scheme \<Rightarrow> u64 \<times> 'a lb_world_scheme" where
  "advance lb s = (let start = counters s (lbCounter lb) + 1 in (start, s\<lparr>counters := (counters s)(lbCounter lb := start)\<rparr>))"

definition lbServeHTTP :: "roundRobinProxy \<Rightarrow> 'a lb_world_scheme handler" where
  "lbServeHTTP lb w r s =
     (let (start, s) = advance lb s in
      case find (isAvailable lb s) (scanOrder lb start) of
        Some o' \<Rightarrow> serveOrigin lb o' w r s
      | None \<Rightarrow>
          if lbOrigins lb = [] then Panicked w s
          else
            let fallback = originAt lb start in
            if isTripped lb s fallback then Done (writeBadGateway (lbName lb) w) s
            else serveOrigin lb fallback w r s)"

section \<open>Probing\<close>

text \<open>\<^verbatim>\<open>ProbeTargets\<close> and the prober; what a probe's \<^verbatim>\<open>client.Get\<close> yields is an argument.\<close>

record prober =
  prTargets :: "(string \<times> nat) list"
  prPath :: string
  prInterval :: duration

definition probeTargets :: "roundRobinProxy \<Rightarrow> (string \<times> nat) list" where
  "probeTargets lb = map (\<lambda>o'. (rrURL o', rrState o')) (lbOrigins lb)"

definition newProber :: "(string \<times> nat) list \<Rightarrow> string \<Rightarrow> duration \<Rightarrow> prober" where
  "newProber targets path interval = \<lparr>prTargets = targets, prPath = path, prInterval = interval\<rparr>"

definition probe :: "(string \<Rightarrow> string + int) \<Rightarrow> prober \<Rightarrow> string \<Rightarrow> bool" where
  "probe httpGet p origURL =
     (case httpGet (trimSuffix origURL ''/'' @ prPath p) of
        Inl err \<Rightarrow> False
      | Inr status \<Rightarrow> status \<ge> 200 \<and> status < 300)"

definition probeOnce :: "(string \<Rightarrow> string + int) \<Rightarrow> prober \<Rightarrow> 'a lb_world_scheme \<Rightarrow> 'a lb_world_scheme" where
  "probeOnce httpGet p s =
     fold (\<lambda>(u, i) s. onOrigin i (setForcedDown (\<not> probe httpGet p u)) s) (prTargets p) s"

text \<open>
  \<^verbatim>\<open>Start\<close> over the answers of successive rounds, until the context is cancelled;
  \<open>None\<close> is the panic of \<^verbatim>\<open>time.NewTicker\<close> on an interval that is not positive.
\<close>

definition proberRun :: "prober \<Rightarrow> (string \<Rightarrow> string + int) list \<Rightarrow> 'a lb_world_scheme \<Rightarrow> 'a lb_world_scheme option" where
  "proberRun p rounds s = (if prInterval p \<le> 0 then None else Some (fold (\<lambda>get. probeOnce get p) rounds s))"

section \<open>The contract of the origin proxies\<close>

lemma originProxy_simps [simp]:
  "rpTransport (originProxy name retry t i) = proxyTransport retry"
  "rpDirector (originProxy name retry t i) = proxyDirector t"
  "rpErrorHandler (originProxy name retry t i) w r s = (writeBadGateway name w, onOrigin i (recordFailure (clock s)) s)"
  "rpModifyResponse (originProxy name retry t i) resp s = dropOriginRequestID resp (onOrigin i recordSuccess s)"
  by (simp_all add: originProxy_def targetProxy_def Let_def)

interpretation origin_proxy: reverse_proxy "originProxy name retry t i" for name retry t i
  by unfold_locales (simp_all add: writeBadGateway_answers transport_laws)

lemma serveOrigin_ok: "handler_ok (serveOrigin lb o')"
  by (simp add: serveOrigin_def origin_proxy.serve_ok)

lemma lbServe_ok: "handler_ok (lbServeHTTP lb)"
proof (rule handler_okI)
  fix w r s
  show "shape (writer_of (lbServeHTTP lb w r s)) = shape w"
    by (simp add: lbServeHTTP_def Let_def handler_ok_shape [OF serveOrigin_ok] split: prod.splits option.splits)
next
  fix w r s w' s'
  assume "fresh w" "lbServeHTTP lb w r s = Done w' s'"
  then show "settled w'"
    using writeBadGateway_answers [of w "lbName lb"] fresh_unsent [of w]
    by (auto simp: lbServeHTTP_def Let_def dest: handler_ok_settled [OF serveOrigin_ok]
        split: prod.splits option.splits if_splits)
qed

section \<open>The order of the scan\<close>

lemma unat_small: "n < 18446744073709551616 \<Longrightarrow> unat (of_nat n :: u64) = n"
  by (simp add: unat_of_nat)

lemma unat_index:
  assumes "0 < n" "unat (start :: u64) + i < 18446744073709551616" "n < 18446744073709551616"
  shows "unat ((start + of_nat i) mod of_nat n) = (unat start + i) mod n"
proof -
  have i: "unat (of_nat i :: u64) = i" and n: "unat (of_nat n :: u64) = n"
    using assms by (simp_all add: unat_small)
  have "unat (start + of_nat i) = unat start + i"
    using assms(2) i by (subst unat_add_lem [THEN iffD1]) simp_all
  then show ?thesis using n by (simp add: unat_mod)
qed

text \<open>As long as the counter does not wrap within a scan, the scan is a rotation of all origins.\<close>

definition noWrap :: "roundRobinProxy \<Rightarrow> u64 \<Rightarrow> bool" where
  "noWrap lb start \<longleftrightarrow> unat start + length (lbOrigins lb) < 18446744073709551616"

lemma scanOrder_eq:
  assumes "noWrap lb start"
  shows "scanOrder lb start = map (\<lambda>i. lbOrigins lb ! ((unat start + i) mod length (lbOrigins lb))) [0..<length (lbOrigins lb)]"
  unfolding scanOrder_def originAt_def
proof (rule map_cong [OF refl])
  fix i
  let ?n = "length (lbOrigins lb)"
  assume i: "i \<in> set [0..<?n]"
  then have n: "0 < ?n" by auto
  have lt: "unat start + i < 18446744073709551616" using i assms by (simp add: noWrap_def)
  have "?n < 18446744073709551616" using assms by (simp add: noWrap_def)
  then show "lbOrigins lb ! unat ((start + of_nat i) mod of_nat ?n) = lbOrigins lb ! ((unat start + i) mod ?n)"
    using unat_index [OF n lt] by simp
qed

lemma rotation_set:
  fixes n c :: nat
  assumes "0 < n"
  shows "(\<lambda>i. (c + i) mod n) ` {0..<n} = {0..<n}"
proof
  show "(\<lambda>i. (c + i) mod n) ` {0..<n} \<subseteq> {0..<n}" using assms by auto
  show "{0..<n} \<subseteq> (\<lambda>i. (c + i) mod n) ` {0..<n}"
  proof
    fix j assume j: "j \<in> {0..<n}"
    let ?i = "(j + (n - c mod n)) mod n"
    have "(c + ?i) mod n = (c mod n + (j + (n - c mod n))) mod n" by (simp add: mod_simps)
    also have "c mod n + (j + (n - c mod n)) = j + n" using mod_less_divisor [OF assms, of c] by linarith
    also have "(j + n) mod n = j" using j by simp
    finally show "j \<in> (\<lambda>i. (c + i) mod n) ` {0..<n}" using assms by (intro image_eqI [of _ _ ?i]) auto
  qed
qed

lemma scanOrder_all:
  assumes "noWrap lb start"
  shows "set (scanOrder lb start) = set (lbOrigins lb)"
proof (cases "lbOrigins lb = []")
  case False
  let ?n = "length (lbOrigins lb)"
  have "set (scanOrder lb start) = (\<lambda>j. lbOrigins lb ! j) ` ((\<lambda>i. (unat start + i) mod ?n) ` {0..<?n})"
    by (simp add: scanOrder_eq [OF assms] image_image)
  also have "\<dots> = (\<lambda>j. lbOrigins lb ! j) ` {0..<?n}" using False rotation_set [of ?n] by simp
  also have "\<dots> = set (lbOrigins lb)" by (auto simp: set_conv_nth)
  finally show ?thesis .
qed (simp add: scanOrder_def)

lemma originAt_in: "lbOrigins lb \<noteq> [] \<Longrightarrow> length (lbOrigins lb) < 18446744073709551616 \<Longrightarrow> originAt lb k \<in> set (lbOrigins lb)"
  by (simp add: originAt_def unat_mod unat_small)

section \<open>Effects on the origin states\<close>

text \<open>The instants of the failures in a sequence of calls.\<close>

fun failTimes :: "origin_event list \<Rightarrow> instant list" where
  "failTimes [] = []"
| "failTimes (Failed t # es) = t # failTimes es"
| "failTimes (e # es) = failTimes es"

lemma failTimes_append [simp]: "failTimes (es @ fs) = failTimes es @ failTimes fs"
  by (induction es rule: failTimes.induct) auto

lemma failTimes_set: "t \<in> set (failTimes es) \<longleftrightarrow> Failed t \<in> set es"
  by (induction es rule: failTimes.induct) auto

text \<open>
  \<open>touches es i s s'\<close>: between \<open>s\<close> and \<open>s'\<close> exactly the calls \<open>es\<close> changed the state of origin \<open>i\<close>,
  failures stamped with instants in between in their order, and nothing changed the other origins'
  states, the counters or what else the world holds beyond them.
\<close>

definition touches :: "origin_event list \<Rightarrow> nat \<Rightarrow> 'a lb_world_scheme \<Rightarrow> 'a lb_world_scheme \<Rightarrow> bool" where
  "touches es i s s' \<longleftrightarrow> counters s' = counters s \<and> lb_world.more s' = lb_world.more s \<and>
     stores s' = stores s \<and> sugarSetup s' = sugarSetup s \<and> logBufs s' = logBufs s \<and> nextLog s' = nextLog s \<and> stdout s' = stdout s \<and>
     sorted (clock s # failTimes es @ [clock s']) \<and> origins s' = (origins s)(i := origin_run es (origins s i))"

text \<open>What a handler records of its origin: perhaps an answer, and failures after it.\<close>

fun is_failure :: "origin_event \<Rightarrow> bool" where
  "is_failure (Failed t) = True"
| "is_failure e = False"

fun outcome :: "origin_event list \<Rightarrow> bool" where
  "outcome (Answered # es) = list_all is_failure es"
| "outcome es = list_all is_failure es"

lemma failures_outcome: "list_all is_failure es \<Longrightarrow> outcome es"
  by (cases es rule: outcome.cases) auto

lemma touches_trans:
  assumes "touches es i s s1" "touches fs i s1 s2"
  shows "touches (es @ fs) i s s2"
proof -
  have "sorted (clock s # failTimes (es @ fs) @ [clock s2])"
    using assms by (auto simp: touches_def sorted_append intro: order.trans)
  then show ?thesis using assms by (auto simp: touches_def origin_run_def)
qed

lemma touches_clock: "touches es i s s' \<Longrightarrow> clock s \<le> clock s'"
  by (simp add: touches_def)

lemma touches_failure: "touches [Failed (clock s)] i s (onOrigin i (recordFailure (clock s)) s)"
  by (simp add: touches_def onOrigin_def origin_run_def)

lemma touches_success: "touches [Answered] i s (onOrigin i recordSuccess s)"
  by (simp add: touches_def onOrigin_def origin_run_def)

lemma env_more_parts:
  assumes "env.more s' = env.more (s :: 'a lb_world_scheme)"
  shows "origins s' = origins s" "counters s' = counters s" "lb_world.more s' = lb_world.more s"
    "sugarSetup s' = sugarSetup s" "logBufs s' = logBufs s" "nextLog s' = nextLog s" "stdout s' = stdout s" "stores s' = stores s"
  using assms by (cases s; cases s'; simp)+

lemma touches_transport:
  assumes "proxyTransport retry r (s :: 'a lb_world_scheme) = (out, s')"
  shows "touches [] i s s'"
proof -
  have "env.more s' = env.more s" "clock s \<le> clock s'"
    using transport_laws(1) [of retry r s] transport_laws(4) [of s retry r] assms by simp_all
  then show ?thesis using env_more_parts by (auto simp: touches_def origin_run_def)
qed

lemma touches_refl: "touches [] i s s"
  by (simp add: touches_def origin_run_def)

lemma touches_times:
  assumes "touches es i s s'"
  shows "\<forall>t. Failed t \<in> set es \<longrightarrow> clock s \<le> t"
  using assms by (simp add: touches_def failTimes_set)

lemma upgrade_touches:
  "\<exists>es. length es \<le> 2 \<and> list_all is_failure es \<and> touches es (rrState o') s
     (world_of (handleUpgradeResponse (originProxy name retry t (rrState o')) w outreq res s))"
proof -
  let ?i = "rrState o'"
  let ?s1 = "onOrigin ?i (recordFailure (clock s)) s"
  let ?ok = "\<lambda>u. \<exists>es. length es \<le> 2 \<and> list_all is_failure es \<and> touches es ?i s u"
  have 0: "?ok s" using touches_refl by (intro exI [of _ "[]"]) simp
  have 1: "?ok ?s1" using touches_failure by (intro exI [of _ "[Failed (clock s)]"]) simp
  have 2: "?ok (onOrigin ?i (recordFailure (clock ?s1)) ?s1)"
    using touches_trans [OF touches_failure touches_failure]
    by (intro exI [of _ "[Failed (clock s), Failed (clock ?s1)]"]) simp
  show ?thesis using 0 1 2 by (auto simp: handleUpgradeResponse_def Let_def split: prod.splits)
qed

lemma serveOrigin_touches:
  "\<exists>es. length es \<le> 3 \<and> outcome es \<and> touches es (rrState o') s (world_of (serveOrigin lb o' w r s))"
proof -
  let ?rp = "originProxy (lbName lb) (lbRetry lb) (rrTarget o') (rrState o')" and ?i = "rrState o'"
  let ?ok = "\<lambda>u. \<exists>es. length es \<le> 3 \<and> outcome es \<and> touches es ?i s u"
  define o1 where "o1 = proxyDirector (rrTarget o') (if contentLength r = 0 then r\<lparr>reqBody := None\<rparr> else r)"
  obtain out s1 where t: "proxyTransport (lbRetry lb) (outgoing r o1) s = (out, s1)"
    by (cases "proxyTransport (lbRetry lb) (outgoing r o1) s")
  have 0: "touches [] ?i s s1" using touches_transport [OF t] .
  have f: "?ok (onOrigin ?i (recordFailure (clock s)) s)" using touches_failure by (intro exI [of _ "[Failed (clock s)]"]) simp
  have f1: "?ok (onOrigin ?i (recordFailure (clock s1)) s1)"
    using touches_trans [OF 0 touches_failure] by (intro exI [of _ "[Failed (clock s1)]"]) simp
  have a: "touches [Answered] ?i s (onOrigin ?i recordSuccess s1)" using touches_trans [OF 0 touches_success] by simp
  have a1: "?ok (onOrigin ?i recordSuccess s1)" using a by (intro exI [of _ "[Answered]"]) simp
  have u: "?ok (world_of (handleUpgradeResponse ?rp w' or' res (onOrigin ?i recordSuccess s1)))" for w' or' res
  proof -
    obtain es where "length es \<le> 2" "list_all is_failure es"
      "touches es ?i (onOrigin ?i recordSuccess s1) (world_of (handleUpgradeResponse ?rp w' or' res (onOrigin ?i recordSuccess s1)))"
      using upgrade_touches by blast
    then show ?thesis using touches_trans [OF a] by (intro exI [of _ "Answered # es"]) auto
  qed
  have z: "?ok s1" using 0 by (intro exI [of _ "[]"]) simp
  show ?thesis
    using f f1 a1 u z t
    by (auto simp: serveOrigin_def rpServeHTTP_def Let_def dropOriginRequestID_def o1_def [symmetric]
        split: option.splits sum.splits)
qed

lemma isAvailable_not_tripped:
  assumes "origin_inv (origins s (rrState o'))" "isAvailable lb s o'"
  shows "\<not> isTripped lb s o'"
proof (cases "0 < boThreshold (lbBreaker lb) \<and> boThreshold (lbBreaker lb) \<le> consecutiveFailures (origins s (rrState o'))")
  case True
  then show ?thesis using assms available_iff_breaker by (auto simp: isAvailable_def isTripped_def)
next
  case False
  then show ?thesis by (auto simp: isTripped_def breakerOpen_def)
qed

lemma advance_keeps:
  assumes "advance lb s = (start, s1)"
  shows "clock s1 = clock s" "origins s1 = origins s" "netCalls s1 = netCalls s" "start = counters s (lbCounter lb) + 1"
    "isAvailable lb s1 = isAvailable lb s" "isTripped lb s1 = isTripped lb s"
  using assms by (auto simp: advance_def Let_def isAvailable_def isTripped_def fun_eq_iff)

lemma lbServe_cases:
  assumes "lbOrigins lb \<noteq> []" "advance lb s = (start, s1)"
  obtains
    (found) o' where "o' \<in> set (scanOrder lb start)" "isAvailable lb s o'" "lbServeHTTP lb w r s = serveOrigin lb o' w r s1"
  | (tripped) "\<forall>o' \<in> set (scanOrder lb start). \<not> isAvailable lb s o'" "isTripped lb s (originAt lb start)"
      "lbServeHTTP lb w r s = Done (writeBadGateway (lbName lb) w) s1"
  | (fallback) "\<forall>o' \<in> set (scanOrder lb start). \<not> isAvailable lb s o'" "\<not> isTripped lb s (originAt lb start)"
      "lbServeHTTP lb w r s = serveOrigin lb (originAt lb start) w r s1"
proof (cases "find (isAvailable lb s1) (scanOrder lb start)")
  case None
  then have "\<forall>o' \<in> set (scanOrder lb start). \<not> isAvailable lb s o'"
    using advance_keeps [OF assms(2)] by (auto simp: find_None_iff)
  then show thesis
    using None assms tripped fallback advance_keeps [OF assms(2)]
    by (cases "isTripped lb s (originAt lb start)") (auto simp: lbServeHTTP_def Let_def)
next
  case (Some o')
  then have "o' \<in> set (scanOrder lb start)" "isAvailable lb s1 o'"
    by (auto simp: find_Some_iff)
  then show thesis
    using Some assms found advance_keeps [OF assms(2)] by (auto simp: lbServeHTTP_def)
qed

text \<open>A service with a breaker that opens at the first failure, for the examples below.\<close>

definition demo_lb :: "string list \<Rightarrow> roundRobinProxy" where
  "demo_lb urls = \<lparr>lbName = ''shop'',
     lbOrigins = map (\<lambda>(i, u). \<lparr>rrURL = u, rrTarget = demo_target, rrState = i\<rparr>) (enumerate 0 urls),
     lbRetry = demo_retry, lbCooldown = 1000, lbBreaker = \<lparr>boThreshold = 1, boCooldown = 1000\<rparr>, lbCounter = 0\<rparr>"

lemma fold_forcedDown_other:
  assumes "k \<notin> rrState ` set os"
  shows "origins (fold (\<lambda>(u, i) s. onOrigin i (setForcedDown (f u)) s) (map (\<lambda>o'. (rrURL o', rrState o')) os) s) k = origins s k"
  using assms by (induction os arbitrary: s) (auto simp: onOrigin_def)

lemma fold_forcedDown:
  assumes "distinct (map rrState os)" "o' \<in> set os"
  shows "origins (fold (\<lambda>(u, i) s. onOrigin i (setForcedDown (f u)) s) (map (\<lambda>o'. (rrURL o', rrState o')) os) s) (rrState o') =
    setForcedDown (f (rrURL o')) (origins s (rrState o'))"
  using assms
proof (induction os arbitrary: s)
  case (Cons p os)
  show ?case
  proof (cases "o' = p")
    case True
    then have "rrState p \<notin> rrState ` set os" using Cons.prems by simp
    then show ?thesis using True by (simp add: fold_forcedDown_other) (simp add: onOrigin_def)
  next
    case False
    then have "rrState o' \<noteq> rrState p" using Cons.prems by (metis distinct.simps(2) image_eqI list.set_map list.simps(9) set_ConsD)
    then show ?thesis using Cons False by (simp add: onOrigin_def)
  qed
qed simp

lemma lbServe_keeps:
  assumes adv: "\<And>cs s. F (s\<lparr>counters := cs\<rparr>) = F s"
    and touch: "\<And>es i s s'. touches es i s s' \<Longrightarrow> F s' = F s"
  shows "F (world_of (lbServeHTTP lb w r s)) = F s"
proof -
  obtain start s1 where a: "advance lb s = (start, s1)" by (cases "advance lb s")
  then have 1: "F s1 = F s" using adv by (auto simp: advance_def Let_def)
  have 2: "F (world_of (serveOrigin lb o' w r s1)) = F s1" for o' using serveOrigin_touches touch by blast
  show ?thesis using a 1 2 by (simp add: lbServeHTTP_def Let_def split: option.splits)
qed

lemma lbServe_more:
  "lb_world.more (world_of (lbServeHTTP lb w r s)) = lb_world.more s"
  "sugarSetup (world_of (lbServeHTTP lb w r s)) = sugarSetup s"
  "logBufs (world_of (lbServeHTTP lb w r s)) = logBufs s"
  "nextLog (world_of (lbServeHTTP lb w r s)) = nextLog s"
  "stores (world_of (lbServeHTTP lb w r s)) = stores s"
  by (rule lbServe_keeps; simp add: touches_def)+

section \<open>Properties\<close>

lemma originProxy_quiet: "quiet_hooks (originProxy name retry t i)"
  by (simp add: quiet_hooks_def onOrigin_def dropOriginRequestID_def)

lemma outgoing_method: "reqMethod (outgoing req (proxyDirector t r)) = reqMethod r"
  by (simp add: outgoing_def proxyDirector_def rewriteRequestURL_def Let_def)

lemma serveOrigin_unsafe:
  assumes "reqMethod r \<notin> {''GET'', ''HEAD'', ''OPTIONS''}" "\<not> roRetryUnsafeMethods (lbRetry lb)"
  shows "\<exists>sent. netCalls (world_of (serveOrigin lb o' w r s)) = netCalls s @ sent \<and> length sent \<le> 1"
proof -
  let ?rp = "originProxy (lbName lb) (lbRetry lb) (rrTarget o') (rrState o')"
  let ?out = "outgoing r (proxyDirector (rrTarget o') (if contentLength r = 0 then r\<lparr>reqBody := None\<rparr> else r))"
  have "reqMethod ?out \<notin> {''GET'', ''HEAD'', ''OPTIONS''}" using assms(1) by (simp add: outgoing_method)
  then have "netCalls (snd (proxyTransport (lbRetry lb) ?out s)) = netCalls s @ [?out]"
    by (rule transport_unsafe) (use assms(2) in simp)
  then show ?thesis
    using rpServe_sends [OF originProxy_quiet, of "lbName lb" "lbRetry lb" "rrTarget o'" "rrState o'" w r s]
    by (auto simp: serveOrigin_def)
qed

text \<open>
  C13: No request is sent to an origin whose circuit breaker is open. When some origin of the service
  is available, the request goes to an available one, whose breaker is then not open; when none is, it
  goes to the one whose turn it is, unless that one's breaker is open, and in that case alone it is
  answered with a 502 at once, without a network call and without a change of any origin's state. The
  origins' states are as the gateway reaches them, and the 64-bit counter does not wrap during the scan.
\<close>

theorem breaker_respected:
  assumes "lbOrigins lb \<noteq> []" "\<forall>o' \<in> set (lbOrigins lb). origin_inv (origins s (rrState o'))"
    and "noWrap lb (counters s (lbCounter lb) + 1)"
  defines "turn \<equiv> originAt lb (counters s (lbCounter lb) + 1)"
  shows "\<exists>s1. counters s1 = (counters s)(lbCounter lb := counters s (lbCounter lb) + 1) \<and>
    origins s1 = origins s \<and> netCalls s1 = netCalls s \<and> clock s1 = clock s \<and>
    (if \<exists>p \<in> set (lbOrigins lb). isAvailable lb s p
     then \<exists>o' \<in> set (lbOrigins lb). isAvailable lb s o' \<and> \<not> isTripped lb s o' \<and> lbServeHTTP lb w r s = serveOrigin lb o' w r s1
     else lbServeHTTP lb w r s =
       (if isTripped lb s turn then Done (writeBadGateway (lbName lb) w) s1 else serveOrigin lb turn w r s1))"
proof -
  obtain start s1 where adv: "advance lb s = (start, s1)" by (cases "advance lb s")
  have start: "start = counters s (lbCounter lb) + 1" and cnt: "counters s1 = (counters s)(lbCounter lb := start)"
    using adv by (auto simp: advance_def Let_def)
  have turn: "originAt lb start = turn" by (simp add: turn_def start)
  have all: "set (scanOrder lb start) = set (lbOrigins lb)" using scanOrder_all assms(3) start by simp
  have "if \<exists>p \<in> set (lbOrigins lb). isAvailable lb s p
     then \<exists>o' \<in> set (lbOrigins lb). isAvailable lb s o' \<and> \<not> isTripped lb s o' \<and> lbServeHTTP lb w r s = serveOrigin lb o' w r s1
     else lbServeHTTP lb w r s =
       (if isTripped lb s turn then Done (writeBadGateway (lbName lb) w) s1 else serveOrigin lb turn w r s1)"
    using assms(1) adv
  proof (cases rule: lbServe_cases [where w = w and r = r])
    case (found o')
    then show ?thesis using isAvailable_not_tripped [of s o' lb] assms(2) all by auto
  next
    case tripped
    then show ?thesis using all turn by auto
  next
    case fallback
    then show ?thesis using all turn by auto
  qed
  then show ?thesis using cnt start advance_keeps [OF adv] by (intro exI [of _ s1] conjI) auto
qed

text \<open>
  When every origin is available, the requests of a service go round its origins in order: any
  \<open>n\<close> consecutive ones reach each of the \<open>n\<close> origins exactly once (until the 64-bit counter wraps).
\<close>

lemma round_robin_fair:
  assumes "n = length (lbOrigins lb)" "0 < n" "unat c + 2 * n < 18446744073709551616"
  shows "(\<forall>i < n. \<forall>s :: 'a lb_world_scheme. counters s (lbCounter lb) = c + of_nat i \<longrightarrow> (\<forall>o' \<in> set (lbOrigins lb). isAvailable lb s o') \<longrightarrow>
      (\<exists>s1. lbServeHTTP lb w r s = serveOrigin lb (lbOrigins lb ! ((unat c + 1 + i) mod n)) w r s1)) \<and>
    bij_betw (\<lambda>i. (unat c + 1 + i) mod n) {0..<n} {0..<n}"
proof
  show "bij_betw (\<lambda>i. (unat c + 1 + i) mod n) {0..<n} {0..<n}"
    using rotation_set [OF assms(2), of "unat c + 1"] by (simp add: bij_betw_def eq_card_imp_inj_on)
  show "\<forall>i < n. \<forall>s :: 'a lb_world_scheme. counters s (lbCounter lb) = c + of_nat i \<longrightarrow> (\<forall>o' \<in> set (lbOrigins lb). isAvailable lb s o') \<longrightarrow>
      (\<exists>s1. lbServeHTTP lb w r s = serveOrigin lb (lbOrigins lb ! ((unat c + 1 + i) mod n)) w r s1)"
  proof (intro allI impI)
    fix i and s :: "'a lb_world_scheme"
    assume i: "i < n" and c: "counters s (lbCounter lb) = c + of_nat i"
      and av: "\<forall>o' \<in> set (lbOrigins lb). isAvailable lb s o'"
    obtain start s1 where adv: "advance lb s = (start, s1)" by (cases "advance lb s")
    note k = advance_keeps [OF adv]
    have st: "start = c + of_nat (Suc i)" using k(4) c by simp
    have u: "unat start = unat c + Suc i"
    proof -
      have "unat (of_nat (Suc i) :: u64) = Suc i" using i assms by (intro unat_small) simp
      then show ?thesis unfolding st using i assms by (subst unat_add_lem [THEN iffD1]) simp_all
    qed
    have nw: "noWrap lb start" using u i assms by (simp add: noWrap_def)
    let ?o = "lbOrigins lb ! ((unat c + 1 + i) mod n)"
    have hd: "scanOrder lb start = ?o # tl (scanOrder lb start)"
      using assms(1,2) u by (simp add: scanOrder_eq [OF nw] upt_conv_Cons)
    have "?o \<in> set (lbOrigins lb)" using assms(1,2) by simp
    then have "isAvailable lb s1 ?o" using av k(5) by simp
    then have "find (isAvailable lb s1) (scanOrder lb start) = Some ?o" by (subst hd) simp
    then show "\<exists>s1. lbServeHTTP lb w r s = serveOrigin lb ?o w r s1"
      using adv by (auto simp: lbServeHTTP_def)
  qed
qed

text \<open>
  Serving a request keeps the invariant of every origin's state and changes at most the state of
  one origin of the service, by at most three recorded outcomes.
\<close>

lemma serving_keeps_origin_invariant:
  assumes "\<forall>i. origin_inv (origins s i) \<and> consecutiveFailures (origins s i) + 3 \<le> max_i64" "0 < clock s"
    and "lbOrigins lb \<noteq> []"
  shows "(\<forall>i. origin_inv (origins (world_of (lbServeHTTP lb w r s)) i)) \<and>
    (\<exists>i es. length es \<le> 3 \<and>
       origins (world_of (lbServeHTTP lb w r s)) = (origins s)(i := origin_run es (origins s i)))"
proof -
  obtain start s1 where adv: "advance lb s = (start, s1)" by (cases "advance lb s")
  note k = advance_keeps [OF adv]
  have served: "\<exists>i es. length es \<le> 3 \<and> (\<forall>t. Failed t \<in> set es \<longrightarrow> clock s \<le> t) \<and>
      origins (world_of (serveOrigin lb o' w r s1)) = (origins s)(i := origin_run es (origins s i))" for o'
    using serveOrigin_touches [of o' s1 lb w r] k(1,2) touches_times by (fastforce simp: touches_def)
  have "\<exists>i es. length es \<le> 3 \<and> (\<forall>t. Failed t \<in> set es \<longrightarrow> clock s \<le> t) \<and>
      origins (world_of (lbServeHTTP lb w r s)) = (origins s)(i := origin_run es (origins s i))"
    using assms(3) adv
  proof (cases rule: lbServe_cases [where w = w and r = r])
    case tripped
    then show ?thesis using k by (intro exI [of _ 0] exI [of _ "[]"]) (simp add: origin_run_def)
  qed (use served in simp_all)
  then obtain i es where es: "length es \<le> 3" "\<forall>t. Failed t \<in> set es \<longrightarrow> clock s \<le> t"
    "origins (world_of (lbServeHTTP lb w r s)) = (origins s)(i := origin_run es (origins s i))"
    by blast
  have "consecutiveFailures (origins s i) + 3 \<le> max_i64" using assms(1) by blast
  then have "consecutiveFailures (origins s i) + int (length es) \<le> max_i64" using es(1) by linarith
  then have "origin_inv (origin_run es (origins s i))"
    using assms(1,2) es(2) by (intro origin_inv_run) (auto intro: less_le_trans)
  then show ?thesis using assms(1) es by auto
qed

text \<open>
  A request the client cuts short counts against the origin: when the body of a retryable
  request exceeds its limit or breaks off, nothing is sent, yet the origin's failure counter goes up
  and the client gets a 502, so a client can open the breaker of a healthy origin.
\<close>

lemma client_body_error_blames_origin:
  assumes "1 < roMaxAttempts (lbRetry lb)" "reqMethod r \<in> {''GET'', ''HEAD'', ''OPTIONS''}"
    and "contentLength r \<noteq> 0" "reqBody r = Some b" "snd (readAll b) = Some e"
    and "isPrint (upgradeType (reqHeader r))"
  shows "serveOrigin lb o' w r s =
    Done (writeBadGateway (lbName lb) w) (onOrigin (rrState o') (recordFailure (clock s)) s)"
proof -
  let ?out = "outgoing r (proxyDirector (rrTarget o') r)"
  have up: "upgradeType (reqHeader (proxyDirector (rrTarget o') r)) = upgradeType (reqHeader r)"
    by (rule upgradeType_cong)
      (auto simp: proxyDirector_def rewriteRequestURL_def injectTrace_def Let_def hValues_hSet split: option.splits)
  have "reqMethod ?out = reqMethod r" "reqBody ?out = Some b"
    using assms(4) by (simp_all add: outgoing_def proxyDirector_def rewriteRequestURL_def Let_def)
  then have "proxyTransport (lbRetry lb) ?out s = (Some (Inl (BodyError e)), s)"
    using assms(1,2,5)
    by (auto simp: proxyTransport_def retryRoundTrip_def newRetryTransport_def methodIsRetryable_def split: prod.splits)
  then show ?thesis
    using assms(3,6) up by (simp add: serveOrigin_def rpServeHTTP_def Let_def)
qed

text \<open>
  When the counter wraps at \<open>2^64\<close> in the middle of a scan, an origin can be missed: with three
  origins and the counter at its last value, the scan visits the first origin twice and the third,
  be it the only one available, never.
\<close>

lemma wrap_skips_an_origin:
  "map rrState (scanOrder (demo_lb [''a'', ''b'', ''c'']) 18446744073709551615) = [0, 0, 1]"
  by code_simp

text \<open>
  A probing round marks every origin of the service down or up as its own probe went, whatever
  came before, and leaves the failure bookkeeping alone; an origin marked down is not available.
\<close>

lemma probe_round:
  fixes s :: "'a lb_world_scheme" and get
  assumes "distinct (map rrState (lbOrigins lb))" "o' \<in> set (lbOrigins lb)" "prTargets p = probeTargets lb"
  defines "st \<equiv> origins (probeOnce get p s) (rrState o')"
  shows "forcedDown st = (\<not> probe get p (rrURL o')) \<and>
    consecutiveFailures st = consecutiveFailures (origins s (rrState o')) \<and>
    lastFailureAt st = lastFailureAt (origins s (rrState o')) \<and>
    (\<not> probe get p (rrURL o') \<longrightarrow> \<not> isAvailable lb (probeOnce get p s) o')"
proof -
  have "st = setForcedDown (\<not> probe get p (rrURL o')) (origins s (rrState o'))"
    unfolding st_def probeOnce_def assms(3) probeTargets_def
    using assms(1,2) by (rule fold_forcedDown)
  then show ?thesis
    by (simp add: setForcedDown_def isAvailable_def available_def flip: st_def)
qed

text \<open>
  C11: A request whose method is not \<open>GET\<close>, \<open>HEAD\<close> or \<open>OPTIONS\<close> is sent to at most one origin, once,
  whatever fails, unless the service opted into retrying unsafe methods.
\<close>

theorem unsafe_method_sent_once:
  assumes "reqMethod r \<notin> {''GET'', ''HEAD'', ''OPTIONS''}" "\<not> roRetryUnsafeMethods (lbRetry lb)"
  shows "\<exists>sent. netCalls (world_of (lbServeHTTP lb w r s)) = netCalls s @ sent \<and> length sent \<le> 1"
proof -
  obtain start s1 where a: "advance lb s = (start, s1)" by (cases "advance lb s")
  have "netCalls s1 = netCalls s" using a by (auto simp: advance_def Let_def)
  then show ?thesis
    using serveOrigin_unsafe [OF assms, of _ w s1] a
    by (auto simp: lbServeHTTP_def Let_def split: option.splits)
qed

section \<open>Witnesses\<close>

definition demo_lb_world :: lb_world where
  "demo_lb_world = \<lparr>clock = 100, netOracle = (\<lambda>n r. (Inr demo_response, 3)), netCalls = [], sleeps = [],
     randOracle = (\<lambda>n. 7), randCount = 0, stores = (\<lambda>_. newMemoryStore), nextStore = 0, sugar = demo_db,
     sugarSetup = None, cryptoOracle = (\<lambda>n. Some (replicate 16 (char_of n))), cryptoCount = 0, spans = [],
     logBufs = (\<lambda>_. newBufWriter), nextLog = 0, stdout = demo_sink,
     origins = (\<lambda>_. newOriginState), nextOrigin = 2, counters = (\<lambda>_. 0), nextLB = 1\<rparr>"

lemma demo_lb_parts:
  "map rrState (lbOrigins (demo_lb [''a'', ''b''])) = [0, 1]" "length (lbOrigins (demo_lb [''a'', ''b''])) = 2"
  "lbOrigins (demo_lb [''a'', ''b'']) \<noteq> []" "lbCounter (demo_lb us) = 0" "lbRetry (demo_lb us) = demo_retry"
  by (simp_all add: demo_lb_def enumerate_eq_zip)

lemma demo_lb_world_parts:
  "origins demo_lb_world i = newOriginState" "counters demo_lb_world i = 0" "clock demo_lb_world = 100"
  by (simp_all add: demo_lb_world_def)

lemma demo_available: "isAvailable lb demo_lb_world o'"
  by (simp add: isAvailable_def demo_lb_world_parts)

definition demo_open_world :: lb_world where
  "demo_open_world = demo_lb_world\<lparr>origins := (\<lambda>_. recordFailure 100 newOriginState), clock := 100\<rparr>"

theorem breaker_respected_witness:
  "\<exists>s1. lbServeHTTP (demo_lb [''a'', ''b'']) demo_writer demo_request demo_open_world = Done (writeBadGateway ''shop'' demo_writer) s1"
proof -
  let ?lb = "demo_lb [''a'', ''b'']"
  have inv: "origin_inv (recordFailure 100 newOriginState)"
    by (rule origin_inv_recordFailure [OF origin_inv_new]) (simp_all add: newOriginState_def)
  have down: "\<not> isAvailable ?lb demo_open_world p" "isTripped ?lb demo_open_world p" for p
    by (simp_all add: isAvailable_def isTripped_def demo_lb_def demo_open_world_def available_def breakerOpen_def recordFailure_def newOriginState_def
      escalatedCooldown_def maxBreakerCooldownShift_def shl64_def i64_def is_zero_def Let_def)
  show ?thesis
    using breaker_respected [of ?lb demo_open_world demo_writer demo_request] inv down
    by (auto simp: demo_lb_parts demo_lb_world_parts noWrap_def demo_open_world_def demo_lb_def [THEN arg_cong [of _ _ lbName]])
qed

definition demo_cut_request :: request where
  "demo_cut_request = demo_request\<lparr>contentLength := - 1, reqBody := Some (Limited 1 (Bytes ''hi''))\<rparr>"

theorem unsafe_method_sent_once_witness:
  "\<exists>sent. netCalls (world_of (lbServeHTTP (demo_lb [''a'', ''b'']) demo_writer (demo_request\<lparr>reqMethod := ''POST''\<rparr>) demo_lb_world)) =
    netCalls demo_lb_world @ sent \<and> length sent \<le> 1"
  using unsafe_method_sent_once [of "demo_request\<lparr>reqMethod := ''POST''\<rparr>" "demo_lb [''a'', ''b'']" demo_writer demo_lb_world]
  by (simp add: demo_lb_def demo_retry_def)

end
