(* ===== verification/Metrics.thy ===== *)
theory Metrics
  imports Load_Balancer
begin

text \<open>
  Package \<^verbatim>\<open>metrics\<close>: the recorder. What the two Prometheus vectors hold is determined by the
  samples handed to them, which are the state; the handler that renders the registry is third-party
  code.
\<close>

section \<open>The recorder\<close>

record sample =
  smService :: string
  smMethod :: string
  smStatus :: string
  smSeconds :: f64

record metrics_world = lb_world +
  samples :: "sample list"

fun recordedStatus :: "writer \<Rightarrow> int" where
  "recordedStatus (StatusWriter st w) = st"
| "recordedStatus w = 0"

text \<open>The samples are taken after the handler returned; a panic skips them.\<close>

definition metricsWrap :: "string \<Rightarrow> 'a metrics_world_scheme handler \<Rightarrow> 'a metrics_world_scheme handler" where
  "metricsWrap service nxt w req s =
     (let start = clock s in
      case nxt (StatusWriter 200 w) req s of
        Panicked sw s \<Rightarrow> Panicked (unwrap sw) s
      | Done sw s \<Rightarrow>
          Done (unwrap sw)
            (s\<lparr>samples := samples s @ [\<lparr>smService = service, smMethod = reqMethod req, smStatus = itoa (recordedStatus sw),
                 smSeconds = durationSeconds (time_sub (clock s) start)\<rparr>]\<rparr>))"

section \<open>The registry\<close>

record vecOpts =
  voName :: string
  voHelp :: string
  voBuckets :: "f64 list"
  voLabels :: "string list"

record recorder =
  rcRequests :: vecOpts
  rcDuration :: vecOpts

text \<open>\<^verbatim>\<open>New\<close>; \<open>defBuckets\<close> is \<^verbatim>\<open>prometheus.DefBuckets\<close>.\<close>

definition newRecorder :: "f64 list \<Rightarrow> recorder" where
  "newRecorder defBuckets =
     \<lparr>rcRequests = \<lparr>voName = ''dealer_http_requests_total'', voHelp = ''Total requests handled per service, method and status code.'',
        voBuckets = [], voLabels = [''service'', ''method'', ''status'']\<rparr>,
      rcDuration = \<lparr>voName = ''dealer_http_request_duration_seconds'', voHelp = ''Request duration in seconds per service and method.'',
        voBuckets = defBuckets, voLabels = [''service'', ''method'']\<rparr>\<rparr>"

text \<open>The label values of the two vectors, and the series they hold after some samples.\<close>

definition requestLabels :: "sample \<Rightarrow> string list" where
  "requestLabels x = [smService x, smMethod x, smStatus x]"

definition durationLabels :: "sample \<Rightarrow> string list" where
  "durationLabels x = [smService x, smMethod x]"

definition requestSeries :: "sample list \<Rightarrow> (string list \<times> nat) list" where
  "requestSeries xs = map (\<lambda>l. (l, length (filter (\<lambda>x. requestLabels x = l) xs))) (remdups (map requestLabels xs))"

definition durationSeries :: "sample list \<Rightarrow> (string list \<times> f64 list) list" where
  "durationSeries xs = map (\<lambda>l. (l, map smSeconds (filter (\<lambda>x. durationLabels x = l) xs))) (remdups (map durationLabels xs))"

text \<open>
  \<^verbatim>\<open>Handler\<close>: \<open>promhttp\<close> is \<^verbatim>\<open>promhttp.HandlerFor\<close> on the registry that holds
  the two vectors.
\<close>

definition metricsHandler ::
  "(vecOpts \<times> (string list \<times> nat) list \<Rightarrow> vecOpts \<times> (string list \<times> f64 list) list \<Rightarrow> 'a metrics_world_scheme handler)
    \<Rightarrow> recorder \<Rightarrow> 'a metrics_world_scheme handler" where
  "metricsHandler promhttp rec w r s =
     promhttp (rcRequests rec, requestSeries (samples s)) (rcDuration rec, durationSeries (samples s)) w r s"

text \<open>
  The series have one value per label, so no vector refuses a sample; a sample adds one to the counter
  it is labelled with and leaves the others as they are.
\<close>

lemma labels_fit:
  "length (requestLabels x) = length (voLabels (rcRequests (newRecorder b)))"
  "length (durationLabels x) = length (voLabels (rcDuration (newRecorder b)))"
  by (simp_all add: requestLabels_def durationLabels_def newRecorder_def)

lemma requestSeries_value:
  "map_of (requestSeries xs) l =
     (if l \<in> requestLabels ` set xs then Some (length (filter (\<lambda>x. requestLabels x = l) xs)) else None)"
  by (simp add: requestSeries_def map_of_map_restrict)

lemma requestSeries_sample:
  "case map_of (requestSeries xs) l of None \<Rightarrow> l \<notin> requestLabels ` set xs
     | Some n \<Rightarrow> map_of (requestSeries (xs @ [x])) l = Some (if requestLabels x = l then n + 1 else n)"
  by (auto simp: requestSeries_value)

section \<open>The recorder among handlers\<close>

lemma metricsWrap_Done:
  assumes "handler_ok h" "fresh w" "metricsWrap service h w r s = Done w' s'"
  shows "\<exists>s0 d. s' = s0\<lparr>samples := samples s0 @ [\<lparr>smService = service, smMethod = reqMethod r,
      smStatus = itoa (client_status (base_of w')), smSeconds = d\<rparr>]\<rparr> \<and> settled w'"
proof -
  obtain sw s0 where h: "h (StatusWriter 200 w) r s = Done sw s0"
    using assms(3) by (auto simp: metricsWrap_def Let_def split: hres.splits)
  have "shape sw = StatusLayer # shape w"
    using handler_ok_shape [OF assms(1), of "StatusWriter 200 w" r s] h by simp
  then obtain st u where sw: "sw = StatusWriter st u" by (cases sw) auto
  have "settled sw" using handler_ok_settled [OF assms(1) _ h] assms(2) by simp
  then have "settled u" "st = client_status (base_of u)" using sw settled_StatusWriter by blast+
  then show ?thesis using assms(3) h sw by (auto simp: metricsWrap_def Let_def)
qed

interpretation metrics_mw: middleware "metricsWrap service" for service
proof
  fix h :: "'a metrics_world_scheme handler"
  assume h: "handler_ok h"
  show "handler_ok (metricsWrap service h)"
  proof (rule handler_okI)
    fix w r s
    show "shape (writer_of (metricsWrap service h w r s)) = shape w"
      using handler_ok_shape [OF h, of "StatusWriter 200 w" r s]
      by (cases "h (StatusWriter 200 w) r s") (auto simp: metricsWrap_def Let_def intro: unwrap_layer)
  next
    fix w r s w' s'
    assume "fresh w" "metricsWrap service h w r s = Done w' s'"
    then show "settled w'" using metricsWrap_Done [OF h] by blast
  qed
qed

lemma metricsWrap_keeps:
  assumes "\<And>w r s. F (world_of (h w r s)) = F s" "\<And>s x. F (s\<lparr>samples := x\<rparr>) = F s"
  shows "F (world_of (metricsWrap n h w r s)) = F s"
  using assms(1) [of "StatusWriter 200 w" r s] assms(2) by (auto simp: metricsWrap_def Let_def split: hres.splits)

lemma samples_more:
  "log_world.more s = log_world.more (s' :: 'a metrics_world_scheme) \<Longrightarrow> samples s = samples s'"
  by (cases s; cases s') simp

lemma service_keeps_samples:
  "samples (world_of (pluginChain pf fmt ps (lbServeHTTP lb) w r (s :: 'a metrics_world_scheme))) = samples s"
proof (rule chain_keeps)
  fix w r and s :: "'a metrics_world_scheme"
  show "samples (world_of (lbServeHTTP lb w r s)) = samples s"
    using lbServe_more(1) [of lb w r s] by (cases s; cases "world_of (lbServeHTTP lb w r s)") simp
qed (auto intro: samples_more storeAllow_keeps onLog_keeps)

section \<open>Properties\<close>

text \<open>
  C23: For every request a service answers, the recorder counts exactly one sample, and its status is
  the one the client gets, through any chain of plugins: the final status and not an informational
  one before it, 101 after a protocol upgrade, 200 when a handler wrote nothing. A request whose
  handling panics, as the proxy does when the origin breaks off in the middle of its body, is not
  counted at all.
\<close>

theorem recorded_status_is_client_status:
  assumes "fresh w"
  shows "case metricsWrap service (pluginChain pf fmt ps (lbServeHTTP lb)) w r s of
      Done w' s' \<Rightarrow> \<exists>d. samples s' = samples s @ [\<lparr>smService = service, smMethod = reqMethod r,
        smStatus = itoa (client_status (base_of w')), smSeconds = d\<rparr>]
    | Panicked w' s' \<Rightarrow> samples s' = samples s"
proof (cases "pluginChain pf fmt ps (lbServeHTTP lb) (StatusWriter 200 w) r s")
  case (Done sw s0)
  have "samples s0 = samples s"
    using service_keeps_samples [of pf fmt ps lb "StatusWriter 200 w" r s] Done by simp
  moreover obtain w' s' where m: "metricsWrap service (pluginChain pf fmt ps (lbServeHTTP lb)) w r s = Done w' s'"
    using Done by (simp add: metricsWrap_def)
  moreover have "\<exists>d. samples s' = samples s0 @ [\<lparr>smService = service, smMethod = reqMethod r,
        smStatus = itoa (recordedStatus sw), smSeconds = d\<rparr>] \<and> w' = unwrap sw"
    using m Done by (auto simp: metricsWrap_def Let_def)
  ultimately show ?thesis
    using metricsWrap_Done [OF plugin_chain_mw.wrap_ok [OF lbServe_ok] assms m] by auto
next
  case (Panicked sw s0)
  then show ?thesis
    using service_keeps_samples [of pf fmt ps lb "StatusWriter 200 w" r s] by (simp add: metricsWrap_def)
qed

section \<open>Witnesses\<close>

definition demo_platform :: platform where
  "demo_platform = \<lparr>osGetenv = (\<lambda>_. []), osMkdirTemp = Inr ''/tmp/x'',
     sugarDefaults = \<lparr>scBindAddr = ''localhost'', scJoinAddr = [], scBootstrapCluster = False, scServerID = [],
       scDiscoveryPort = 7946, scDataDir = []\<rparr>,
     startSugarDB = (\<lambda>_. None), jwtLib = demo_jwt\<rparr>"

definition demo_metrics_world :: metrics_world where
  "demo_metrics_world = \<lparr>clock = 100, netOracle = (\<lambda>n r. (Inr (demo_response\<lparr>respBroken := True\<rparr>), 3)), netCalls = [],
     sleeps = [], randOracle = (\<lambda>n. 7), randCount = 0, stores = (\<lambda>_. newMemoryStore), nextStore = 0, sugar = demo_db,
     sugarSetup = None, cryptoOracle = (\<lambda>n. Some (replicate 16 (char_of n))), cryptoCount = 0, spans = [],
     logBufs = (\<lambda>_. newBufWriter), nextLog = 0, stdout = demo_sink,
     origins = (\<lambda>_. newOriginState), nextOrigin = 2, counters = (\<lambda>_. 0), nextLB = 1, samples = []\<rparr>"

theorem recorded_status_is_client_status_witness:
  "length (samples (world_of (metricsWrap ''shop'' (pluginChain demo_platform (\<lambda>_. []) [] (lbServeHTTP (demo_lb [''a'']))) demo_writer
      demo_request demo_metrics_world))) \<le> 1"
  using recorded_status_is_client_status [of demo_writer, where service = "''shop''" and pf = demo_platform and fmt = "\<lambda>_. []"
      and ps = "[]" and lb = "demo_lb [''a'']" and r = demo_request and s = demo_metrics_world]
  by (auto simp: demo_metrics_world_def split: hres.splits)

end
