(* ===== verification/Polling.thy ===== *)
theory Polling
  imports Prelude
begin

text \<open>
  The contract of a component that polls a file and swaps in what it finds. The configuration
  watcher and the TLS certificate reloader both keep it; what follows from it is proved here once.

  An observation is what one poll gets to see: a stamp, unless the stat fails, and an offer, which is
  usable, unusable (it does not load or is refused), or fatal (handling it ends the process). The
  laws hold in the states of an invariant that every poll keeps.
\<close>

datatype 'v offer = Usable 'v | Unusable | Fatal

locale polled_resource =
  fixes poll :: "'obs \<Rightarrow> 'st \<Rightarrow> 'st"
    and good :: "'st \<Rightarrow> bool"
    and alive :: "'st \<Rightarrow> bool"
    and stampOf :: "'st \<Rightarrow> 'k"
    and served :: "'st \<Rightarrow> 'v"
    and seen :: "'obs \<Rightarrow> 'k option"
    and offered :: "'obs \<Rightarrow> 'v offer"
  assumes poll_good: "good s \<Longrightarrow> good (poll ob s)"
    and poll_dead: "\<not> alive s \<Longrightarrow> poll ob s = s"
    and poll_no_stat: "seen ob = None \<Longrightarrow> poll ob s = s"
    and poll_same: "seen ob = Some (stampOf s) \<Longrightarrow> poll ob s = s"
    and poll_unusable: "good s \<Longrightarrow> alive s \<Longrightarrow> seen ob = Some k \<Longrightarrow> k \<noteq> stampOf s \<Longrightarrow> offered ob = Unusable \<Longrightarrow>
      alive (poll ob s) \<and> stampOf (poll ob s) = stampOf s \<and> served (poll ob s) = served s"
    and poll_fatal: "good s \<Longrightarrow> alive s \<Longrightarrow> seen ob = Some k \<Longrightarrow> k \<noteq> stampOf s \<Longrightarrow> offered ob = Fatal \<Longrightarrow>
      \<not> alive (poll ob s) \<and> served (poll ob s) = served s"
    and poll_usable: "good s \<Longrightarrow> alive s \<Longrightarrow> seen ob = Some k \<Longrightarrow> k \<noteq> stampOf s \<Longrightarrow> offered ob = Usable v \<Longrightarrow>
      alive (poll ob s) \<and> stampOf (poll ob s) = k \<and> served (poll ob s) = v"
begin

lemma run_good: "good s \<Longrightarrow> good (fold poll obs s)"
  by (induction obs arbitrary: s) (auto intro: poll_good)

text \<open>A single poll, whatever it sees, serves the old value or the usable one it was offered.\<close>

lemma poll_served_cases:
  assumes "good s"
  shows "served (poll ob s) = served s \<or> offered ob = Usable (served (poll ob s))"
proof (cases "alive s \<and> (\<exists>k. seen ob = Some k \<and> k \<noteq> stampOf s)")
  case True
  then show ?thesis
    using poll_unusable [OF assms] poll_fatal [OF assms] poll_usable [OF assms] by (cases "offered ob") blast+
next
  case False
  then have "poll ob s = s" using poll_dead poll_no_stat poll_same by (cases "seen ob") auto
  then show ?thesis by simp
qed

text \<open>What is served is the initial value or one that some poll found usable: never a bad one.\<close>

lemma served_was_usable:
  assumes "good s"
  shows "served (fold poll obs s) = served s \<or> (\<exists>ob \<in> set obs. offered ob = Usable (served (fold poll obs s)))"
proof (induction obs rule: rev_induct)
  case (snoc ob obs)
  then show ?case
    using poll_served_cases [OF run_good [OF assms], of ob obs] by auto
qed simp

lemma poll_keeps:
  assumes "good s" "alive s" "offered ob = Unusable"
  shows "alive (poll ob s) \<and> stampOf (poll ob s) = stampOf s \<and> served (poll ob s) = served s"
  using assms poll_no_stat [of ob s] poll_same [of ob s] poll_unusable [of s ob]
  by (cases "seen ob") (force, metis)

text \<open>Unusable offers change nothing, however many there are.\<close>

lemma unusable_run:
  assumes "good s" "alive s" "\<forall>ob \<in> set obs. offered ob = Unusable"
  shows "alive (fold poll obs s) \<and> stampOf (fold poll obs s) = stampOf s \<and> served (fold poll obs s) = served s"
  using assms
proof (induction obs arbitrary: s)
  case (Cons ob obs)
  then show ?case using poll_keeps [of s ob] poll_good [of s ob] by simp
qed simp

text \<open>After any number of unusable offers, the first usable one with a new stamp is served.\<close>

lemma recovers_after_unusable:
  assumes "good s" "alive s" "\<forall>ob \<in> set obs. offered ob = Unusable"
    and "seen ob = Some k" "k \<noteq> stampOf s" "offered ob = Usable v"
  shows "alive (fold poll (obs @ [ob]) s) \<and> served (fold poll (obs @ [ob]) s) = v"
  using unusable_run [OF assms(1,2,3)] poll_usable [OF run_good [OF assms(1)], of obs ob k v] assms(4-6) by simp

text \<open>A poll that sees the remembered stamp, or none, never disturbs what is served.\<close>

lemma idle_run:
  assumes "\<forall>ob \<in> set obs. seen ob = None \<or> seen ob = Some (stampOf s)"
  shows "fold poll obs s = s"
  using assms
proof (induction obs arbitrary: s)
  case (Cons ob obs)
  then have "poll ob s = s" using poll_no_stat poll_same by auto
  then show ?case using Cons by simp
qed simp

text \<open>Without fatal offers the component stays alive; a fatal one with a new stamp ends it for good.\<close>

lemma stays_alive:
  assumes "good s" "alive s" "\<forall>ob \<in> set obs. offered ob \<noteq> Fatal"
  shows "alive (fold poll obs s)"
  using assms
proof (induction obs arbitrary: s)
  case (Cons ob obs)
  have "alive (poll ob s)"
  proof (cases "offered ob")
    case (Usable v)
    then show ?thesis
      using Cons.prems poll_no_stat [of ob s] poll_same [of ob s] poll_usable [of s ob]
      by (cases "seen ob") (force, metis)
  next
    case Unusable
    then show ?thesis using poll_keeps Cons.prems by auto
  qed (use Cons.prems in auto)
  then show ?case using Cons poll_good [of s ob] by simp
qed simp

lemma dead_run: "\<not> alive s \<Longrightarrow> fold poll obs s = s"
  by (induction obs) (simp_all add: poll_dead)

lemma fatal_run:
  assumes "good s" "alive s" "seen ob = Some k" "k \<noteq> stampOf s" "offered ob = Fatal"
  shows "\<not> alive (fold poll (ob # obs) s)"
  using poll_fatal [OF assms] dead_run [of "poll ob s" obs] by simp

end

end
