(* ===== verification/Gateway.thy ===== *)
theory Gateway
  imports Router Client_IP Metrics Registry Polling
begin

text \<open>
  Package \<^verbatim>\<open>gateway\<close>: options and their defaults, the compilation of a configuration into
  routes (\<^verbatim>\<open>buildMux\<close>), construction (\<^verbatim>\<open>New\<close>), hot reload, serving and shutdown.
  Goroutines are kept as what they were started with and whether their context was cancelled, so the
  state shows what still runs.
\<close>

section \<open>Options\<close>

record options =
  optPollInterval :: duration
  optOriginTimeout :: duration
  optMaxRequestBodyBytes :: int
  optUnhealthyCooldown :: duration
  optHealthCheckPath :: string
  optHealthCheckInterval :: duration
  optHealthCheckTimeout :: duration
  optRetryMaxAttempts :: int
  optRetryBackoffBase :: duration
  optBreakerThreshold :: int
  optBreakerCooldown :: duration
  optTrustRequestID :: bool
  optTrustedProxies :: string
  optOTLPEndpoint :: string
  optServiceName :: string

record resolvedOptions =
  originTimeout :: duration
  maxBodyBytes :: int
  unhealthyCooldown :: duration
  healthCheckPath :: string
  healthCheckInterval :: duration
  healthCheckTimeout :: duration
  retryMaxAttempts :: int
  retryBackoffBase :: duration
  breakerThreshold :: int
  breakerCooldown :: duration

definition second :: duration where
  "second = 1000000000"

definition defaultPollInterval :: duration where "defaultPollInterval = 2 * second"
definition defaultOriginTimeout :: duration where "defaultOriginTimeout = 10 * second"
definition defaultMaxRequestBodyBytes :: int where "defaultMaxRequestBodyBytes = 10 * 2 ^ 20"
definition defaultUnhealthyCooldown :: duration where "defaultUnhealthyCooldown = 10 * second"
definition defaultHealthCheckInterval :: duration where "defaultHealthCheckInterval = 10 * second"
definition defaultHealthCheckTimeout :: duration where "defaultHealthCheckTimeout = 2 * second"
definition defaultRetryMaxAttempts :: int where "defaultRetryMaxAttempts = 1"
definition defaultRetryBackoffBase :: duration where "defaultRetryBackoffBase = 100000000"
definition defaultBreakerCooldown :: duration where "defaultBreakerCooldown = 30 * second"

lemmas default_defs = second_def defaultPollInterval_def defaultOriginTimeout_def defaultMaxRequestBodyBytes_def
  defaultUnhealthyCooldown_def defaultHealthCheckInterval_def defaultHealthCheckTimeout_def
  defaultRetryMaxAttempts_def defaultRetryBackoffBase_def defaultBreakerCooldown_def

definition orDefault :: "int \<Rightarrow> int \<Rightarrow> int" where
  "orDefault v d = (if v \<le> 0 then d else v)"

definition resolveOptions :: "options \<Rightarrow> resolvedOptions" where
  "resolveOptions opts =
     \<lparr>originTimeout = orDefault (optOriginTimeout opts) defaultOriginTimeout,
      maxBodyBytes = orDefault (optMaxRequestBodyBytes opts) defaultMaxRequestBodyBytes,
      unhealthyCooldown = orDefault (optUnhealthyCooldown opts) defaultUnhealthyCooldown,
      healthCheckPath = optHealthCheckPath opts,
      healthCheckInterval = orDefault (optHealthCheckInterval opts) defaultHealthCheckInterval,
      healthCheckTimeout = orDefault (optHealthCheckTimeout opts) defaultHealthCheckTimeout,
      retryMaxAttempts = orDefault (optRetryMaxAttempts opts) defaultRetryMaxAttempts,
      retryBackoffBase = orDefault (optRetryBackoffBase opts) defaultRetryBackoffBase,
      breakerThreshold = optBreakerThreshold opts,
      breakerCooldown = orDefault (optBreakerCooldown opts) defaultBreakerCooldown\<rparr>"

section \<open>Compiling a configuration\<close>

datatype gateway_error =
    PluginFailed string plugin_error
  | OriginFailed proxy_error
  | IntervalFailed string

text \<open>What a route leads to: the service with its plugins, its proxy and whether inbound ids are kept.\<close>

record route =
  rtService :: service
  rtPlugins :: "plugin list"
  rtProxy :: roundRobinProxy

definition routeHandler :: "platform \<Rightarrow> (instant \<Rightarrow> string) \<Rightarrow> route \<Rightarrow> 'a metrics_world_scheme handler" where
  "routeHandler pf fmt rt =
     (let handler = pluginChain pf fmt (rtPlugins rt) (lbServeHTTP (rtProxy rt));
          handler = (if preserveRequestID (rtService rt) then preserveInbound handler else handler)
      in metricsWrap (svcName (rtService rt)) handler)"

text \<open>The loop over a service's plugins, from index \<open>i\<close> on.\<close>

fun buildPlugins ::
  "platform \<Rightarrow> string \<Rightarrow> nat \<Rightarrow> pluginConfig list \<Rightarrow> 'a log_world_scheme \<Rightarrow> (gateway_error + plugin list) \<times> 'a log_world_scheme" where
  "buildPlugins pf name i [] s = (Inr [], s)"
| "buildPlugins pf name i (pc # pcs) s =
     (case buildPlugin pf (pcName pc) (pcConfig pc) (instanceID name i) s of
        (Inl e, s) \<Rightarrow> (Inl (PluginFailed (pcName pc) e), s)
      | (Inr p, s) \<Rightarrow>
          (case buildPlugins pf name (Suc i) pcs s of
             (Inl e, s) \<Rightarrow> (Inl e, s)
           | (Inr ps, s) \<Rightarrow> (Inr (p # ps), s)))"

text \<open>The prober of a service, if it has one.\<close>

definition healthProber :: "resolvedOptions \<Rightarrow> service \<Rightarrow> roundRobinProxy \<Rightarrow> gateway_error + prober list" where
  "healthProber opts svc rp =
     (case healthCheck svc of
        None \<Rightarrow> Inr []
      | Some hc \<Rightarrow>
          let path = (if hcPath hc \<noteq> [] then hcPath hc else healthCheckPath opts) in
          bindE (if hcInterval hc \<noteq> []
                 then (case parseDuration (hcInterval hc) of None \<Rightarrow> Inl (IntervalFailed (svcName svc)) | Some d \<Rightarrow> Inr d)
                 else Inr (healthCheckInterval opts))
            (\<lambda>interval. Inr (if path \<noteq> [] then [newProber (probeTargets rp) path interval] else [])))"

definition originsOf :: "service \<Rightarrow> string list" where
  "originsOf svc = (if originURLs svc = [] then [originURL svc] else originURLs svc)"

text \<open>
  The function \<^verbatim>\<open>buildMux\<close> hands to the router, and \<^verbatim>\<open>buildMux\<close>; the probers and
  plugins collected so far travel with the world. \<open>parseURL\<close> is \<^verbatim>\<open>url.Parse\<close>.
\<close>

type_synonym 'w build_state = "prober list \<times> plugin list \<times> 'w"

definition buildRoute ::
  "platform \<Rightarrow> (string \<Rightarrow> target option) \<Rightarrow> resolvedOptions \<Rightarrow> service \<Rightarrow> 'a lb_world_scheme build_state
    \<Rightarrow> (gateway_error + route) \<times> 'a lb_world_scheme build_state" where
  "buildRoute pf parseURL opts svc st =
     (case st of (probers, allPlugins, s) \<Rightarrow>
        case buildPlugins pf (svcName svc) 0 (svcPlugins svc) s of
          (Inl e, s) \<Rightarrow> (Inl e, (probers, allPlugins, s))
        | (Inr ps, s) \<Rightarrow>
            let plugins = RequestSizeLimiting (maxBodyBytes opts) # ps;
                allPlugins = allPlugins @ plugins;
                retry = \<lparr>roMaxAttempts = retryMaxAttempts opts, roBackoffBase = retryBackoffBase opts,
                         roRetryUnsafeMethods = retryUnsafeMethods svc\<rparr>;
                breaker = \<lparr>boThreshold = breakerThreshold opts, boCooldown = breakerCooldown opts\<rparr> in
            (case newOriginProxy parseURL (svcName svc) (originsOf svc) (unhealthyCooldown opts) retry breaker s of
               (Inl e, s) \<Rightarrow> (Inl (OriginFailed e), (probers, allPlugins, s))
             | (Inr rp, s) \<Rightarrow>
                 (case healthProber opts svc rp of
                    Inl e \<Rightarrow> (Inl e, (probers, allPlugins, s))
                  | Inr pr \<Rightarrow> (Inr \<lparr>rtService = svc, rtPlugins = plugins, rtProxy = rp\<rparr>, (probers @ pr, allPlugins, s)))))"

definition buildMux ::
  "platform \<Rightarrow> (string \<Rightarrow> target option) \<Rightarrow> resolvedOptions \<Rightarrow> config \<Rightarrow> 'a lb_world_scheme
    \<Rightarrow> (gateway_error, route) build_result \<times> 'a lb_world_scheme build_state" where
  "buildMux pf parseURL opts cfg s = routerBuild cfg (buildRoute pf parseURL opts) ([], [], s)"

section \<open>The gateway\<close>

text \<open>
  A generation of goroutines: what it works on, and whether its context was cancelled. A cancel
  function is the index of the generation it cancels.
\<close>

type_synonym 'g generations = "('g \<times> bool) list"

definition cancelGen :: "nat \<Rightarrow> 'g generations \<Rightarrow> 'g generations" where
  "cancelGen i gs = (if i < length gs then gs[i := (fst (gs ! i), True)] else gs)"

definition cancelCur :: "nat option \<Rightarrow> 'g generations \<Rightarrow> 'g generations" where
  "cancelCur cur gs = (case cur of None \<Rightarrow> gs | Some i \<Rightarrow> cancelGen i gs)"

definition startGen :: "'g \<Rightarrow> nat option \<Rightarrow> 'g generations \<Rightarrow> nat option \<times> 'g generations" where
  "startGen g cur gs =
     (Some (length gs), cancelCur cur (gs @ [(g, False)]))"

definition liveGens :: "'g generations \<Rightarrow> 'g list" where
  "liveGens gs = map fst (filter (\<lambda>g. \<not> snd g) gs)"

record gateway =
  gwMux :: "route mux"
  gwHosts :: "string set"
  gwPlugins :: "plugin list"
  gwProbers :: "prober list generations"
  gwProberCancel :: "nat option"
  gwFlushers :: "plugin list generations"
  gwFlusherCancel :: "nat option"
  gwWatching :: bool
  gwTracingOn :: bool
  gwProxies :: resolver
  gwTrustRequestID :: bool
  gwTraced :: bool

text \<open>The gateway before its first mux; its handler is fixed by the last three fields.\<close>

definition emptyGateway :: "resolver \<Rightarrow> bool \<Rightarrow> bool \<Rightarrow> gateway" where
  "emptyGateway proxies trustRequestID traced =
     \<lparr>gwMux = [], gwHosts = {}, gwPlugins = [], gwProbers = [], gwProberCancel = None, gwFlushers = [],
      gwFlusherCancel = None, gwWatching = False, gwTracingOn = True, gwProxies = proxies,
      gwTrustRequestID = trustRequestID, gwTraced = traced\<rparr>"

definition storeHosts :: "config \<Rightarrow> gateway \<Rightarrow> gateway" where
  "storeHosts cfg g = g\<lparr>gwHosts := set (configHosts cfg)\<rparr>"

definition hasHost :: "gateway \<Rightarrow> string \<Rightarrow> bool" where
  "hasHost g host \<longleftrightarrow> trimSuffix (toLower host) ''.'' \<in> gwHosts g"

definition startProbers :: "prober list \<Rightarrow> gateway \<Rightarrow> gateway" where
  "startProbers ps g =
     (let (cur, gs) = startGen ps (gwProberCancel g) (gwProbers g) in g\<lparr>gwProbers := gs, gwProberCancel := cur\<rparr>)"

definition startLogFlusher :: "plugin list \<Rightarrow> gateway \<Rightarrow> gateway" where
  "startLogFlusher ps g =
     (let g = g\<lparr>gwPlugins := ps\<rparr>;
          (cur, gs) = startGen ps (gwFlusherCancel g) (gwFlushers g)
      in g\<lparr>gwFlushers := gs, gwFlusherCancel := cur\<rparr>)"

text \<open>
  What \<^verbatim>\<open>New\<close> and the reload callback do with a mux that was built, in the order of the code. Here
  it is one step, as for a gateway nobody asks meanwhile; the code stores the mux, the hosts, the probers
  and the flusher one after the other, and \<open>reloadStep\<close> of \<open>Reload_Steps\<close> takes them apart.
\<close>

definition install :: "config \<Rightarrow> route mux \<Rightarrow> prober list \<Rightarrow> plugin list \<Rightarrow> gateway \<Rightarrow> gateway" where
  "install cfg mux probers plugins g =
     startLogFlusher plugins (startProbers probers (storeHosts cfg (g\<lparr>gwMux := mux\<rparr>)))"

definition onReloadConfig ::
  "platform \<Rightarrow> (string \<Rightarrow> target option) \<Rightarrow> resolvedOptions \<Rightarrow> (gateway \<times> 'a lb_world_scheme) onReload" where
  "onReloadConfig pf parseURL opts cfg gs =
     (case gs of (g, s) \<Rightarrow>
        case buildMux pf parseURL opts cfg s of
          (Built mux, (probers, plugins, s)) \<Rightarrow> (ReloadOk, (install cfg mux probers plugins g, s))
        | (BuildError name e, (_, _, s)) \<Rightarrow> (ReloadErr, (g, s))
        | (BuildPanic, (_, _, s)) \<Rightarrow> (ReloadPanic, (g, s)))"

text \<open>\<^verbatim>\<open>ServeHTTP\<close>: the middlewares of \<^verbatim>\<open>New\<close> around the current mux.\<close>

definition gatewayServe ::
  "platform \<Rightarrow> (instant \<Rightarrow> string) \<Rightarrow> (string \<Rightarrow> request \<Rightarrow> string) \<Rightarrow> (string \<Rightarrow> nat \<Rightarrow> string option) \<Rightarrow> gateway
    \<Rightarrow> 'a metrics_world_scheme handler" where
  "gatewayServe pf fmt urlString sdk g =
     clientIPMiddleware (Some (gwProxies g))
       (tracingMiddleware (gwTrustRequestID g)
         (spanMiddleware (if gwTraced g then sdk else (\<lambda>_ _. None))
           (muxServeHTTP urlString (routeHandler pf fmt) (gwMux g))))"

datatype new_error =
    NewConfig config_error
  | NewProxies string
  | NewTracing string
  | NewBuild string gateway_error

datatype new_result = NewOk gateway watcher | NewErr new_error | NewPanic

text \<open>
  \<^verbatim>\<open>New\<close>. \<open>file\<close> is what reading the configuration yields and \<open>stat\<close> what the
  \<^verbatim>\<open>os.Stat\<close> of \<^verbatim>\<open>NewWatcher\<close> yields afterwards; the exporter and resource of
  OpenTelemetry are parameters.
\<close>

definition newGateway ::
  "platform \<Rightarrow> (string \<Rightarrow> target option) \<Rightarrow> decoder \<Rightarrow> (string \<Rightarrow> string option) \<Rightarrow> (string \<Rightarrow> string option)
    \<Rightarrow> string + string \<Rightarrow> fileStamp option \<Rightarrow> options \<Rightarrow> 'a lb_world_scheme \<Rightarrow> new_result \<times> 'a lb_world_scheme" where
  "newGateway pf parseURL unmarshal newExporter newResource file stat opts s =
     (case loadConfig unmarshal file of
        Inl e \<Rightarrow> (NewErr (NewConfig e), s)
      | Inr cfg \<Rightarrow>
        case parseTrusted (optTrustedProxies opts) of
          Inl e \<Rightarrow> (NewErr (NewProxies e), s)
        | Inr proxies \<Rightarrow>
          let serviceName = (if optServiceName opts = [] then ''dealer'' else optServiceName opts) in
          case newTracerProvider newExporter newResource (optOTLPEndpoint opts) serviceName of
            Inl e \<Rightarrow> (NewErr (NewTracing e), s)
          | Inr traced \<Rightarrow>
            let gw = emptyGateway proxies (optTrustRequestID opts) traced in
            case buildMux pf parseURL (resolveOptions opts) cfg s of
              (BuildPanic, (_, _, s)) \<Rightarrow> (NewPanic, s)
            | (BuildError name e, (_, _, s)) \<Rightarrow> (NewErr (NewBuild name e), s)
            | (Built mux, (probers, plugins, s)) \<Rightarrow>
                (NewOk ((install cfg mux probers plugins gw)\<lparr>gwWatching := True\<rparr>) (newWatcher stat), s))"

text \<open>The interval the watcher ticks at.\<close>

definition watchInterval :: "options \<Rightarrow> duration" where
  "watchInterval opts = orDefault (optPollInterval opts) defaultPollInterval"

definition gatewayClose :: "gateway \<times> 'a log_world_scheme \<Rightarrow> gateway \<times> 'a log_world_scheme" where
  "gatewayClose gs =
     (case gs of (g, s) \<Rightarrow>
        let g = g\<lparr>gwWatching := False\<rparr>;
            g = g\<lparr>gwProbers := cancelCur (gwProberCancel g) (gwProbers g)\<rparr>;
            g = g\<lparr>gwFlushers := cancelCur (gwFlusherCancel g) (gwFlushers g)\<rparr>;
            s = flushLoggers (gwPlugins g) s;
            g = g\<lparr>gwTracingOn := False\<rparr>
        in (g, s))"

end
