(* ===== verification/Gateway_Build.thy ===== *)
theory Gateway_Build
  imports Gateway
begin

text \<open>
  Which configurations a gateway accepts: a specification of \<^verbatim>\<open>buildMux\<close> without the state
  it threads along, and the proof that \<^verbatim>\<open>buildMux\<close> implements it in every state of the
  process. What the built routes, probers and plugins have to do with each other follows.
\<close>

section \<open>Which configurations are accepted\<close>

text \<open>
  The outcome of a load depends on the configuration and the process's environment alone: what it
  depends on is written down here without the state that building threads along.
\<close>

definition sugarOutcome :: "platform \<Rightarrow> string + sugarConfig" where
  "sugarOutcome pf = bindE (sharedNodeConfig pf) (newSugarDBInstance pf)"

fun errorOf :: "'e + 'b \<Rightarrow> 'e option" where
  "errorOf (Inl e) = Some e"
| "errorOf (Inr x) = None"

definition rateLimitingCheck :: "platform \<Rightarrow> cfgmap \<Rightarrow> plugin_error option" where
  "rateLimitingCheck pf cfg =
     (case rateAndBurst cfg of
        Inl e \<Rightarrow> Some e
      | Inr _ \<Rightarrow>
          let mode = cfgString cfg ''mode'' in
          if mode = [] \<or> mode = ''memory'' then None
          else if mode = ''distributed'' then map_option SharedStoreError (errorOf (sugarOutcome pf))
          else Some (BadMode mode))"

definition pluginCheck :: "platform \<Rightarrow> pluginConfig \<Rightarrow> plugin_error option" where
  "pluginCheck pf pc =
     (let name = pcName pc; cfg = pcConfig pc in
      if name = ''rate_limiting'' then rateLimitingCheck pf cfg
      else if name = ''add_header'' then errorOf (newAddHeader cfg)
      else if name = ''http_log'' then None
      else if name = ''request_size_limiting'' then errorOf (newRequestSizeLimiting cfg)
      else if name = ''jwt_auth'' then errorOf (newJWTAuth (osGetenv pf) cfg)
      else if name = ''cors'' then errorOf (newCORS cfg)
      else if name = ''response_headers'' then errorOf (newResponseHeaders cfg)
      else Some (UnknownPlugin name))"

fun firstError :: "('a \<Rightarrow> 'e option) \<Rightarrow> 'a list \<Rightarrow> 'e option" where
  "firstError f [] = None"
| "firstError f (x # xs) = (case f x of Some e \<Rightarrow> Some e | None \<Rightarrow> firstError f xs)"

definition originCheck :: "(string \<Rightarrow> target option) \<Rightarrow> string \<Rightarrow> proxy_error option" where
  "originCheck parseURL u =
     (case parseURL u of
        None \<Rightarrow> Some (InvalidOrigin u)
      | Some t \<Rightarrow> if tgScheme t = [] \<or> tgHost t = [] then Some (MissingSchemeOrHost u) else None)"

definition intervalCheck :: "service \<Rightarrow> gateway_error option" where
  "intervalCheck svc =
     (case healthCheck svc of None \<Rightarrow> None
      | Some hc \<Rightarrow> if hcInterval hc \<noteq> [] \<and> parseDuration (hcInterval hc) = None then Some (IntervalFailed (svcName svc)) else None)"

definition serviceCheck :: "platform \<Rightarrow> (string \<Rightarrow> target option) \<Rightarrow> service \<Rightarrow> gateway_error option" where
  "serviceCheck pf parseURL svc =
     (case firstError (\<lambda>pc. map_option (PluginFailed (pcName pc)) (pluginCheck pf pc)) (svcPlugins svc) of
        Some e \<Rightarrow> Some e
      | None \<Rightarrow>
          (case map_option OriginFailed (firstError (originCheck parseURL) (originsOf svc)) of
             Some e \<Rightarrow> Some e
           | None \<Rightarrow> intervalCheck svc))"

definition acceptService :: "platform \<Rightarrow> (string \<Rightarrow> target option) \<Rightarrow> service \<Rightarrow> unit \<Rightarrow> (gateway_error + service) \<times> unit" where
  "acceptService pf parseURL svc u = ((case serviceCheck pf parseURL svc of Some e \<Rightarrow> Inl e | None \<Rightarrow> Inr svc), ())"

definition compileConfig :: "platform \<Rightarrow> (string \<Rightarrow> target option) \<Rightarrow> config \<Rightarrow> (gateway_error, service) build_result" where
  "compileConfig pf parseURL cfg = fst (routerBuild cfg (acceptService pf parseURL) ())"

text \<open>SugarDB is started at most once, with the outcome the environment determines.\<close>

definition sugar_ok :: "platform \<Rightarrow> 'a plugin_world_scheme \<Rightarrow> bool" where
  "sugar_ok pf s \<longleftrightarrow> sugarSetup s = None \<or> sugarSetup s = Some (sugarOutcome pf)"

lemma shared_store:
  assumes "sugar_ok pf s"
  shows "\<exists>s'. getSharedSugarDBStore pf s = (sugarOutcome pf, s') \<and> sugar_ok pf s'"
  using assms by (auto simp: sugar_ok_def getSharedSugarDBStore_def sugarOutcome_def Let_def)

lemma newRateLimiting_check:
  assumes "sugar_ok pf s"
  shows "sugar_ok pf (snd (newRateLimiting pf cfg instID s)) \<and>
    errorOf (fst (newRateLimiting pf cfg instID s)) = rateLimitingCheck pf cfg"
proof -
  obtain s' where s': "getSharedSugarDBStore pf s = (sugarOutcome pf, s')" "sugar_ok pf s'"
    using shared_store [OF assms] by blast
  have "sugar_ok pf (s\<lparr>stores := x, nextStore := n\<rparr>)" for x n using assms by (simp add: sugar_ok_def)
  then show ?thesis
    using assms s' by (auto simp: newRateLimiting_def rateLimitingCheck_def Let_def split: sum.splits)
qed

lemma errorOf_lift [simp]: "errorOf (fst (lift c res s)) = errorOf res" "snd (lift c res s) = s"
  by (cases res; simp add: lift_def)+

lemma buildPlugin_check:
  assumes "sugar_ok pf s"
  shows "sugar_ok pf (snd (buildPlugin pf (pcName pc) (pcConfig pc) instID s)) \<and>
    errorOf (fst (buildPlugin pf (pcName pc) (pcConfig pc) instID s)) = pluginCheck pf pc"
proof (cases "pcName pc = ''rate_limiting''")
  case True
  then show ?thesis
    using newRateLimiting_check [OF assms] by (simp add: buildPlugin_def pluginCheck_def case_prod_unfold Let_def)
next
  case False
  then show ?thesis
    using assms by (auto simp: buildPlugin_def pluginCheck_def newHTTPLog_def sugar_ok_def Let_def)
qed

lemma buildPlugins_check:
  assumes "sugar_ok pf s"
  shows "sugar_ok pf (snd (buildPlugins pf name i pcs s)) \<and> errorOf (fst (buildPlugins pf name i pcs s)) =
    firstError (\<lambda>pc. map_option (PluginFailed (pcName pc)) (pluginCheck pf pc)) pcs"
  using assms
proof (induction pcs arbitrary: i s)
  case (Cons pc pcs)
  obtain x s1 where x: "buildPlugin pf (pcName pc) (pcConfig pc) (instanceID name i) s = (x, s1)"
    by (cases "buildPlugin pf (pcName pc) (pcConfig pc) (instanceID name i) s")
  have s1: "sugar_ok pf s1" and e: "errorOf x = pluginCheck pf pc"
    using buildPlugin_check [OF Cons.prems, of pc "instanceID name i"] x by simp_all
  show ?case
  proof (cases x)
    case (Inl e')
    then show ?thesis using x s1 e [symmetric] by simp
  next
    case (Inr p)
    obtain y s2 where y: "buildPlugins pf name (Suc i) pcs s1 = (y, s2)" by (cases "buildPlugins pf name (Suc i) pcs s1")
    then show ?thesis
      using x Inr e [symmetric] Cons.IH [OF s1, of "Suc i"] by (cases y) simp_all
  qed
qed simp

lemma buildOrigins_check:
  assumes "sugar_ok pf s"
  shows "sugar_ok pf (snd (buildOrigins parseURL name retry us s)) \<and>
    errorOf (fst (buildOrigins parseURL name retry us s)) = firstError (originCheck parseURL) us"
  using assms
proof (induction us arbitrary: s)
  case (Cons u us)
  have ok: "sugar_ok pf (snd (newState s))" using Cons.prems by (simp add: newState_def sugar_ok_def)
  obtain y s2 where y: "buildOrigins parseURL name retry us (snd (newState s)) = (y, s2)"
    by (cases "buildOrigins parseURL name retry us (snd (newState s))")
  then show ?case
    using Cons.prems Cons.IH [OF ok]
    by (cases y) (auto simp: newReverseProxy_def originCheck_def case_prod_unfold Let_def split: option.splits)
qed simp

lemma newOriginProxy_check:
  assumes "sugar_ok pf s" "us \<noteq> []"
  shows "sugar_ok pf (snd (newOriginProxy parseURL name us cd retry brk s)) \<and>
    errorOf (fst (newOriginProxy parseURL name us cd retry brk s)) = firstError (originCheck parseURL) us"
proof -
  obtain y s2 where y: "buildOrigins parseURL name retry us s = (y, s2)" by (cases "buildOrigins parseURL name retry us s")
  then show ?thesis
    using assms(2) buildOrigins_check [OF assms(1), of parseURL name retry us]
    by (cases y) (simp_all add: newOriginProxy_def sugar_ok_def)
qed

lemma healthProber_check: "errorOf (healthProber opts svc rp) = intervalCheck svc"
  by (simp add: healthProber_def intervalCheck_def Let_def bindE_def split: option.splits)

lemma errorOf_iff: "errorOf x = Some e \<longleftrightarrow> x = Inl e" "errorOf x = None \<longleftrightarrow> (\<exists>y. x = Inr y)"
  by (cases x; simp)+

abbreviation world_state :: "'w build_state \<Rightarrow> 'w" where
  "world_state st \<equiv> snd (snd st)"

lemma buildRoute_check:
  assumes "sugar_ok pf (world_state st)"
  shows "sugar_ok pf (world_state (snd (buildRoute pf parseURL opts svc st))) \<and>
    map_sum id rtService (fst (buildRoute pf parseURL opts svc st)) = fst (acceptService pf parseURL svc ())"
proof -
  obtain probers plugins s where st: "st = (probers, plugins, s)" by (cases st)
  obtain x s1 where x: "buildPlugins pf (svcName svc) 0 (svcPlugins svc) s = (x, s1)"
    by (cases "buildPlugins pf (svcName svc) 0 (svcPlugins svc) s")
  have s1: "sugar_ok pf s1" and e: "errorOf x =
      firstError (\<lambda>pc. map_option (PluginFailed (pcName pc)) (pluginCheck pf pc)) (svcPlugins svc)"
    using buildPlugins_check [of pf s "svcName svc" 0 "svcPlugins svc"] assms st x by simp_all
  let ?retry = "\<lparr>roMaxAttempts = retryMaxAttempts opts, roBackoffBase = retryBackoffBase opts,
                         roRetryUnsafeMethods = retryUnsafeMethods svc\<rparr>"
    and ?breaker = "\<lparr>boThreshold = breakerThreshold opts, boCooldown = breakerCooldown opts\<rparr>"
  obtain y s2 where y: "newOriginProxy parseURL (svcName svc) (originsOf svc) (unhealthyCooldown opts) ?retry ?breaker s1 = (y, s2)"
    by (cases "newOriginProxy parseURL (svcName svc) (originsOf svc) (unhealthyCooldown opts) ?retry ?breaker s1")
  have "originsOf svc \<noteq> []" by (simp add: originsOf_def)
  then have s2: "sugar_ok pf s2" and f: "errorOf y = firstError (originCheck parseURL) (originsOf svc)"
    using newOriginProxy_check [OF s1, of "originsOf svc" parseURL "svcName svc" "unhealthyCooldown opts" ?retry ?breaker] y by simp_all
  show ?thesis
  proof (cases x)
    case (Inl a)
    then show ?thesis
      using st x s1 e [symmetric] by (simp add: buildRoute_def acceptService_def serviceCheck_def)
  next
    case x': (Inr ps)
    show ?thesis
    proof (cases y)
      case (Inl a)
      then show ?thesis
        using st x x' y s2 e [symmetric] f [symmetric] by (simp add: buildRoute_def acceptService_def serviceCheck_def Let_def)
    next
      case (Inr rp)
      then show ?thesis
        using st x x' y s2 e [symmetric] f [symmetric] healthProber_check [of opts svc rp, symmetric]
        by (cases "healthProber opts svc rp") (simp_all add: buildRoute_def acceptService_def serviceCheck_def Let_def)
    qed
  qed
qed

text \<open>
  What a load comes to is what the acceptance of the configuration says, whatever the world was.
\<close>

lemma buildMux_compiles:
  assumes "sugar_ok pf s"
  shows "mapBuild rtService (fst (buildMux pf parseURL opts cfg s)) = compileConfig pf parseURL cfg"
    and "sugar_ok pf (world_state (snd (buildMux pf parseURL opts cfg s)))"
  using buildServices_simulation [of "\<lambda>st. sugar_ok pf (world_state st)" "buildRoute pf parseURL opts" rtService
      "acceptService pf parseURL" "([], [], s)" "services cfg" "[]", OF buildRoute_check] assms
  by (simp_all add: buildMux_def compileConfig_def routerBuild_def)

section \<open>What is built together\<close>

text \<open>Building allocates new log buffers and leaves the existing ones alone.\<close>

definition new_logs :: "'a log_world_scheme \<Rightarrow> plugin list \<Rightarrow> 'a log_world_scheme \<Rightarrow> bool" where
  "new_logs s ps s' \<longleftrightarrow> nextLog s \<le> nextLog s' \<and> (\<forall>j < nextLog s. logBufs s' j = logBufs s j) \<and>
     stdout s' = stdout s \<and> (\<forall>i. HttpLog i \<in> set ps \<longrightarrow> nextLog s \<le> i \<and> i < nextLog s')"

lemma new_logs_refl: "new_logs s [] s"
  by (simp add: new_logs_def)

lemma new_logs_trans: "new_logs s ps s1 \<Longrightarrow> new_logs s1 qs s2 \<Longrightarrow> new_logs s (ps @ qs) s2"
  by (fastforce simp: new_logs_def)

lemma buildPlugin_logs:
  assumes "buildPlugin pf name cfg instID s = (res, s')"
  shows "new_logs s (case res of Inr p \<Rightarrow> [p] | Inl e \<Rightarrow> []) s'"
proof (cases "name = ''rate_limiting''")
  case True
  obtain x s1 where x: "newRateLimiting pf cfg instID s = (x, s1)" by (cases "newRateLimiting pf cfg instID s")
  then have "nextLog s1 = nextLog s \<and> logBufs s1 = logBufs s \<and> stdout s1 = stdout s"
    by (auto simp: newRateLimiting_def getSharedSugarDBStore_def Let_def split: sum.splits prod.splits option.splits if_splits)
  then show ?thesis
    using assms True x by (cases x) (auto simp: buildPlugin_def lift_def new_logs_def)
next
  case False
  then show ?thesis
    using assms by (auto simp: buildPlugin_def lift_def new_logs_def newHTTPLog_def Let_def bindE_def split: if_splits sum.splits)
qed

lemma buildPlugins_logs:
  "buildPlugins pf name i pcs s = (res, s') \<Longrightarrow> new_logs s (case res of Inr ps \<Rightarrow> ps | Inl e \<Rightarrow> []) s'"
proof (induction pcs arbitrary: i s res s')
  case Nil
  then show ?case using new_logs_refl by auto
next
  case (Cons pc pcs)
  obtain x s1 where x: "buildPlugin pf (pcName pc) (pcConfig pc) (instanceID name i) s = (x, s1)"
    by (cases "buildPlugin pf (pcName pc) (pcConfig pc) (instanceID name i) s")
  obtain y s2 where y: "buildPlugins pf name (Suc i) pcs s1 = (y, s2)" by (cases "buildPlugins pf name (Suc i) pcs s1")
  note 1 = buildPlugin_logs [OF x] and 2 = Cons.IH [OF y]
  show ?case
  proof (cases x)
    case (Inr p)
    then show ?thesis
      using Cons.prems x y new_logs_trans [OF 1 2] by (cases y) (auto simp: new_logs_def)
  qed (use Cons.prems x 1 in auto)
qed

lemma newOriginProxy_logs:
  assumes "newOriginProxy parseURL name us cd retry brk s = (res, s')"
  shows "nextLog s' = nextLog s \<and> logBufs s' = logBufs s \<and> stdout s' = stdout s"
proof -
  have "nextLog (snd (buildOrigins parseURL name retry us s)) = nextLog s \<and>
      logBufs (snd (buildOrigins parseURL name retry us s)) = logBufs s \<and> stdout (snd (buildOrigins parseURL name retry us s)) = stdout s"
  proof (induction us arbitrary: s)
    case (Cons u us)
    have "nextLog (snd (newState s)) = nextLog s \<and> logBufs (snd (newState s)) = logBufs s \<and> stdout (snd (newState s)) = stdout s"
      by (simp add: newState_def)
    then show ?case using Cons [of "snd (newState s)"]
      by (auto simp: case_prod_unfold Let_def split: sum.splits)
  qed simp
  then show ?thesis
    using assms by (auto simp: newOriginProxy_def split: if_splits sum.splits prod.splits)
qed

text \<open>
  The routes, probers and plugins of one build: every route starts with the gateway's own size limit,
  its plugins are among those collected, and every prober watches the origins of one of the routes.
\<close>

definition built_ok :: "resolvedOptions \<Rightarrow> route mux \<Rightarrow> prober list \<Rightarrow> plugin list \<Rightarrow> bool" where
  "built_ok opts m probers plugins \<longleftrightarrow>
     (\<forall>(p, rt) \<in> set m. (\<exists>ps. rtPlugins rt = RequestSizeLimiting (maxBodyBytes opts) # ps) \<and> set (rtPlugins rt) \<subseteq> set plugins) \<and>
     (\<forall>pr \<in> set probers. \<exists>(p, rt) \<in> set m. prTargets pr = probeTargets (rtProxy rt))"

lemma healthProber_targets:
  "healthProber opts svc rp = Inr prs \<Longrightarrow> pr \<in> set prs \<Longrightarrow> prTargets pr = probeTargets rp"
  by (auto simp: healthProber_def newProber_def Let_def bindE_def split: option.splits if_splits sum.splits)

lemma buildRoute_Inr:
  assumes "buildRoute pf parseURL opts svc (probers, plugins, s) = (Inr rt, (probers', plugins', s'))"
  shows "\<exists>ps. rtPlugins rt = RequestSizeLimiting (maxBodyBytes opts) # ps \<and> plugins' = plugins @ rtPlugins rt \<and>
    new_logs s (rtPlugins rt) s' \<and> (\<exists>prs. probers' = probers @ prs \<and> (\<forall>pr \<in> set prs. prTargets pr = probeTargets (rtProxy rt)))"
proof -
  let ?retry = "\<lparr>roMaxAttempts = retryMaxAttempts opts, roBackoffBase = retryBackoffBase opts,
                         roRetryUnsafeMethods = retryUnsafeMethods svc\<rparr>"
    and ?breaker = "\<lparr>boThreshold = breakerThreshold opts, boCooldown = breakerCooldown opts\<rparr>"
  obtain ps s1 where ps: "buildPlugins pf (svcName svc) 0 (svcPlugins svc) s = (Inr ps, s1)"
    using assms by (auto simp: buildRoute_def split: prod.splits sum.splits)
  obtain rp where rp: "newOriginProxy parseURL (svcName svc) (originsOf svc) (unhealthyCooldown opts) ?retry ?breaker s1 = (Inr rp, s')"
    using assms ps by (auto simp: buildRoute_def Let_def split: prod.splits sum.splits)
  obtain prs where prs: "healthProber opts svc rp = Inr prs"
    using assms ps rp by (auto simp: buildRoute_def Let_def split: sum.splits)
  have res: "rt = \<lparr>rtService = svc, rtPlugins = RequestSizeLimiting (maxBodyBytes opts) # ps, rtProxy = rp\<rparr>"
    "plugins' = plugins @ RequestSizeLimiting (maxBodyBytes opts) # ps" "probers' = probers @ prs"
    using assms ps rp prs by (auto simp: buildRoute_def Let_def)
  have "new_logs s (RequestSizeLimiting (maxBodyBytes opts) # ps) s'"
    using buildPlugins_logs [OF ps] newOriginProxy_logs [OF rp] by (auto simp: new_logs_def)
  then show ?thesis using res healthProber_targets [OF prs] by auto
qed

lemma buildMux_Built:
  assumes "buildMux pf parseURL opts cfg s = (Built m, (probers, plugins, s'))"
  shows "built_ok opts m probers plugins \<and> new_logs s plugins s'"
proof -
  let ?J = "\<lambda>m st. built_ok opts m (fst st) (fst (snd st)) \<and> new_logs s (fst (snd st)) (snd (snd st))"
  have step: "?J m2 st2" if J: "?J m1 st1" and hf: "buildRoute pf parseURL opts svc st1 = (Inr rt, st2)"
    and h: "handleAll (servicePatterns svc) rt m1 = Some m2" for svc m1 st1 rt st2 m2
  proof -
    obtain pr1 pl1 s1 pr2 pl2 s2 where st: "st1 = (pr1, pl1, s1)" "st2 = (pr2, pl2, s2)" by (cases st1; cases st2)
    from buildRoute_Inr [OF hf [unfolded st]] obtain ps prs where
      b: "rtPlugins rt = RequestSizeLimiting (maxBodyBytes opts) # ps" "pl2 = pl1 @ rtPlugins rt"
        "new_logs s1 (rtPlugins rt) s2" "pr2 = pr1 @ prs" "\<forall>pr \<in> set prs. prTargets pr = probeTargets (rtProxy rt)" by blast
    obtain ps' where m2: "m2 = m1 @ map (\<lambda>p. (p, rt)) ps'" "length ps' = length (servicePatterns svc)"
      using handleAll_Some [OF h] by (metis length_map)
    have "ps' \<noteq> []" using m2(2) servicePatterns_nonempty [of svc] by auto
    then obtain p where p: "(p, rt) \<in> set m2" using m2(1) by (cases ps') auto
    have "\<exists>(p, rt) \<in> set m2. prTargets pr = probeTargets (rtProxy rt)" if "pr \<in> set pr2" for pr
    proof (cases "pr \<in> set prs")
      case True
      then show ?thesis using b(5) p by auto
    next
      case False
      then show ?thesis using that b(4) J st m2(1) by (fastforce simp: built_ok_def)
    qed
    moreover have "\<forall>(p, rt') \<in> set m2. (\<exists>ps. rtPlugins rt' = RequestSizeLimiting (maxBodyBytes opts) # ps) \<and>
        set (rtPlugins rt') \<subseteq> set pl2"
      using J st b(1,2) m2(1) by (fastforce simp: built_ok_def)
    ultimately show ?thesis using J st b(2) new_logs_trans [OF _ b(3)] by (auto simp: built_ok_def)
  qed
  have "?J [] ([], [], s)" by (simp add: built_ok_def new_logs_refl)
  from buildServices_inv [where J = ?J, OF assms [unfolded buildMux_def routerBuild_def] this step]
  show ?thesis by simp
qed

end
