(* ===== verification/Gateway_Process.thy ===== *)
theory Gateway_Process
  imports Gateway_Build
begin

text \<open>
  The running gateway: a process takes requests while the configuration watcher, the health probers
  and the log flushers tick beside them, until it is closed. Each event is one step, so the theorems
  hold for every sequence of whole handler calls and ticks. \<open>Balancer_Steps\<close>, \<open>Limiter_Races\<close> and
  \<open>Reload_Steps\<close> have what happens when these overlap.
\<close>

section \<open>The running process\<close>

text \<open>
  What the gateway process depends on from outside, fixed over its lifetime: the platform, the URL
  parser, the YAML decoder, the layout of log timestamps, the rendering of URLs and the tracing SDK.
\<close>

record deps =
  suPlatform :: platform
  suParseURL :: "string \<Rightarrow> target option"
  suDecoder :: decoder
  suTimeFormat :: "instant \<Rightarrow> string"
  suURLString :: "string \<Rightarrow> request \<Rightarrow> string"
  suStartSpan :: "string \<Rightarrow> nat \<Rightarrow> string option"
  suOptions :: resolvedOptions

record 'w process =
  down :: bool \<comment> \<open>a panic outside a request handler ended the process\<close>
  watch :: watcher
  gw :: gateway
  world :: 'w

text \<open>A tick of the configuration watcher.\<close>

definition configTick :: "deps \<Rightarrow> pollView \<Rightarrow> ('a metrics_world_scheme) process \<Rightarrow> ('a metrics_world_scheme) process" where
  "configTick su v st =
     (if down st \<or> \<not> gwWatching (gw st) then st
      else case pollOnce (suDecoder su) (onReloadConfig (suPlatform su) (suParseURL su) (suOptions su)) v
                  (watch st, (gw st, world st)) of
             (panicked, wt, g, s) \<Rightarrow> st\<lparr>down := panicked, watch := wt, gw := g, world := s\<rparr>)"

text \<open>A round of the \<open>i\<close>-th live prober; its first one comes with the panic of a bad interval.\<close>

definition probeTick :: "nat \<Rightarrow> (string \<Rightarrow> string + int) \<Rightarrow> ('a metrics_world_scheme) process \<Rightarrow> ('a metrics_world_scheme) process" where
  "probeTick i httpGet st =
     (let ps = concat (liveGens (gwProbers (gw st))) in
      if down st \<or> length ps \<le> i then st
      else case proberRun (ps ! i) [httpGet] (world st) of
             None \<Rightarrow> st\<lparr>down := True\<rparr>
           | Some s \<Rightarrow> st\<lparr>world := s\<rparr>)"

text \<open>A tick of the live log flushers.\<close>

definition flushTick :: "('a metrics_world_scheme) process \<Rightarrow> ('a metrics_world_scheme) process" where
  "flushTick st = (if down st then st else st\<lparr>world := fold flushLoggers (liveGens (gwFlushers (gw st))) (world st)\<rparr>)"

text \<open>
  A request, from its arrival to its answer; the server recovers a handler's panic. In the code a request
  keeps the mux it was routed by, so one that is in flight while the configuration is reloaded still uses
  the old plugins, and may write to the buffer of an old \<open>http_log\<close>, after the reload. Such requests are
  not events of this theory.
\<close>

definition handleRequest :: "deps \<Rightarrow> writer \<Rightarrow> request \<Rightarrow> ('a metrics_world_scheme) process \<Rightarrow> ('a metrics_world_scheme) process" where
  "handleRequest su w r st =
     (if down st then st
      else st\<lparr>world := world_of (gatewayServe (suPlatform su) (suTimeFormat su) (suURLString su) (suStartSpan su) (gw st) w r (world st))\<rparr>)"

definition closeGateway :: "('a metrics_world_scheme) process \<Rightarrow> ('a metrics_world_scheme) process" where
  "closeGateway st = (if down st then st else case gatewayClose (gw st, world st) of (g, s) \<Rightarrow> st\<lparr>gw := g, world := s\<rparr>)"

datatype event =
    ConfigTick pollView
  | ProbeTick nat "string \<Rightarrow> string + int"
  | FlushTick
  | HandleRequest writer request
  | CloseGateway

primrec step :: "deps \<Rightarrow> event \<Rightarrow> ('a metrics_world_scheme) process \<Rightarrow> ('a metrics_world_scheme) process" where
  "step su (ConfigTick v) st = configTick su v st"
| "step su (ProbeTick i httpGet) st = probeTick i httpGet st"
| "step su FlushTick st = flushTick st"
| "step su (HandleRequest w r) st = handleRequest su w r st"
| "step su CloseGateway st = closeGateway st"

definition run :: "deps \<Rightarrow> event list \<Rightarrow> ('a metrics_world_scheme) process \<Rightarrow> ('a metrics_world_scheme) process" where
  "run su evs st = fold (step su) evs st"

text \<open>A process right after \<^verbatim>\<open>New\<close> returned a gateway.\<close>

definition started ::
  "deps \<Rightarrow> (string \<Rightarrow> string option) \<Rightarrow> (string \<Rightarrow> string option) \<Rightarrow> string + string \<Rightarrow> fileStamp option \<Rightarrow> options
    \<Rightarrow> 'a metrics_world_scheme \<Rightarrow> ('a metrics_world_scheme) process \<Rightarrow> bool" where
  "started su newExporter newResource file stat opts s st \<longleftrightarrow>
     suOptions su = resolveOptions opts \<and> down st = False \<and>
     newGateway (suPlatform su) (suParseURL su) (suDecoder su) newExporter newResource file stat opts s =
       (NewOk (gw st) (watch st), world st)"

section \<open>Reloading keeps the polling contract\<close>

definition servedTable :: "('a metrics_world_scheme) process \<Rightarrow> service mux \<times> string set" where
  "servedTable st = (mapMux rtService (gwMux (gw st)), gwHosts (gw st))"

definition configOffer :: "deps \<Rightarrow> pollView \<Rightarrow> (service mux \<times> string set) offer" where
  "configOffer su v =
     (case loadConfig (suDecoder su) (readRes v) of
        Inl e \<Rightarrow> Unusable
      | Inr cfg \<Rightarrow>
          (case compileConfig (suPlatform su) (suParseURL su) cfg of
             Built m \<Rightarrow> Usable (m, set (configHosts cfg))
           | BuildError n e \<Rightarrow> Unusable
           | BuildPanic \<Rightarrow> Fatal))"

definition sugar_good :: "deps \<Rightarrow> ('a metrics_world_scheme) process \<Rightarrow> bool" where
  "sugar_good su st \<longleftrightarrow> sugar_ok (suPlatform su) (world st)"

definition watching :: "('a metrics_world_scheme) process \<Rightarrow> bool" where
  "watching st \<longleftrightarrow> \<not> down st \<and> gwWatching (gw st)"

definition configStamp :: "('a metrics_world_scheme) process \<Rightarrow> fileStamp" where
  "configStamp st = (lastModTime (watch st), lastSize (watch st))"

lemma install_keeps [simp]:
  "gwMux (install cfg m pr pl g) = m" "gwHosts (install cfg m pr pl g) = set (configHosts cfg)"
  "gwPlugins (install cfg m pr pl g) = pl" "gwWatching (install cfg m pr pl g) = gwWatching g"
  "gwProxies (install cfg m pr pl g) = gwProxies g"
  "gwTrustRequestID (install cfg m pr pl g) = gwTrustRequestID g"
  by (simp_all add: install_def startLogFlusher_def startProbers_def storeHosts_def Let_def split: prod.splits)

text \<open>The outcome of the reload callback in terms of the acceptance of the configuration.\<close>

lemma onReload_outcome:
  assumes "sugar_ok pf s" "onReloadConfig pf parseURL opts cfg (g, s) = (out, (g', s'))"
  shows "sugar_ok pf s' \<and>
    (case compileConfig pf parseURL cfg of
       Built m \<Rightarrow> out = ReloadOk \<and> mapMux rtService (gwMux g') = m \<and> gwHosts g' = set (configHosts cfg) \<and> gwWatching g' = gwWatching g
     | BuildError n e \<Rightarrow> out = ReloadErr \<and> g' = g
     | BuildPanic \<Rightarrow> out = ReloadPanic \<and> g' = g)"
proof -
  obtain res pr pl s1 where b: "buildMux pf parseURL opts cfg s = (res, (pr, pl, s1))"
    by (cases "buildMux pf parseURL opts cfg s") auto
  have "mapBuild rtService res = compileConfig pf parseURL cfg" "sugar_ok pf s1"
    using buildMux_compiles [OF assms(1), of parseURL opts cfg] b by simp_all
  then show ?thesis
    using assms(2) b by (cases res) (auto simp: onReloadConfig_def dest: sym)
qed

lemma configTick_eq:
  assumes "watching st" "statRes v = Some k" "k \<noteq> configStamp st"
  shows "configTick su v st = (case loadConfig (suDecoder su) (readRes v) of Inl e \<Rightarrow> st
      | Inr cfg \<Rightarrow> (case onReloadConfig (suPlatform su) (suParseURL su) (suOptions su) cfg (gw st, world st) of
           (out, g', s') \<Rightarrow> st\<lparr>down := (out = ReloadPanic), gw := g', world := s',
              watch := (if out = ReloadOk then (watch st)\<lparr>lastModTime := fst k, lastSize := snd k\<rparr> else watch st)\<rparr>))"
  using assms
  by (cases k) (auto simp: configTick_def pollOnce_def watching_def configStamp_def split: sum.splits prod.splits reload_outcome.splits)

lemma configTick_idle:
  assumes "\<not> watching st \<or> statRes v = None \<or> statRes v = Some (configStamp st)"
  shows "configTick su v st = st"
  using assms by (auto simp: configTick_def watching_def pollOnce_def configStamp_def)

lemma configTick_outcome:
  assumes "sugar_good su st" "watching st" "statRes v = Some k" "k \<noteq> configStamp st"
  defines "st' \<equiv> configTick su v st"
  shows "sugar_good su st' \<and> (case configOffer su v of
      Usable t \<Rightarrow> watching st' \<and> configStamp st' = k \<and> servedTable st' = t
    | Unusable \<Rightarrow> watching st' \<and> configStamp st' = configStamp st \<and> servedTable st' = servedTable st
    | Fatal \<Rightarrow> \<not> watching st' \<and> servedTable st' = servedTable st)"
proof (cases "loadConfig (suDecoder su) (readRes v)")
  case (Inl e)
  then show ?thesis using assms configTick_eq [OF assms(2-4)] by (simp add: configOffer_def)
next
  case (Inr cfg)
  let ?call = "onReloadConfig (suPlatform su) (suParseURL su) (suOptions su) cfg (gw st, world st)"
  obtain out g' s' where out: "?call = (out, g', s')" by (cases ?call) auto
  have ok: "sugar_ok (suPlatform su) (world st)" using assms(1) by (simp add: sugar_good_def)
  note o = onReload_outcome [OF ok out]
  show ?thesis
    using o assms(2) configTick_eq [OF assms(2-4)] Inr out unfolding st'_def
    by (cases "compileConfig (suPlatform su) (suParseURL su) cfg")
      (auto simp: configOffer_def sugar_good_def watching_def configStamp_def servedTable_def)
qed

interpretation config_watch: polled_resource "configTick su" "sugar_good su" watching configStamp servedTable statRes "configOffer su" for su
proof
  fix v k t and st :: "('a metrics_world_scheme) process"
  show "\<not> watching st \<Longrightarrow> configTick su v st = st" "statRes v = None \<Longrightarrow> configTick su v st = st"
    "statRes v = Some (configStamp st) \<Longrightarrow> configTick su v st = st" by (simp_all add: configTick_idle)
  assume good: "sugar_good su st"
  show "sugar_good su (configTick su v st)"
  proof (cases "watching st \<and> (\<exists>k. statRes v = Some k \<and> k \<noteq> configStamp st)")
    case False
    then show ?thesis using good configTick_idle [of st v su] by (cases "statRes v") auto
  next
    case True
    then show ?thesis using configTick_outcome [OF good] by auto
  qed
  assume "watching st" "statRes v = Some k" "k \<noteq> configStamp st"
  note outcome = configTick_outcome [OF good this]
  show "watching (configTick su v st) \<and> configStamp (configTick su v st) = configStamp st \<and>
      servedTable (configTick su v st) = servedTable st" if "configOffer su v = Unusable" using outcome that by simp
  show "\<not> watching (configTick su v st) \<and> servedTable (configTick su v st) = servedTable st" if "configOffer su v = Fatal"
    using outcome that by simp
  show "watching (configTick su v st) \<and> configStamp (configTick su v st) = k \<and> servedTable (configTick su v st) = t"
    if "configOffer su v = Usable t" using outcome that by simp
qed

section \<open>Generations of goroutines\<close>

text \<open>All generations but the last one are cancelled, and the stored cancel function is the last one's.\<close>

definition gens_ok :: "nat option \<Rightarrow> 'g generations \<Rightarrow> bool" where
  "gens_ok cur gs \<longleftrightarrow> (case cur of None \<Rightarrow> gs = [] | Some i \<Rightarrow> length gs = Suc i \<and> (\<forall>g \<in> set (butlast gs). snd g))"

lemma gens_ok_snoc: "gens_ok cur gs \<Longrightarrow> gs \<noteq> [] \<Longrightarrow> \<exists>olds g b. gs = olds @ [(g, b)] \<and> cur = Some (length olds) \<and> (\<forall>g \<in> set olds. snd g)"
  by (cases gs rule: rev_cases) (auto simp: gens_ok_def split: option.splits)

lemma live_cancelled: "\<forall>g \<in> set gs. snd g \<Longrightarrow> liveGens gs = []"
  by (simp add: liveGens_def)

lemma liveGens_append [simp]: "liveGens (gs @ hs) = liveGens gs @ liveGens hs"
  by (simp add: liveGens_def)

lemma cancelGen_last: "cancelGen (length olds) (olds @ (g, b) # gs) = olds @ (g, True) # gs"
  by (simp add: cancelGen_def)

lemma startGen_ok:
  assumes "gens_ok cur gs" "startGen g cur gs = (cur', gs')"
  shows "gens_ok cur' gs' \<and> liveGens gs' = [g]"
proof (cases "gs = []")
  case True
  then have "cur = None" using assms(1) by (auto simp: gens_ok_def split: option.splits)
  then show ?thesis using assms(2) True by (auto simp: startGen_def cancelCur_def gens_ok_def liveGens_def)
next
  case False
  then obtain olds h b where gs: "gs = olds @ [(h, b)]" "cur = Some (length olds)" "\<forall>g \<in> set olds. snd g"
    using gens_ok_snoc [OF assms(1)] by blast
  then have "cur' = Some (Suc (length olds))" "gs' = (olds @ [(h, True)]) @ [(g, False)]"
    using assms(2) cancelGen_last [of olds h b "[(g, False)]"] by (auto simp: startGen_def cancelCur_def)
  moreover have "\<forall>g \<in> set (olds @ [(h, True)]). snd g" using gs(3) by simp
  ultimately show ?thesis
    using live_cancelled [of "olds @ [(h, True)]"] by (simp add: gens_ok_def liveGens_def butlast_append)
qed

lemma cancelCur_ok:
  assumes "gens_ok cur gs"
  shows "gens_ok cur (cancelCur cur gs) \<and> liveGens (cancelCur cur gs) = []"
proof (cases "gs = []")
  case True
  then show ?thesis using assms by (auto simp: gens_ok_def cancelCur_def liveGens_def split: option.splits)
next
  case False
  then obtain olds h b where gs: "gs = olds @ [(h, b)]" "cur = Some (length olds)" "\<forall>g \<in> set olds. snd g"
    using gens_ok_snoc [OF assms] by auto
  then have "cancelCur cur gs = olds @ [(h, True)]" using cancelGen_last [of olds h b "[]"] by (simp add: cancelCur_def)
  then show ?thesis using gs live_cancelled [of olds] by (simp add: gens_ok_def liveGens_def)
qed

section \<open>The invariant of the gateway\<close>

definition gateway_inv :: "resolvedOptions \<Rightarrow> gateway \<Rightarrow> bool" where
  "gateway_inv opts g \<longleftrightarrow>
     gens_ok (gwProberCancel g) (gwProbers g) \<and> gens_ok (gwFlusherCancel g) (gwFlushers g) \<and>
     built_ok opts (gwMux g) (concat (liveGens (gwProbers g))) (gwPlugins g) \<and>
     (if gwWatching g then length (liveGens (gwProbers g)) = 1 \<and> liveGens (gwFlushers g) = [gwPlugins g]
      else liveGens (gwProbers g) = [] \<and> liveGens (gwFlushers g) = [])"

lemma install_gens:
  assumes "gens_ok (gwProberCancel g) (gwProbers g)" "gens_ok (gwFlusherCancel g) (gwFlushers g)"
    and g': "g' = install cfg m prs pls g"
  shows "gens_ok (gwProberCancel g') (gwProbers g') \<and> gens_ok (gwFlusherCancel g') (gwFlushers g') \<and>
    liveGens (gwProbers g') = [prs] \<and> liveGens (gwFlushers g') = [pls]"
proof -
  obtain c1 gs1 where 1: "startGen prs (gwProberCancel g) (gwProbers g) = (c1, gs1)"
    by (cases "startGen prs (gwProberCancel g) (gwProbers g)")
  obtain c2 gs2 where 2: "startGen pls (gwFlusherCancel g) (gwFlushers g) = (c2, gs2)"
    by (cases "startGen pls (gwFlusherCancel g) (gwFlushers g)")
  have "gwProberCancel g' = c1" "gwProbers g' = gs1" "gwFlusherCancel g' = c2" "gwFlushers g' = gs2"
    using 1 2 by (simp_all add: g' install_def startLogFlusher_def startProbers_def storeHosts_def)
  then show ?thesis using startGen_ok [OF assms(1) 1] startGen_ok [OF assms(2) 2] by simp
qed

lemma install_inv:
  assumes "gens_ok (gwProberCancel g) (gwProbers g)" "gens_ok (gwFlusherCancel g) (gwFlushers g)"
    and "built_ok opts m prs pls"
  shows "gateway_inv opts ((install cfg m prs pls g)\<lparr>gwWatching := True\<rparr>)"
  using install_gens [OF assms(1,2) refl, of cfg m prs pls] assms(3) by (simp add: gateway_inv_def)

lemma newGateway_inv:
  assumes "newGateway pf parseURL um ne nr file stat opts s = (NewOk g wt, s')"
  shows "gateway_inv (resolveOptions opts) g \<and> gwWatching g \<and> wt = newWatcher stat \<and>
    (\<exists>cfg m probers plugins. loadConfig um file = Inr cfg \<and>
       buildMux pf parseURL (resolveOptions opts) cfg s = (Built m, (probers, plugins, s')) \<and> gwMux g = m \<and>
       gwHosts g = set (configHosts cfg))"
proof -
  obtain cfg where cfg: "loadConfig um file = Inr cfg" using assms by (auto simp: newGateway_def split: sum.splits)
  obtain m probers plugins where b: "buildMux pf parseURL (resolveOptions opts) cfg s = (Built m, (probers, plugins, s'))"
    using assms cfg by (auto simp: newGateway_def Let_def split: sum.splits prod.splits build_result.splits)
  obtain proxies trust traced where gw0: "g = (install cfg m probers plugins (emptyGateway proxies trust traced))\<lparr>gwWatching := True\<rparr>"
    "wt = newWatcher stat"
    using assms cfg b by (auto simp: newGateway_def Let_def split: sum.splits)
  have "built_ok (resolveOptions opts) m probers plugins" using buildMux_Built [OF b] by simp
  from install_inv [OF _ _ this, of "emptyGateway proxies trust traced" cfg] gw0 cfg b
  show ?thesis by (simp add: gens_ok_def emptyGateway_def)
qed

lemma gatewayClose_gens:
  assumes "gateway_inv opts g" "gatewayClose (g, s) = (g', s')"
  shows "gateway_inv opts g' \<and> \<not> gwWatching g' \<and> gwMux g' = gwMux g \<and> gwPlugins g' = gwPlugins g \<and> gwHosts g' = gwHosts g \<and>
    s' = flushLoggers (gwPlugins g) s"
proof -
  have 1: "gens_ok (gwProberCancel g) (gwProbers g)" and 2: "gens_ok (gwFlusherCancel g) (gwFlushers g)"
    and b: "built_ok opts (gwMux g) [] (gwPlugins g)"
    using assms(1) by (auto simp: gateway_inv_def built_ok_def)
  then show ?thesis
    using assms(2) cancelCur_ok [OF 1] cancelCur_ok [OF 2] by (auto simp: gatewayClose_def Let_def gateway_inv_def)
qed

lemma configTick_cases:
  obtains "gw (configTick su v st) = gw st" "down st \<longrightarrow> configTick su v st = st"
  | cfg m probers plugins s where "\<not> down st" "gwWatching (gw st)" "loadConfig (suDecoder su) (readRes v) = Inr cfg"
    "buildMux (suPlatform su) (suParseURL su) (suOptions su) cfg (world st) = (Built m, (probers, plugins, s))"
    "gw (configTick su v st) = install cfg m probers plugins (gw st)" "world (configTick su v st) = s"
    "down (configTick su v st) = False"
proof (cases "watching st \<and> (\<exists>k. statRes v = Some k \<and> k \<noteq> configStamp st)")
  case False
  then have "configTick su v st = st" using configTick_idle [of st v su] by (cases "statRes v") auto
  then show ?thesis using that(1) by simp
next
  case True
  then obtain k where "statRes v = Some k" "k \<noteq> configStamp st" by auto
  note eq = configTick_eq [OF conjunct1 [OF True] this, of su]
  have up: "\<not> down st" "gwWatching (gw st)" using True by (auto simp: watching_def)
  show ?thesis
  proof (cases "loadConfig (suDecoder su) (readRes v)")
    case (Inl e)
    then show ?thesis using eq that(1) up by simp
  next
    case (Inr cfg)
    obtain res pr pl s1 where b: "buildMux (suPlatform su) (suParseURL su) (suOptions su) cfg (world st) = (res, (pr, pl, s1))"
      by (cases "buildMux (suPlatform su) (suParseURL su) (suOptions su) cfg (world st)") auto
    show ?thesis
    proof (cases res)
      case (Built m)
      then show ?thesis using that(2) [OF up Inr] b eq Inr by (simp add: onReloadConfig_def)
    qed (use that(1) b eq Inr up in \<open>simp_all add: onReloadConfig_def\<close>)
  qed
qed

section \<open>What requests, probes and flushes leave alone\<close>

lemma routeHandler_sugar: "sugarSetup (world_of (routeHandler pf fmt rt w r s)) = sugarSetup s"
proof -
  let ?h = "pluginChain pf fmt (rtPlugins rt) (lbServeHTTP (rtProxy rt))"
  have chain: "sugarSetup (world_of (?h w r s)) = sugarSetup s" for w r and s :: "'a metrics_world_scheme"
    by (rule chain_keeps) (simp_all add: storeAllow_keeps onLog_keeps lbServe_more)
  show ?thesis
    unfolding routeHandler_def Let_def
    by (rule metricsWrap_keeps [where F = sugarSetup]) (simp_all add: preserveInbound_def chain Let_def)
qed

lemma mux_sugar: "sugarSetup (world_of (muxServeHTTP us (routeHandler pf fmt) m w r s)) = sugarSetup s"
  by (simp add: muxServeHTTP_def routeHandler_sugar split: dispatch.splits)

lemma gatewayServe_sugar: "sugarSetup (world_of (gatewayServe pf fmt us sdk g w r s)) = sugarSetup s"
  by (simp add: gatewayServe_def clientIPMiddleware_def tracingMiddleware_def spanMiddleware_def endSpan_def newID_def mux_sugar Let_def
      split: prod.splits)

lemma flushLoggers_sugar: "sugarSetup (flushLoggers ps s) = sugarSetup s"
proof (induction ps arbitrary: s)
  case (Cons p ps)
  then show ?case by (cases p) (simp_all add: flushLoggers_Cons logFlush_def onLog_keeps)
qed (simp add: flushLoggers_def)

lemma flush_all_sugar: "sugarSetup (fold flushLoggers gs s) = sugarSetup s"
  by (induction gs arbitrary: s) (simp_all add: flushLoggers_sugar)

lemma probeOnce_sugar: "sugarSetup (probeOnce get p s) = sugarSetup s"
proof -
  have "sugarSetup (fold (\<lambda>(u, i) s. onOrigin i (setForcedDown (\<not> probe get p u)) s) ts s) = sugarSetup s" for ts
    by (induction ts arbitrary: s) (auto simp: onOrigin_def)
  then show ?thesis by (simp add: probeOnce_def)
qed

section \<open>The invariant of a run\<close>

definition process_inv :: "deps \<Rightarrow> ('a metrics_world_scheme) process \<Rightarrow> bool" where
  "process_inv su st \<longleftrightarrow> sugar_good su st \<and> gateway_inv (suOptions su) (gw st)"

lemma configTick_inv:
  assumes "process_inv su st"
  shows "process_inv su (configTick su v st)"
proof -
  have good: "sugar_good su (configTick su v st)" using assms config_watch.poll_good by (auto simp: process_inv_def)
  have "gateway_inv (suOptions su) (gw (configTick su v st))"
  proof (cases rule: configTick_cases [where su = su and v = v and st = st])
    case 1
    then show ?thesis using assms by (simp add: process_inv_def)
  next
    case (2 cfg m probers plugins s)
    have b: "built_ok (suOptions su) m probers plugins" using buildMux_Built [OF 2(4)] by simp
    have g: "gens_ok (gwProberCancel (gw st)) (gwProbers (gw st))" "gens_ok (gwFlusherCancel (gw st)) (gwFlushers (gw st))"
      using assms by (auto simp: process_inv_def gateway_inv_def)
    show ?thesis using install_gens [OF g refl, of cfg m probers plugins] b 2(2,5) by (simp add: gateway_inv_def)
  qed
  then show ?thesis using good by (simp add: process_inv_def)
qed

lemma step_inv:
  assumes "process_inv su st"
  shows "process_inv su (step su ev st)"
proof (cases ev)
  case (ConfigTick v)
  then show ?thesis using configTick_inv [OF assms] by simp
next
  case (ProbeTick i get)
  then show ?thesis
    using assms
    by (auto simp: process_inv_def sugar_good_def sugar_ok_def probeTick_def proberRun_def probeOnce_sugar Let_def split: option.splits)
next
  case FlushTick
  then show ?thesis using assms by (simp add: process_inv_def sugar_good_def sugar_ok_def flushTick_def flush_all_sugar)
next
  case (HandleRequest w r)
  then show ?thesis using assms by (simp add: process_inv_def sugar_good_def sugar_ok_def handleRequest_def gatewayServe_sugar)
next
  case CloseGateway
  obtain g s where c: "gatewayClose (gw st, world st) = (g, s)" by (cases "gatewayClose (gw st, world st)")
  have "gateway_inv (suOptions su) (gw st)" using assms by (simp add: process_inv_def)
  note close = gatewayClose_gens [OF this c]
  then show ?thesis
    using assms CloseGateway c by (auto simp: process_inv_def sugar_good_def sugar_ok_def closeGateway_def flushLoggers_sugar)
qed

lemma run_simps [simp]: "run su [] st = st" "run su (e # evs) st = run su evs (step su e st)"
  "run su (evs @ evs') st = run su evs' (run su evs st)"
  by (simp_all add: run_def)

lemma run_inv: "process_inv su st \<Longrightarrow> process_inv su (run su evs st)"
  by (induction evs arbitrary: st) (auto intro: step_inv)

lemma started_inv:
  assumes "started su ne nr file stat opts s st" "sugar_ok (suPlatform su) s"
  shows "process_inv su st \<and> gwWatching (gw st) \<and> \<not> down st \<and> (\<exists>cfg. loadConfig (suDecoder su) file = Inr cfg \<and>
    compileConfig (suPlatform su) (suParseURL su) cfg = Built (fst (servedTable st)) \<and> snd (servedTable st) = set (configHosts cfg))"
proof -
  have new: "newGateway (suPlatform su) (suParseURL su) (suDecoder su) ne nr file stat opts s = (NewOk (gw st) (watch st), world st)"
    and o: "suOptions su = resolveOptions opts" "\<not> down st" using assms(1) by (auto simp: started_def)
  from newGateway_inv [OF new] obtain cfg m probers plugins where n: "gateway_inv (suOptions su) (gw st)" "gwWatching (gw st)"
    "loadConfig (suDecoder su) file = Inr cfg" "gwMux (gw st) = m" "gwHosts (gw st) = set (configHosts cfg)"
    and b: "buildMux (suPlatform su) (suParseURL su) (suOptions su) cfg s = (Built m, (probers, plugins, world st))"
    using o by auto
  have "compileConfig (suPlatform su) (suParseURL su) cfg = Built (mapMux rtService m)" "sugar_ok (suPlatform su) (world st)"
    using buildMux_compiles [OF assms(2), of "suParseURL su" "suOptions su" cfg] b by simp_all
  then show ?thesis using n o by (auto simp: process_inv_def sugar_good_def servedTable_def)
qed

text \<open>Only a tick of the watcher changes what is served.\<close>

lemma step_served:
  assumes "process_inv su st"
  shows "servedTable (step su ev st) = servedTable st \<or> (\<exists>v. ev = ConfigTick v \<and> configOffer su v = Usable (servedTable (step su ev st)))"
proof (cases ev)
  case (ConfigTick v)
  then show ?thesis using config_watch.poll_served_cases [of su st v] assms by (auto simp: process_inv_def)
next
  case CloseGateway
  obtain g s where c: "gatewayClose (gw st, world st) = (g, s)" by (cases "gatewayClose (gw st, world st)")
  have "gateway_inv (suOptions su) (gw st)" using assms by (simp add: process_inv_def)
  from gatewayClose_gens [OF this c] show ?thesis using CloseGateway c by (simp add: closeGateway_def servedTable_def)
qed (auto simp: servedTable_def probeTick_def flushTick_def handleRequest_def Let_def split: option.splits)

lemma run_served:
  assumes "process_inv su st"
  shows "servedTable (run su evs st) = servedTable st \<or>
    (\<exists>v. ConfigTick v \<in> set evs \<and> configOffer su v = Usable (servedTable (run su evs st)))"
proof (induction evs rule: rev_induct)
  case (snoc e evs)
  then show ?case using step_served [OF run_inv [OF assms], of e evs] by auto
qed simp

end
