(* ===== verification/Gateway_Lifecycle.thy ===== *)
theory Gateway_Lifecycle
  imports Gateway_Process
begin

text \<open>
  What holds of a gateway over its whole life: which configurations are served or end the process,
  which goroutines run, where log lines go, and what requests get that no service answers.
\<close>

section \<open>Rejection and panic\<close>




lemma down_forever: "down st \<Longrightarrow> run su evs st = st"
proof (induction evs)
  case (Cons e evs)
  have "step su e st = st" using Cons.prems
    by (cases e) (simp_all add: configTick_def probeTick_def flushTick_def handleRequest_def closeGateway_def)
  then show ?case using Cons by simp
qed simp

section \<open>Lifetime\<close>

lemma gwWatching_run:
  "CloseGateway \<notin> set evs \<Longrightarrow> gwWatching (gw (run su evs st)) = gwWatching (gw st)"
proof (induction evs arbitrary: st)
  case (Cons e evs)
  have "gwWatching (gw (step su e st)) = gwWatching (gw st)"
  proof (cases e)
    case (ConfigTick v)
    then show ?thesis by (cases rule: configTick_cases [where su = su and v = v and st = st]) simp_all
  qed (use Cons.prems in \<open>auto simp: probeTick_def flushTick_def handleRequest_def Let_def split: option.splits\<close>)
  then show ?case using Cons by simp
qed simp

lemma close_step:
  assumes "process_inv su st" "\<not> down st"
  shows "gateway_inv (suOptions su) (gw (step su CloseGateway st)) \<and> \<not> gwWatching (gw (step su CloseGateway st)) \<and>
    gwMux (gw (step su CloseGateway st)) = gwMux (gw st) \<and>
    world (step su CloseGateway st) = flushLoggers (gwPlugins (gw st)) (world st)"
proof -
  obtain g s where c: "gatewayClose (gw st, world st) = (g, s)" by (cases "gatewayClose (gw st, world st)")
  have "gateway_inv (suOptions su) (gw st)" using assms by (simp add: process_inv_def)
  from gatewayClose_gens [OF this c] show ?thesis using assms(2) c by (auto simp: closeGateway_def)
qed

section \<open>Log buffers of an earlier generation\<close>

text \<open>A buffer that no plugin of the current generation writes to.\<close>

definition stranded :: "nat \<Rightarrow> bufWriter \<Rightarrow> ('a metrics_world_scheme) process \<Rightarrow> bool" where
  "stranded i b st \<longleftrightarrow> i < nextLog (world st) \<and> HttpLog i \<notin> set (gwPlugins (gw st)) \<and> logBufs (world st) i = b"

lemma route_logs:
  assumes "HttpLog i \<notin> set (rtPlugins rt)"
  shows "logBufs (world_of (routeHandler pf fmt rt w r s)) i = logBufs s i"
    and "nextLog (world_of (routeHandler pf fmt rt w r s)) = nextLog s"
proof -
  let ?h = "pluginChain pf fmt (rtPlugins rt) (lbServeHTTP (rtProxy rt))"
  have chain: "logBufs (world_of (?h w r s)) i = logBufs s i" "nextLog (world_of (?h w r s)) = nextLog s"
    for w r and s :: "'a metrics_world_scheme"
    by (rule chain_keeps [where F = "\<lambda>s. logBufs s i"], use assms in \<open>auto simp: storeAllow_keeps lbServe_more intro!: onLog_keeps(4)\<close>)
      (rule chain_keeps [where F = nextLog], simp_all add: storeAllow_keeps onLog_keeps lbServe_more)
  show "logBufs (world_of (routeHandler pf fmt rt w r s)) i = logBufs s i"
    unfolding routeHandler_def Let_def by (rule metricsWrap_keeps [where F = "\<lambda>s. logBufs s i"]) (simp_all add: preserveInbound_def chain Let_def)
  show "nextLog (world_of (routeHandler pf fmt rt w r s)) = nextLog s"
    unfolding routeHandler_def Let_def by (rule metricsWrap_keeps [where F = nextLog]) (simp_all add: preserveInbound_def chain Let_def)
qed

lemma gateway_logs:
  assumes "\<forall>(p, rt) \<in> set (gwMux g). HttpLog i \<notin> set (rtPlugins rt)"
  shows "logBufs (world_of (gatewayServe pf fmt us sdk g w r s)) i = logBufs s i \<and>
    nextLog (world_of (gatewayServe pf fmt us sdk g w r s)) = nextLog s"
proof -
  have "logBufs (world_of (muxServeHTTP us (routeHandler pf fmt) (gwMux g) w r s)) i = logBufs s i \<and>
      nextLog (world_of (muxServeHTTP us (routeHandler pf fmt) (gwMux g) w r s)) = nextLog s"
    for w r and s :: "'a metrics_world_scheme"
  proof (cases "dispatch (gwMux g) r")
    case (ToHandler rt)
    then have "HttpLog i \<notin> set (rtPlugins rt)" using dispatch_registered assms by fastforce
    note logs = route_logs [OF this, of pf fmt w r s]
    show ?thesis using ToHandler logs by (simp add: muxServeHTTP_def)
  qed (simp_all add: muxServeHTTP_def)
  then show ?thesis
    by (simp add: gatewayServe_def clientIPMiddleware_def tracingMiddleware_def spanMiddleware_def endSpan_def newID_def Let_def
        split: prod.splits)
qed

lemma flushLoggers_other:
  "HttpLog i \<notin> set ps \<Longrightarrow> logBufs (flushLoggers ps s) i = logBufs s i \<and> nextLog (flushLoggers ps s) = nextLog s"
proof (induction ps arbitrary: s)
  case (Cons p ps)
  have "logBufs (case p of HttpLog j \<Rightarrow> logFlush j s | _ \<Rightarrow> s) i = logBufs s i \<and>
      nextLog (case p of HttpLog j \<Rightarrow> logFlush j s | _ \<Rightarrow> s) = nextLog s"
    using Cons.prems by (cases p) (auto simp: logFlush_def onLog_keeps)
  then show ?case using Cons by (simp add: flushLoggers_Cons)
qed (simp add: flushLoggers_def)

lemma probeOnce_logs: "logBufs (probeOnce get p s) = logBufs s \<and> nextLog (probeOnce get p s) = nextLog s"
proof -
  have "logBufs (fold (\<lambda>(u, i) s. onOrigin i (setForcedDown (\<not> probe get p u)) s) ts s) = logBufs s \<and>
      nextLog (fold (\<lambda>(u, i) s. onOrigin i (setForcedDown (\<not> probe get p u)) s) ts s) = nextLog s" for ts
    by (induction ts arbitrary: s) (auto simp: onOrigin_def)
  then show ?thesis by (simp add: probeOnce_def)
qed

text \<open>A load that fails may still have allocated buffers.\<close>

lemma buildRoute_logs:
  assumes "buildRoute pf parseURL opts svc (probers, plugins, s) = (res, (probers', plugins', s'))"
  shows "new_logs s [] s'"
proof -
  let ?retry = "\<lparr>roMaxAttempts = retryMaxAttempts opts, roBackoffBase = retryBackoffBase opts,
                         roRetryUnsafeMethods = retryUnsafeMethods svc\<rparr>"
    and ?breaker = "\<lparr>boThreshold = breakerThreshold opts, boCooldown = breakerCooldown opts\<rparr>"
  obtain x s1 where x: "buildPlugins pf (svcName svc) 0 (svcPlugins svc) s = (x, s1)"
    by (cases "buildPlugins pf (svcName svc) 0 (svcPlugins svc) s")
  obtain y s2 where y: "newOriginProxy parseURL (svcName svc) (originsOf svc) (unhealthyCooldown opts) ?retry ?breaker s1 = (y, s2)"
    by (cases "newOriginProxy parseURL (svcName svc) (originsOf svc) (unhealthyCooldown opts) ?retry ?breaker s1")
  have "new_logs s [] s1" using buildPlugins_logs [OF x] by (auto simp: new_logs_def)
  moreover have "new_logs s [] s2" using calculation newOriginProxy_logs [OF y] by (simp add: new_logs_def)
  moreover have "s' = s1 \<or> s' = s2"
    using assms x y by (auto simp: buildRoute_def Let_def split: sum.splits)
  ultimately show ?thesis by auto
qed

lemma buildMux_logs: "new_logs s [] (world_state (snd (buildMux pf parseURL opts cfg s)))"
proof -
  let ?R = "\<lambda>st st'. new_logs (world_state st) [] (world_state st')"
  have "?R ([], [], s) (snd (buildServices (buildRoute pf parseURL opts) (services cfg) [] ([], [], s)))"
  proof (rule buildServices_state [where R = ?R])
    fix svc s1 x s2
    assume "?R ([], [], s) s1" "buildRoute pf parseURL opts svc s1 = (x, s2)"
    then show "?R ([], [], s) s2"
      using buildRoute_logs [of pf parseURL opts svc "fst s1" "fst (snd s1)" "world_state s1" x "fst s2" "fst (snd s2)" "world_state s2"]
        new_logs_trans [of s "[]" "world_state s1" "[]" "world_state s2"] by simp
  qed (simp add: new_logs_refl)
  then show ?thesis by (simp add: buildMux_def routerBuild_def)
qed

lemma configTick_logs: "new_logs (world st) [] (world (configTick su v st))"
proof (cases "watching st \<and> (\<exists>k. statRes v = Some k \<and> k \<noteq> configStamp st)")
  case False
  then have "configTick su v st = st" using configTick_idle [of st v su] by (cases "statRes v") auto
  then show ?thesis by (simp add: new_logs_refl)
next
  case True
  then obtain k where "statRes v = Some k" "k \<noteq> configStamp st" by auto
  note eq = configTick_eq [OF conjunct1 [OF True] this, of su]
  show ?thesis
    using eq buildMux_logs [of "world st" "suPlatform su" "suParseURL su" "suOptions su"]
    by (auto simp: onReloadConfig_def new_logs_refl split: sum.splits prod.splits build_result.splits)
      (metis snd_conv)+
qed

lemma stranded_step:
  assumes inv: "process_inv su st" and s: "stranded i b st"
  shows "stranded i b (step su e st)"
proof -
  have i: "i < nextLog (world st)" "HttpLog i \<notin> set (gwPlugins (gw st))" "logBufs (world st) i = b"
    using s by (auto simp: stranded_def)
  have g: "gateway_inv (suOptions su) (gw st)" using inv by (simp add: process_inv_def)
  show ?thesis
  proof (cases e)
    case (ConfigTick v)
    show ?thesis
    proof (cases rule: configTick_cases [where su = su and v = v and st = st])
      case 1
      then show ?thesis using ConfigTick i configTick_logs [of st su v] by (auto simp: stranded_def new_logs_def)
    next
      case (2 cfg m probers plugins s')
      have "new_logs (world st) plugins s'" using buildMux_Built [OF 2(4)] by simp
      then show ?thesis using ConfigTick i 2 by (auto simp: stranded_def new_logs_def)
    qed
  next
    case (ProbeTick j get)
    then show ?thesis using i
      by (auto simp: stranded_def probeTick_def proberRun_def probeOnce_logs Let_def split: option.splits)
  next
    case FlushTick
    have "liveGens (gwFlushers (gw st)) = [gwPlugins (gw st)] \<or> liveGens (gwFlushers (gw st)) = []"
      using g by (auto simp: gateway_inv_def split: if_splits)
    then show ?thesis using FlushTick i flushLoggers_other [OF i(2), of "world st"] by (auto simp: stranded_def flushTick_def)
  next
    case (HandleRequest w r)
    have "\<forall>(p, rt) \<in> set (gwMux (gw st)). HttpLog i \<notin> set (rtPlugins rt)"
      using g i(2) by (fastforce simp: gateway_inv_def built_ok_def)
    note logs = gateway_logs [OF this, of "suPlatform su" "suTimeFormat su" "suURLString su" "suStartSpan su" w r "world st"]
    show ?thesis using HandleRequest i logs by (auto simp: stranded_def handleRequest_def)
  next
    case CloseGateway
    obtain g' s' where c: "gatewayClose (gw st, world st) = (g', s')" by (cases "gatewayClose (gw st, world st)")
    from gatewayClose_gens [OF g c] show ?thesis
      using CloseGateway c i flushLoggers_other [OF i(2), of "world st"] by (auto simp: stranded_def closeGateway_def)
  qed
qed

lemma stranded_run: "process_inv su st \<Longrightarrow> stranded i b st \<Longrightarrow> stranded i b (run su evs st)"
  by (induction evs arbitrary: st) (auto intro: stranded_step step_inv)

lemma reload_installs:
  assumes "process_inv su st" "watching st" "statRes v = Some k" "k \<noteq> configStamp st"
    and "loadConfig (suDecoder su) (readRes v) = Inr cfg"
    and "compileConfig (suPlatform su) (suParseURL su) cfg = Built m"
  obtains m' probers plugins s' where
    "buildMux (suPlatform su) (suParseURL su) (suOptions su) cfg (world st) = (Built m', (probers, plugins, s'))"
    "configTick su v st = st\<lparr>down := False, gw := install cfg m' probers plugins (gw st), world := s',
       watch := (watch st)\<lparr>lastModTime := fst k, lastSize := snd k\<rparr>\<rparr>"
proof -
  obtain res probers plugins s' where b: "buildMux (suPlatform su) (suParseURL su) (suOptions su) cfg (world st) = (res, (probers, plugins, s'))"
    by (cases "buildMux (suPlatform su) (suParseURL su) (suOptions su) cfg (world st)") auto
  have "sugar_ok (suPlatform su) (world st)" using assms(1) by (simp add: process_inv_def sugar_good_def)
  then have "mapBuild rtService res = Built m" using buildMux_compiles(1) [of "suPlatform su" "world st" "suParseURL su" "suOptions su" cfg] b assms(6) by simp
  then obtain m' where res: "res = Built m'" by (cases res) auto
  show thesis
    by (rule that [OF b [unfolded res]])
      (use configTick_eq [OF assms(2-4), of su] assms(5) b res in \<open>simp add: onReloadConfig_def\<close>)
qed

section \<open>Properties\<close>

text \<open>
  C7: A load of a configuration comes to exactly what its acceptance says (the routing table, the
  error of the first service that is refused, or a panic of the mux), whatever routes, counters,
  breakers and stores the process already has.
\<close>

theorem build_refines_acceptance:
  assumes "sugar_ok pf s"
  shows "mapBuild rtService (fst (buildMux pf parseURL opts cfg s)) = compileConfig pf parseURL cfg"
  using buildMux_compiles(1) [OF assms] .

text \<open>
  C4: Take requests, probes, flushes and polls, a poll with the reload it leads to included, as whole
  events in any order. Between any two of them the gateway serves the routes and the hosts of one
  configuration that was valid and accepted, read at the start or at one of the polls, and never those
  of a refused one. (Within a reload the routes are stored before the hosts; \<open>Reload_Steps\<close> has what
  requests see then.)
\<close>

theorem serves_one_accepted_config:
  assumes "started su ne nr file stat opts s st" "sugar_ok (suPlatform su) s"
  shows "\<exists>src cfg. (src = file \<or> (\<exists>v. ConfigTick v \<in> set evs \<and> src = readRes v)) \<and>
    loadConfig (suDecoder su) src = Inr cfg \<and> wf_config cfg \<and>
    compileConfig (suPlatform su) (suParseURL su) cfg = Built (mapMux rtService (gwMux (gw (run su evs st)))) \<and>
    gwHosts (gw (run su evs st)) = set (configHosts cfg)"
proof -
  note init = started_inv [OF assms]
  have wf: "loadConfig um src = Inr cfg \<Longrightarrow> wf_config cfg" for um src cfg by (auto simp: loadConfig_Inr_iff)
  from run_served [of su st evs] init
  consider "servedTable (run su evs st) = servedTable st"
    | v where "ConfigTick v \<in> set evs" "configOffer su v = Usable (servedTable (run su evs st))" by blast
  then show ?thesis
  proof cases
    case 1
    then show ?thesis using init wf by (auto simp: servedTable_def)
  next
    case (2 v)
    then obtain cfg where "loadConfig (suDecoder su) (readRes v) = Inr cfg"
      "compileConfig (suPlatform su) (suParseURL su) cfg = Built (fst (servedTable (run su evs st)))"
      "snd (servedTable (run su evs st)) = set (configHosts cfg)"
      by (auto simp: configOffer_def dest!: sym [of "(_, _)"] split: sum.splits build_result.splits)
    then show ?thesis using 2(1) wf by (intro exI [of _ "readRes v"] exI [of _ cfg]) (auto simp: servedTable_def)
  qed
qed

text \<open>
  C26: A bad edit of the configuration file does no harm and a good one takes effect: after any number
  of polls that found an unreadable, invalid or refused file, the old routes are still served, and
  the first acceptable file with a new modification time or size replaces them.
\<close>

theorem reload_recovers:
  assumes "process_inv su st" "watching st" "\<forall>v \<in> set vs. configOffer su v = Unusable"
    and "statRes v = Some k" "k \<noteq> configStamp st" "loadConfig (suDecoder su) (readRes v) = Inr cfg"
    and "compileConfig (suPlatform su) (suParseURL su) cfg = Built m"
  shows "servedTable (run su (map ConfigTick vs) st) = servedTable st \<and>
    servedTable (run su (map ConfigTick (vs @ [v])) st) = (m, set (configHosts cfg))"
proof -
  have run: "run su (map ConfigTick us) st = fold (configTick su) us st" for us and st :: "('a metrics_world_scheme) process"
    by (induction us arbitrary: st) simp_all
  have good: "sugar_good su st" using assms(1) by (simp add: process_inv_def)
  have offer: "configOffer su v = Usable (m, set (configHosts cfg))" using assms(6,7) by (simp add: configOffer_def)
  show ?thesis
    using config_watch.unusable_run [OF good assms(2,3)] config_watch.recovers_after_unusable [OF good assms(2-5) offer]
    by (simp only: run)
qed


text \<open>
  Hot reload leaks no goroutines: until the gateway is closed exactly one generation of probers
  and one of log flushers runs, the flusher's is the current generation's plugins and every prober
  watches the origins of a current route; closing leaves none running.
\<close>

lemma one_generation_runs:
  assumes "started su ne nr file stat opts s st" "sugar_ok (suPlatform su) s"
  shows "(CloseGateway \<notin> set evs \<longrightarrow>
      (let g = gw (run su evs st) in length (liveGens (gwProbers g)) = 1 \<and> liveGens (gwFlushers g) = [gwPlugins g] \<and>
         (\<forall>pr \<in> set (concat (liveGens (gwProbers g))). \<exists>(p, rt) \<in> set (gwMux g). prTargets pr = probeTargets (rtProxy rt)))) \<and>
    (\<not> down (run su evs st) \<longrightarrow>
      (let g = gw (run su (evs @ [CloseGateway]) st) in liveGens (gwProbers g) = [] \<and> liveGens (gwFlushers g) = []))"
proof -
  note init = started_inv [OF assms]
  have inv: "process_inv su (run su evs st)" using init run_inv by blast
  then have g: "gateway_inv (suOptions su) (gw (run su evs st))" by (simp add: process_inv_def)
  show ?thesis
    using g gwWatching_run [of evs su st] init close_step [OF inv]
    by (auto simp: Let_def gateway_inv_def built_ok_def split: if_splits)
qed

text \<open>
  A graceful shutdown loses no line logged under the current configuration: once the gateway is
  closed, the buffer of every \<open>http_log\<close> plugin of every current route is empty.
\<close>

lemma close_flushes_current_logs:
  assumes "started su ne nr file stat opts s st" "sugar_ok (suPlatform su) s" "\<not> down (run su evs st)"
    and "\<forall>n. writeFails (stdout (world (run su evs st))) n = None" "\<forall>i. \<not> failed (logBufs (world (run su evs st)) i)"
    and "(p, rt) \<in> set (gwMux (gw (run su evs st)))" "HttpLog i \<in> set (rtPlugins rt)"
  shows "pending (logBufs (world (run su (evs @ [CloseGateway]) st)) i) = []"
proof -
  have inv: "process_inv su (run su evs st)" using started_inv [OF assms(1,2)] run_inv by blast
  then have "gateway_inv (suOptions su) (gw (run su evs st))" by (simp add: process_inv_def)
  then have "HttpLog i \<in> set (gwPlugins (gw (run su evs st)))" using assms(6,7) by (fastforce simp: gateway_inv_def built_ok_def)
  then have "pending (logBufs (flushLoggers (gwPlugins (gw (run su evs st))) (world (run su evs st))) i) = []"
    using flushLoggers_empties [OF assms(4,5)] by blast
  then show ?thesis using close_step [OF inv assms(3)] by simp
qed

text \<open>
  C37: A hot reload does lose lines. Take requests and reloads as whole events, so that no request of the
  old configuration is in flight when the new one is installed: then what a plugin of the old
  configuration still has in its buffer stays there whatever happens afterwards, the ticks of the flusher
  and the final flush at shutdown included.
\<close>

theorem reload_strands_log_lines:
  assumes "process_inv su st" "watching st" "statRes v = Some k" "k \<noteq> configStamp st"
    and "loadConfig (suDecoder su) (readRes v) = Inr cfg"
    and "compileConfig (suPlatform su) (suParseURL su) cfg = Built m"
    and "i < nextLog (world st)"
  shows "logBufs (world (run su (ConfigTick v # evs) st)) i = logBufs (world st) i"
proof -
  obtain m' probers plugins s' where
    b: "buildMux (suPlatform su) (suParseURL su) (suOptions su) cfg (world st) = (Built m', (probers, plugins, s'))"
    and tick: "configTick su v st = st\<lparr>down := False, gw := install cfg m' probers plugins (gw st), world := s',
       watch := (watch st)\<lparr>lastModTime := fst k, lastSize := snd k\<rparr>\<rparr>" by (rule reload_installs [OF assms(1-6)])
  have "new_logs (world st) plugins s'" using buildMux_Built [OF b] by simp
  then have "stranded i (logBufs (world st) i) (configTick su v st)"
    using tick assms(7) by (auto simp: stranded_def new_logs_def)
  from stranded_run [OF configTick_inv [OF assms(1)] this, of evs] show ?thesis by (simp add: stranded_def)
qed

text \<open>
  The certificate policy follows the configuration: once a configuration is installed, the gateway has
  a host exactly when that configuration has a service for it, up to case and a trailing dot.
\<close>

lemma hosts_follow_config:
  fixes g
  assumes "wf_config cfg"
  defines "g' \<equiv> storeHosts cfg g"
  shows "(hasHost g' host \<longleftrightarrow> (\<exists>svc \<in> set (services cfg). svcHost svc \<noteq> [] \<and> svcHost svc = trimSuffix (toLower host) ''.'')) \<and>
    (\<forall>svc \<in> set (services cfg). svcHost svc \<noteq> [] \<and> toLower host = svcHost svc \<longrightarrow> hasHost g' host \<and> hasHost g' (host @ ''.''))"
proof
  show iff: "hasHost g' host \<longleftrightarrow> (\<exists>svc \<in> set (services cfg). svcHost svc \<noteq> [] \<and> svcHost svc = trimSuffix (toLower host) ''.'')" for host
    by (force simp: hasHost_def g'_def storeHosts_def configHosts_set)
  show "\<forall>svc \<in> set (services cfg). svcHost svc \<noteq> [] \<and> toLower host = svcHost svc \<longrightarrow> hasHost g' host \<and> hasHost g' (host @ ''.'')"
  proof (intro ballI impI)
    fix svc
    assume svc: "svc \<in> set (services cfg)" "svcHost svc \<noteq> [] \<and> toLower host = svcHost svc"
    then have "hostPattern (svcHost svc)" using assms(1) by (auto simp: wf_config_def wf_service_def)
    then have "\<not> hasSuffix (svcHost svc) ''.''" by (rule hostPattern_no_dot_end)
    moreover have "toLower (host @ ''.'') = svcHost svc @ ''.''" using svc by (simp add: toLower_def)
    ultimately have "trimSuffix (toLower host) ''.'' = svcHost svc" "trimSuffix (toLower (host @ ''.'')) ''.'' = svcHost svc"
      using svc by (simp_all add: trimSuffix_append) (simp add: trimSuffix_def)
    then show "hasHost g' host \<and> hasHost g' (host @ ''.'')" using iff svc by metis
  qed
qed

lemma other_headers:
  "canonicalKey ''Location'' \<noteq> headerName" "canonicalKey ''Connection'' \<noteq> headerName" "canonicalKey ''Allow'' \<noteq> headerName"
  "canonicalKey ''Content-Type'' \<noteq> headerName" "canonicalKey ''X-Content-Type-Options'' \<noteq> headerName"
  "canonicalKey ''Content-Length'' \<noteq> headerName"
  by code_simp+

lemma sent_header:
  assumes "fresh w" "200 \<le> code" "\<And>h. rh_all w h = h"
  shows "sentStatus (base_of (writeHeader code (mapHeader f w))) = code"
    "sentHeader (base_of (writeHeader code (mapHeader f w))) = f (hdr (base_of w))"
    "wroteHeader (base_of (writeHeader code (mapHeader f w)))"
  using writeHeader_fresh_sent [of "mapHeader f w" code] assms by simp_all

lemma httpError_sent_header:
  assumes "fresh w" "200 \<le> code" "\<And>h. rh_all w h = h"
  shows "sentStatus (base_of (httpError msg code w)) = code"
    "hValues (sentHeader (base_of (httpError msg code w))) headerName = hValues (hdr (base_of w)) headerName"
  using sent_header [OF assms] other_headers by (simp_all add: httpError_def write_keeps header_laws)

lemma redirect_sent_header:
  assumes "fresh w" "\<And>h. rh_all w h = h"
  shows "sentStatus (base_of (httpRedirect url r w)) = 301"
    "hValues (sentHeader (base_of (httpRedirect url r w))) headerName = hValues (hdr (base_of w)) headerName"
  using sent_header [of w 301, OF assms(1) _ assms(2)] sent_header [of "mapHeader f w" 301 for f] assms other_headers
  by (simp_all add: httpRedirect_def Let_def write_keeps header_laws)

text \<open>What the mux answers by itself.\<close>

lemma mux_local:
  assumes w: "fresh w" "hValues (hdr (base_of w)) headerName = [rid]" "\<And>h. rh_all w h = h"
    and "\<forall>rt. dispatch m r \<noteq> ToHandler rt"
  shows "\<exists>w'. muxServeHTTP us serve m w r s = Done w' s \<and> sentStatus (base_of w') \<in> {301, 400, 404, 405} \<and>
    hValues (sentHeader (base_of w')) headerName = [rid]"
proof -
  have e: "sentStatus (base_of (httpError msg code (mapHeader (hSet ''Allow'' x) w))) = code \<and>
      hValues (sentHeader (base_of (httpError msg code (mapHeader (hSet ''Allow'' x) w)))) headerName = [rid]" if "200 \<le> code" for msg code x
    using httpError_sent_header [of "mapHeader (hSet ''Allow'' x) w" code] that w other_headers by (simp add: header_laws)
  show ?thesis
    using assms(4) w(2) e sent_header [OF w(1) _ w(3), of 400] redirect_sent_header [OF w(1,3)]
      httpError_sent_header [OF w(1) _ w(3)] other_headers
    by (auto simp: muxServeHTTP_def header_laws split: dispatch.splits)
qed

text \<open>The middlewares in front of the mux: the id a request gets and what they leave alone.\<close>

definition assignedID :: "gateway \<Rightarrow> request \<Rightarrow> 'a trace_world_scheme \<Rightarrow> string" where
  "assignedID g r s =
     (if gwTrustRequestID g \<and> hGet (reqHeader r) headerName \<noteq> [] then hGet (reqHeader r) headerName else fst (newID s))"

lemma spanMiddleware_form:
  "\<exists>x y i. spanMiddleware startSpan h w r s = map_world (endSpan i) (h w (r\<lparr>ctxSpan := x\<rparr>) (s\<lparr>spans := y\<rparr>))"
  unfolding spanMiddleware_def Let_def by blast

lemma upgradeType_id: "upgradeType (hSet headerName v h) = upgradeType h"
proof (rule upgradeType_cong)
  have "headerName \<noteq> ''Connection''" "headerName \<noteq> ''Upgrade''" by (simp_all add: headerName_def)
  then show "hValues (hSet headerName v h) ''Connection'' = hValues h ''Connection''"
    "hValues (hSet headerName v h) ''Upgrade'' = hValues h ''Upgrade''"
    by (simp_all add: hValues_hSet)
qed

lemma extractToken_id: "reqHeader r' = hSet headerName v (reqHeader r) \<Longrightarrow> urlQuery r' = urlQuery r \<Longrightarrow> extractToken r' = extractToken r"
proof (rule extractToken_cong)
  have "canonicalKey ''Authorization'' \<noteq> canonicalKey headerName" by code_simp
  then show "reqHeader r' = hSet headerName v (reqHeader r) \<Longrightarrow> hGet (reqHeader r') ''Authorization'' = hGet (reqHeader r) ''Authorization''"
    by (simp add: hGet_hSet)
qed

lemma gatewayServe_mux:
  obtains r' s' i where
    "gatewayServe pf fmt us sdk g w r s =
       map_world (endSpan i) (muxServeHTTP us (routeHandler pf fmt) (gwMux g) (mapHeader (hSet headerName (assignedID g r s)) w) r' s')"
    "dispatch (gwMux g) r' = dispatch (gwMux g) r" "urlPath r' = urlPath r" "contentLength r' = contentLength r" "reqMethod r' = reqMethod r"
    "upgradeType (reqHeader r') = upgradeType (reqHeader r)"
    "netCalls s' = netCalls s" "samples s' = samples s" "origins s' = origins s" "counters s' = counters s"
    "clock s' = clock s" "netOracle s' = netOracle s" "extractToken r' = extractToken r" "stores s' = stores s"
    "fromRequest r' = fromRequest (r\<lparr>ctxClientIP := Some (resolve (Some (gwProxies g)) r)\<rparr>)"
proof -
  let ?rid = "assignedID g r s" and ?in = "hGet (reqHeader r) headerName"
  let ?s = "if gwTrustRequestID g \<and> ?in \<noteq> [] then s else snd (newID s)"
  let ?r = "r\<lparr>ctxClientIP := Some (resolve (Some (gwProxies g)) r), ctxRequestID := Some ?rid,
      ctxInboundID := Some ?in, reqHeader := hSet headerName ?rid (reqHeader r)\<rparr>"
  have eq: "gatewayServe pf fmt us sdk g w r s =
      spanMiddleware (if gwTraced g then sdk else (\<lambda>_ _. None)) (muxServeHTTP us (routeHandler pf fmt) (gwMux g))
        (mapHeader (hSet headerName ?rid) w) ?r ?s"
    by (auto simp: gatewayServe_def clientIPMiddleware_def tracingMiddleware_def assignedID_def Let_def case_prod_unfold)
  from spanMiddleware_form obtain x y i where sp: "spanMiddleware (if gwTraced g then sdk else (\<lambda>_ _. None))
      (muxServeHTTP us (routeHandler pf fmt) (gwMux g)) (mapHeader (hSet headerName ?rid) w) ?r ?s =
    map_world (endSpan i) (muxServeHTTP us (routeHandler pf fmt) (gwMux g) (mapHeader (hSet headerName ?rid) w) (?r\<lparr>ctxSpan := x\<rparr>)
      (?s\<lparr>spans := y\<rparr>))" by blast
  show ?thesis
    by (rule that [OF trans [OF eq sp]])
      (auto simp: newID_def upgradeType_id extractToken_id intro!: dispatch_cong fromRequest_cong)
qed

lemma endSpan_keeps [simp]:
  "netCalls (endSpan i s) = netCalls s" "samples (endSpan i s') = samples s'" "origins (endSpan i s'') = origins s''"
  "clock (endSpan i u) = clock u"
  by (simp_all add: endSpan_def)

text \<open>
  A request no service answers for is answered by the gateway itself, with a redirect or an error
  and its request id, without any call to an origin and without a sample in the metrics.
\<close>

lemma unrouted_request_answered_locally:
  assumes "fresh (Base b)" "\<forall>rt. dispatch (gwMux g) r \<noteq> ToHandler rt"
  shows "\<exists>w' s'. gatewayServe pf fmt us sdk g (Base b) r s = Done w' s' \<and> netCalls s' = netCalls s \<and> samples s' = samples s \<and>
    sentStatus (base_of w') \<in> {301, 400, 404, 405} \<and> hValues (sentHeader (base_of w')) headerName = [assignedID g r s]"
proof -
  let ?w = "mapHeader (hSet headerName (assignedID g r s)) (Base b)"
  have w: "fresh ?w" "hValues (hdr (base_of ?w)) headerName = [assignedID g r s]" "rh_all ?w h = h" for h
    using assms(1) by (simp_all add: header_laws fresh_def)
  obtain r' s' i where serve: "gatewayServe pf fmt us sdk g (Base b) r s =
      map_world (endSpan i) (muxServeHTTP us (routeHandler pf fmt) (gwMux g) ?w r' s')"
    "dispatch (gwMux g) r' = dispatch (gwMux g) r" "netCalls s' = netCalls s" "samples s' = samples s"
    by (rule gatewayServe_mux)
  have "\<forall>rt. dispatch (gwMux g) r' \<noteq> ToHandler rt" using assms(2) serve(2) by simp
  from mux_local [OF w this, of us "routeHandler pf fmt" s'] serve(1,3,4) show ?thesis by auto
qed

text \<open>
  C22: No request that announces a body above the gateway's limit reaches an origin, whatever service
  it is for and whatever plugins that has: it is answered with 413, no origin is called and no
  breaker changes.
\<close>

theorem oversized_request_refused:
  assumes "process_inv su st" "fresh w" "dispatch (gwMux (gw st)) r = ToHandler rt" "urlPath r \<noteq> ''*''"
    and "maxBodyBytes (suOptions su) < contentLength r"
  shows "\<exists>w' s'. gatewayServe pf fmt us sdk (gw st) w r (world st) = Done w' s' \<and> sentStatus (base_of w') = 413 \<and>
    netCalls s' = netCalls (world st) \<and> origins s' = origins (world st)"
proof -
  obtain p where "(p, rt) \<in> set (gwMux (gw st))" using dispatch_registered [OF assms(3)] by blast
  then obtain ps where ps: "rtPlugins rt = RequestSizeLimiting (maxBodyBytes (suOptions su)) # ps"
    using assms(1) by (fastforce simp: process_inv_def gateway_inv_def built_ok_def)
  let ?w = "mapHeader (hSet headerName (assignedID (gw st) r (world st))) w"
  obtain r' s' i where serve: "gatewayServe pf fmt us sdk (gw st) w r (world st) =
      map_world (endSpan i) (muxServeHTTP us (routeHandler pf fmt) (gwMux (gw st)) ?w r' s')"
    "dispatch (gwMux (gw st)) r' = dispatch (gwMux (gw st)) r" "urlPath r' = urlPath r" "contentLength r' = contentLength r"
    "netCalls s' = netCalls (world st)" "origins s' = origins (world st)"
    by (rule gatewayServe_mux)
  have "fresh (StatusWriter 200 ?w)" using assms(2) by simp
  then have "sentStatus (base_of (writeHeader 413 (StatusWriter 200 ?w))) = 413" by (rule writeHeader_fresh_sent(2)) simp
  then show ?thesis
    using serve assms(3-5) ps
    by (auto simp: muxServeHTTP_def routeHandler_def metricsWrap_def preserveInbound_def pluginChain_def requestSizeLimitingWrap_def Let_def)
qed

text \<open>
  A probe interval of zero or less passes validation and building, and its prober ends the process
  as soon as it starts, for good.
\<close>

lemma bad_probe_interval_ends_process:
  assumes "healthCheck svc = Some hc" "parseDuration (hcInterval hc) = Some d" "d \<le> 0" "hcInterval hc \<noteq> []"
    and "healthProber opts svc rp = Inr prs"
    and "\<not> down st" "i < length (concat (liveGens (gwProbers (gw st))))" "concat (liveGens (gwProbers (gw st))) ! i \<in> set prs"
  shows "intervalCheck svc = None \<and> down (run su (ProbeTick i httpGet # evs) st)"
proof -
  have "prInterval (concat (liveGens (gwProbers (gw st))) ! i) = d"
    using assms(1,2,4,5,8) by (auto simp: healthProber_def newProber_def Let_def split: if_splits)
  then have "down (probeTick i httpGet st)" using assms(3,6,7) by (simp add: probeTick_def proberRun_def)
  then show ?thesis using assms(1,2) by (simp add: intervalCheck_def down_forever)
qed

section \<open>Witnesses\<close>

definition demo_log_service :: service where
  "demo_log_service = demo_service\<lparr>svcPlugins := [\<lparr>pcName = ''http_log'', pcConfig = []\<rparr>]\<rparr>"

definition demo_config :: config where
  "demo_config = \<lparr>services = [demo_log_service]\<rparr>"

definition demo_pattern :: pat where
  "demo_pattern = \<lparr>patMethod = [], patHost = ''shop.test'', patSegs = [Lit ''shop'', Multi]\<rparr>"

definition demo_decoder :: decoder where
  "demo_decoder data = (if data = ''one'' then Inr demo_config
     else if data = ''twice'' then Inr \<lparr>services = [demo_log_service, demo_log_service]\<rparr>
     else Inl ''yaml: line 1'')"

definition demo_options :: options where
  "demo_options = \<lparr>optPollInterval = 0, optOriginTimeout = 0, optMaxRequestBodyBytes = 1, optUnhealthyCooldown = 0,
     optHealthCheckPath = [], optHealthCheckInterval = 0, optHealthCheckTimeout = 0, optRetryMaxAttempts = 0,
     optRetryBackoffBase = 0, optBreakerThreshold = 0, optBreakerCooldown = 0, optTrustRequestID = False,
     optTrustedProxies = [], optOTLPEndpoint = [], optServiceName = []\<rparr>"

definition demo_deps :: deps where
  "demo_deps = \<lparr>suPlatform = demo_platform, suParseURL = (\<lambda>u. Some demo_target), suDecoder = demo_decoder,
     suTimeFormat = (\<lambda>_. []), suURLString = (\<lambda>path r. path), suStartSpan = (\<lambda>_ _. None), suOptions = resolveOptions demo_options\<rparr>"

definition demo_route :: route where
  "demo_route = \<lparr>rtService = demo_log_service, rtPlugins = [RequestSizeLimiting 1, HttpLog 0],
     rtProxy = \<lparr>lbName = ''shop'', lbOrigins = [\<lparr>rrURL = ''http://origin:8080'', rrTarget = demo_target, rrState = 2\<rparr>],
       lbRetry = \<lparr>roMaxAttempts = 1, roBackoffBase = 100000000, roRetryUnsafeMethods = False\<rparr>, lbCooldown = 10000000000,
       lbBreaker = \<lparr>boThreshold = 0, boCooldown = 30000000000\<rparr>, lbCounter = 1\<rparr>\<rparr>"

definition demo_gw_world :: metrics_world where
  "demo_gw_world = demo_metrics_world\<lparr>logBufs := (\<lambda>_. newBufWriter)(0 := newBufWriter), nextLog := 1,
     origins := (\<lambda>_. newOriginState)(2 := newOriginState), nextOrigin := 3, counters := (\<lambda>_. 0)(1 := 0), nextLB := 2\<rparr>"

definition demo_gateway :: gateway where
  "demo_gateway = (install demo_config [(demo_pattern, demo_route)] [] [RequestSizeLimiting 1, HttpLog 0] (emptyGateway [] False False))\<lparr>gwWatching := True\<rparr>"

definition demo_process :: "metrics_world process" where
  "demo_process = \<lparr>down = False, watch = newWatcher None, gw = demo_gateway, world = demo_gw_world\<rparr>"

lemma demo_patterns: "servicePatterns demo_log_service = [''shop.test/shop/'']" "parsePattern ''shop.test/shop/'' = Some demo_pattern"
  by code_simp+

lemma demo_wf: "wf_config demo_config" "wf_config \<lparr>services = [demo_log_service, demo_log_service]\<rparr>"
  by code_simp+

lemma demo_build:
  "buildMux demo_platform (\<lambda>u. Some demo_target) (resolveOptions demo_options) demo_config demo_metrics_world =
    (Built [(demo_pattern, demo_route)], ([], [RequestSizeLimiting 1, HttpLog 0], demo_gw_world))"
proof -
  have "buildRoute demo_platform (\<lambda>u. Some demo_target) (resolveOptions demo_options) demo_log_service ([], [], demo_metrics_world) =
      (Inr demo_route, ([], [RequestSizeLimiting 1, HttpLog 0], demo_gw_world))"
    by (simp add: buildRoute_def demo_log_service_def demo_service_def demo_route_def demo_gw_world_def demo_metrics_world_def resolveOptions_def
        demo_options_def buildPlugin_def newHTTPLog_def newOriginProxy_def newReverseProxy_def newState_def healthProber_def originsOf_def
        orDefault_def default_defs demo_target_def Let_def)
  then show ?thesis
    by (simp add: buildMux_def routerBuild_def demo_config_def muxHandle_def demo_patterns)
qed

lemma demo_started: "started demo_deps (\<lambda>_. None) (\<lambda>_. None) (Inr ''one'') None demo_options demo_metrics_world demo_process"
proof -
  have "loadConfig demo_decoder (Inr ''one'') = Inr demo_config" using demo_wf by (simp add: loadConfig_Inr_iff demo_decoder_def)
  moreover have "parseTrusted [] = Inr []" by code_simp
  ultimately show ?thesis
    using demo_build
    by (simp add: started_def demo_deps_def demo_process_def demo_gateway_def newGateway_def newTracerProvider_def demo_options_def Let_def)
qed

lemma demo_sugar: "sugar_ok demo_platform demo_metrics_world"
  by (simp add: sugar_ok_def demo_metrics_world_def)

lemma demo_inv: "process_inv demo_deps demo_process" "watching demo_process" "configStamp demo_process = (0, 0)"
  using started_inv [OF demo_started] demo_sugar
  by (simp_all add: demo_deps_def watching_def) (simp add: configStamp_def demo_process_def newWatcher_def)

text \<open>A poll that sees a file with a new stamp.\<close>

definition demo_view :: "string \<Rightarrow> pollView" where
  "demo_view data = \<lparr>statRes = Some (7, 7), readRes = Inr data\<rparr>"

lemma demo_loads:
  "loadConfig demo_decoder (Inr ''one'') = Inr demo_config" "configOffer demo_deps (demo_view ''junk'') = Unusable"
  "loadConfig demo_decoder (Inr ''twice'') = Inr \<lparr>services = [demo_log_service, demo_log_service]\<rparr>"
  using demo_wf
  by (simp_all add: loadConfig_Inr_iff demo_decoder_def configOffer_def demo_view_def demo_deps_def)
    (simp add: loadConfig_def parseConfig_def demo_decoder_def)

lemma demo_compiles: "compileConfig demo_platform (\<lambda>u. Some demo_target) demo_config = Built [(demo_pattern, demo_log_service)]"
  using buildMux_compiles(1) [OF demo_sugar, of "\<lambda>u. Some demo_target" "resolveOptions demo_options" demo_config]
  by (simp add: demo_build demo_route_def)

theorem build_refines_acceptance_witness:
  "compileConfig demo_platform (\<lambda>u. Some demo_target) demo_config = Built [(demo_pattern, demo_log_service)]"
  using build_refines_acceptance [OF demo_sugar, of "\<lambda>u. Some demo_target" "resolveOptions demo_options" demo_config]
  by (simp add: demo_build demo_route_def)

theorem serves_one_accepted_config_witness:
  "gwHosts (gw (run demo_deps [ConfigTick (demo_view ''junk'')] demo_process)) = {''shop.test''}"
proof -
  have "configHosts demo_config = [''shop.test'']" by code_simp
  moreover have "loadConfig demo_decoder (Inr ''junk'') \<noteq> Inr cfg" for cfg
    by (simp add: loadConfig_Inr_iff demo_decoder_def)
  ultimately show ?thesis
    using serves_one_accepted_config [OF demo_started, of "[ConfigTick (demo_view ''junk'')]"] demo_sugar demo_loads(1)
    by (auto simp: demo_deps_def demo_view_def)
qed

theorem reload_recovers_witness:
  "servedTable (run demo_deps [ConfigTick (demo_view ''junk''), ConfigTick (demo_view ''one'')] demo_process) =
    ([(demo_pattern, demo_log_service)], set (configHosts demo_config))"
  using reload_recovers [OF demo_inv(1,2), of "[demo_view ''junk'']" "demo_view ''one''" "(7, 7)" demo_config] demo_loads demo_compiles demo_inv(3)
  by (simp add: demo_deps_def demo_view_def)


definition demo_stranded :: "metrics_world process" where
  "demo_stranded = demo_process\<lparr>world := demo_gw_world\<lparr>logBufs := (\<lambda>_. newBufWriter\<lparr>pending := ''GET /a''\<rparr>)\<rparr>\<rparr>"

theorem reload_strands_log_lines_witness:
  "pending (logBufs (world (run demo_deps [ConfigTick (demo_view ''one''), FlushTick, CloseGateway] demo_stranded)) 0) = ''GET /a''"
proof -
  have "process_inv demo_deps demo_stranded" "watching demo_stranded" "configStamp demo_stranded = (0, 0)"
    using demo_inv
    by (simp_all add: demo_stranded_def demo_process_def process_inv_def sugar_good_def sugar_ok_def watching_def configStamp_def)
  moreover have "logBufs (world demo_stranded) 0 = newBufWriter\<lparr>pending := ''GET /a''\<rparr>" "nextLog (world demo_stranded) = 1"
    by (simp_all add: demo_stranded_def demo_gw_world_def)
  ultimately show ?thesis
    using reload_strands_log_lines [of demo_deps demo_stranded "demo_view ''one''" "(7, 7)" demo_config
        "[(demo_pattern, demo_log_service)]" 0 "[FlushTick, CloseGateway]"] demo_loads(1) demo_compiles
    by (simp add: demo_deps_def demo_view_def)
qed

theorem oversized_request_refused_witness:
  "\<exists>w' s'. gatewayServe demo_platform (\<lambda>_. []) (\<lambda>p r. p) (\<lambda>_ _. None) demo_gateway demo_writer (demo_request\<lparr>urlPath := ''/shop/x''\<rparr>)
      demo_gw_world = Done w' s' \<and> sentStatus (base_of w') = 413"
proof -
  have "dispatch [(demo_pattern, demo_route)] (demo_request\<lparr>urlPath := ''/shop/x''\<rparr>) = ToHandler demo_route" by code_simp
  then show ?thesis
    using oversized_request_refused [OF demo_inv(1) demo_writer_fresh(1), of "demo_request\<lparr>urlPath := ''/shop/x''\<rparr>" demo_route demo_platform
        "\<lambda>_. []" "\<lambda>p r. p" "\<lambda>_ _. None"]
    by (auto simp: demo_process_def demo_gateway_def demo_deps_def resolveOptions_def demo_options_def orDefault_def demo_request_fields)
qed

end
