(* ===== verification/Certificates.thy ===== *)
theory Certificates
  imports Polling
begin

text \<open>
  The certificates of the gateway's TLS listener: the file-based reloader
  (\<^verbatim>\<open>cmd/dealer/internal/tlscert\<close>), the way \<^verbatim>\<open>main\<close> sets it up
  (\<^verbatim>\<open>buildTLSConfig\<close>), and the ACME manager's options and host policy
  (\<^verbatim>\<open>cmd/dealer/internal/acmecert\<close>). What \<^verbatim>\<open>os.Stat\<close> and
  \<^verbatim>\<open>tls.LoadX509KeyPair\<close> return is an argument; a certificate is a value of an arbitrary
  type.
\<close>

section \<open>The reloader\<close>

record 'c reloader =
  certPtr :: "'c option"
  lastCertModTime :: instant
  lastKeyModTime :: instant

text \<open>What one poll sees: the two stats and, if it comes to that, the loaded pair.\<close>

record 'c certView =
  certStat :: "instant option"
  keyStat :: "instant option"
  loadPair :: "string + 'c"

definition reload :: "string + 'c \<Rightarrow> 'c reloader \<Rightarrow> string option \<times> 'c reloader" where
  "reload pair r = (case pair of Inl e \<Rightarrow> (Some e, r) | Inr c \<Rightarrow> (None, r\<lparr>certPtr := Some c\<rparr>))"

definition newReloader :: "'c certView \<Rightarrow> string + 'c reloader" where
  "newReloader v =
     (case reload (loadPair v) \<lparr>certPtr = None, lastCertModTime = 0, lastKeyModTime = 0\<rparr> of
        (Some e, r) \<Rightarrow> Inl e
      | (None, r) \<Rightarrow>
          let r = (case certStat v of None \<Rightarrow> r | Some m \<Rightarrow> r\<lparr>lastCertModTime := m\<rparr>);
              r = (case keyStat v of None \<Rightarrow> r | Some m \<Rightarrow> r\<lparr>lastKeyModTime := m\<rparr>)
          in Inr r)"

definition getCertificate :: "'c reloader \<Rightarrow> 'c option" where
  "getCertificate r = certPtr r"

definition certPollOnce :: "'c certView \<Rightarrow> 'c reloader \<Rightarrow> 'c reloader" where
  "certPollOnce v r =
     (case certStat v of None \<Rightarrow> r
      | Some cm \<Rightarrow>
        case keyStat v of None \<Rightarrow> r
        | Some km \<Rightarrow>
          if cm = lastCertModTime r \<and> km = lastKeyModTime r then r
          else case reload (loadPair v) r of
                 (Some e, r') \<Rightarrow> r'
               | (None, r') \<Rightarrow> r'\<lparr>lastCertModTime := cm, lastKeyModTime := km\<rparr>)"

text \<open>
  \<^verbatim>\<open>Start\<close> over the polls made until the context is cancelled; \<open>None\<close> is the panic of
  \<^verbatim>\<open>time.NewTicker\<close> on an interval that is not positive.
\<close>

definition reloaderRun :: "duration \<Rightarrow> 'c certView list \<Rightarrow> 'c reloader \<Rightarrow> 'c reloader option" where
  "reloaderRun interval views r = (if interval \<le> 0 then None else Some (fold certPollOnce views r))"

text \<open>
  \<^verbatim>\<open>buildTLSConfig\<close> of \<^verbatim>\<open>cmd/dealer/main.go\<close>: no TLS, an error, or a reloader whose
  \<^verbatim>\<open>GetCertificate\<close> the listener calls.
\<close>

datatype tls_error = TlsPairIncomplete | TlsLoad string

definition buildTLSConfig :: "string \<Rightarrow> string \<Rightarrow> 'c certView \<Rightarrow> tls_error + 'c reloader option" where
  "buildTLSConfig certFile keyFile v =
     (if certFile = [] \<and> keyFile = [] then Inr None
      else if certFile = [] \<or> keyFile = [] then Inl TlsPairIncomplete
      else case newReloader v of Inl e \<Rightarrow> Inl (TlsLoad e) | Inr r \<Rightarrow> Inr (Some r))"

section \<open>ACME\<close>

text \<open>
  The host check is a function value that reads the state of whoever provides it when it is called:
  \<open>'w\<close> is that state.
\<close>

record 'w acmeOptions =
  acmeEmail :: string
  acmeCacheDir :: string
  acmeDirectoryURL :: string
  acmeAllowed :: "('w \<Rightarrow> string \<Rightarrow> bool) option"

record 'w acmeManager =
  mgrEmail :: string
  mgrCacheDir :: string
  mgrDirectoryURL :: "string option"
  mgrHostPolicy :: "'w \<Rightarrow> string \<Rightarrow> bool"

datatype acme_error = AcmeEmailRequired | AcmeHostCheckRequired

definition defaultCacheDir :: string where
  "defaultCacheDir = ''acme-cache''"

definition acmeNew :: "'w acmeOptions \<Rightarrow> acme_error + 'w acmeManager" where
  "acmeNew opts =
     (if acmeEmail opts = [] then Inl AcmeEmailRequired
      else case acmeAllowed opts of None \<Rightarrow> Inl AcmeHostCheckRequired
      | Some allowed \<Rightarrow>
        let cacheDir = (if acmeCacheDir opts = [] then defaultCacheDir else acmeCacheDir opts)
        in Inr \<lparr>mgrEmail = acmeEmail opts, mgrCacheDir = cacheDir,
                mgrDirectoryURL = (if acmeDirectoryURL opts \<noteq> [] then Some (acmeDirectoryURL opts) else None),
                mgrHostPolicy = (\<lambda>w host. allowed w host)\<rparr>)"

section \<open>The reloader keeps the polling contract\<close>

definition certSeen :: "'c certView \<Rightarrow> (instant \<times> instant) option" where
  "certSeen v = (case (certStat v, keyStat v) of (Some a, Some b) \<Rightarrow> Some (a, b) | _ \<Rightarrow> None)"

definition certOffer :: "'c certView \<Rightarrow> 'c option offer" where
  "certOffer v = (case loadPair v of Inl _ \<Rightarrow> Unusable | Inr c \<Rightarrow> Usable (Some c))"

abbreviation certStamp :: "'c reloader \<Rightarrow> instant \<times> instant" where
  "certStamp r \<equiv> (lastCertModTime r, lastKeyModTime r)"

interpretation certs: polled_resource certPollOnce "\<lambda>_. True" "\<lambda>_. True" certStamp certPtr certSeen certOffer
  by unfold_locales
    (auto simp: certPollOnce_def certSeen_def certOffer_def reload_def split: option.splits sum.splits)

lemma newReloader_Inr:
  "newReloader v = Inr r \<Longrightarrow> \<exists>c. loadPair v = Inr c \<and> certPtr r = Some c"
  by (auto simp: newReloader_def reload_def Let_def split: sum.splits option.splits)

section \<open>Properties\<close>

text \<open>
  C30: A TLS listener that started always has a certificate to serve, and it is one that loaded as a
  valid pair: the initial one or one of those the polls found, never a half-written or invalid one.
  The reloader's goroutine panics, and with it the process, exactly when the reload interval is not
  positive.
\<close>

theorem certificate_always_valid:
  assumes "newReloader v = Inr r"
  shows "case reloaderRun interval vs r of
      None \<Rightarrow> interval \<le> 0
    | Some r' \<Rightarrow> 0 < interval \<and> (\<exists>c. getCertificate r' = Some c \<and> (\<exists>u \<in> set (v # vs). loadPair u = Inr c))"
proof -
  obtain c where c: "loadPair v = Inr c" "certPtr r = Some c"
    using newReloader_Inr [OF assms] by auto
  consider "certPtr (fold certPollOnce vs r) = Some c"
    | u where "u \<in> set vs" "certOffer u = Usable (certPtr (fold certPollOnce vs r))"
    using certs.served_was_usable [of vs r] c by auto
  then have "\<exists>c. getCertificate (fold certPollOnce vs r) = Some c \<and> (\<exists>u \<in> set (v # vs). loadPair u = Inr c)"
  proof cases
    case 1
    then show ?thesis using c by (auto simp: getCertificate_def)
  next
    case (2 u)
    then obtain c' where "loadPair u = Inr c'" "certPtr (fold certPollOnce vs r) = Some c'"
      by (auto simp: certOffer_def split: sum.splits)
    then show ?thesis using 2(1) by (auto simp: getCertificate_def)
  qed
  then show ?thesis by (simp add: reloaderRun_def)
qed

text \<open>
  A renewed pair is served at the first poll that sees a new modification time and loads it,
  even after any number of polls that found broken files; those leave the old certificate in place.
\<close>

lemma renewed_certificate_served:
  assumes "\<forall>u \<in> set vs. \<exists>e. loadPair u = Inl e"
    and "certStat v = Some cm" "keyStat v = Some km"
    and "(cm, km) \<noteq> (lastCertModTime r, lastKeyModTime r)" "loadPair v = Inr c"
  shows "getCertificate (fold certPollOnce vs r) = getCertificate r \<and>
    getCertificate (fold certPollOnce (vs @ [v]) r) = Some c"
proof -
  have bad: "\<forall>u \<in> set vs. certOffer u = Unusable"
    using assms(1) by (auto simp: certOffer_def split: sum.splits)
  have seen: "certSeen v = Some (cm, km)" "certOffer v = Usable (Some c)"
    using assms by (simp_all add: certSeen_def certOffer_def)
  show ?thesis
    unfolding getCertificate_def
    using certs.unusable_run [OF TrueI TrueI bad, of r] certs.recovers_after_unusable [OF TrueI TrueI bad seen(1) assms(4) seen(2)]
    by simp
qed

text \<open>
  TLS setup fails when exactly one of the two file names is set, is off when neither is, and
  otherwise yields a reloader that already holds a valid pair, or the error of loading it: the
  listener never falls back to plain text by mistake.
\<close>

lemma tls_setup:
  "(certFile = [] \<and> keyFile = [] \<longleftrightarrow> buildTLSConfig certFile keyFile v = Inr None) \<and>
   ((certFile = []) \<noteq> (keyFile = []) \<longleftrightarrow> buildTLSConfig certFile keyFile v = Inl TlsPairIncomplete) \<and>
   (\<forall>r. buildTLSConfig certFile keyFile v = Inr (Some r) \<longrightarrow> (\<exists>c. loadPair v = Inr c \<and> getCertificate r = Some c))"
proof -
  have "\<exists>c. loadPair v = Inr c \<and> getCertificate r = Some c"
    if "buildTLSConfig certFile keyFile v = Inr (Some r)" for r
    using that newReloader_Inr [of v r] by (auto simp: buildTLSConfig_def getCertificate_def split: if_splits sum.splits)
  then show ?thesis by (auto simp: buildTLSConfig_def split: sum.splits)
qed

section \<open>Witnesses\<close>

definition demo_pair :: "instant \<Rightarrow> nat \<Rightarrow> nat certView" where
  "demo_pair m c = \<lparr>certStat = Some m, keyStat = Some m, loadPair = Inr c\<rparr>"

definition demo_broken :: "nat certView" where
  "demo_broken = \<lparr>certStat = Some 6, keyStat = Some 6, loadPair = Inl ''bad PEM''\<rparr>"

definition demo_reloader :: "nat reloader" where
  "demo_reloader = \<lparr>certPtr = Some 1, lastCertModTime = 5, lastKeyModTime = 5\<rparr>"

theorem certificate_always_valid_witness:
  "newReloader (demo_pair 5 1) = Inr demo_reloader \<and>
   (\<exists>r' c. reloaderRun 30 [demo_broken, demo_pair 7 2] demo_reloader = Some r' \<and> getCertificate r' = Some c \<and>
     (\<exists>u \<in> set [demo_pair 5 1, demo_broken, demo_pair 7 2]. loadPair u = Inr c))"
proof -
  have new: "newReloader (demo_pair 5 1) = Inr demo_reloader"
    by (simp add: newReloader_def reload_def demo_pair_def demo_reloader_def)
  show ?thesis
    using new certificate_always_valid [OF new, of 30 "[demo_broken, demo_pair 7 2]"] by (auto split: option.splits)
qed

end
