(* ===== verification/Dealer_Main.thy ===== *)
theory Dealer_Main
  imports Gateway_Lifecycle Certificates
begin

text \<open>
  The command \<^verbatim>\<open>cmd/dealer\<close>: settings from the environment, the listener's TLS mode, the
  root mux with the info endpoint, the side servers, and how the process stops. The project info is
  package \<^verbatim>\<open>config\<close>. \<^verbatim>\<open>os.LookupEnv\<close> is an argument; a \<^verbatim>\<open>log.Fatalf\<close>
  is an error value.
\<close>

section \<open>Settings\<close>

text \<open>\<^verbatim>\<open>strconv.ParseInt(s, 10, 64)\<close>, and \<^verbatim>\<open>strconv.Atoi\<close> on a 64-bit platform.\<close>

definition parseInt64 :: "string \<Rightarrow> int option" where
  "parseInt64 s =
     (let neg = (s \<noteq> [] \<and> hd s = CHR ''-'');
          digits = (if s \<noteq> [] \<and> (hd s = CHR ''-'' \<or> hd s = CHR ''+'') then tl s else s);
          n = (if neg then - dec_val digits else dec_val digits)
      in if digits = [] \<or> \<not> list_all ascii_digit digits \<or> n < - two63 \<or> two63 \<le> n then None else Some n)"

datatype main_error =
    BadEnv string string
  | MainTLS tls_error
  | MainGateway new_error
  | AcmeWithFiles
  | MainAcme acme_error
  | BadInfoPath string
  | MainPanic

type_synonym environ = "string \<Rightarrow> string option"

definition getenv :: "environ \<Rightarrow> string \<Rightarrow> string" where
  "getenv lookupEnv key = (case lookupEnv key of None \<Rightarrow> [] | Some v \<Rightarrow> v)"

definition envOr :: "environ \<Rightarrow> string \<Rightarrow> string \<Rightarrow> string" where
  "envOr lookupEnv key fallback = (let v = getenv lookupEnv key in if v \<noteq> [] then v else fallback)"

text \<open>The shape the settings share: the default when unset, fatal when it does not parse.\<close>

definition envParsed :: "(string \<Rightarrow> 'v option) \<Rightarrow> environ \<Rightarrow> string \<Rightarrow> 'v \<Rightarrow> main_error + 'v" where
  "envParsed parse lookupEnv key dflt =
     (let raw = getenv lookupEnv key in
      if raw = [] then Inr dflt
      else case parse raw of None \<Rightarrow> Inl (BadEnv key raw) | Some v \<Rightarrow> Inr v)"

definition readOptions :: "environ \<Rightarrow> main_error + options" where
  "readOptions env =
     bindE (envParsed parseDuration env ''DEALER_CONFIG_POLL_INTERVAL'' defaultPollInterval) (\<lambda>pollInterval.
     bindE (envParsed parseDuration env ''DEALER_ORIGIN_TIMEOUT'' defaultOriginTimeout) (\<lambda>timeout.
     bindE (envParsed parseInt64 env ''DEALER_MAX_BODY_BYTES'' defaultMaxRequestBodyBytes) (\<lambda>maxBody.
     bindE (envParsed parseDuration env ''DEALER_UNHEALTHY_COOLDOWN'' defaultUnhealthyCooldown) (\<lambda>cooldown.
     bindE (envParsed parseDuration env ''DEALER_HEALTH_CHECK_INTERVAL'' defaultHealthCheckInterval) (\<lambda>hcInterval.
     bindE (envParsed parseDuration env ''DEALER_HEALTH_CHECK_TIMEOUT'' defaultHealthCheckTimeout) (\<lambda>hcTimeout.
     bindE (envParsed parseInt64 env ''DEALER_RETRY_MAX_ATTEMPTS'' defaultRetryMaxAttempts) (\<lambda>maxAttempts.
     bindE (envParsed parseDuration env ''DEALER_RETRY_BACKOFF_BASE'' defaultRetryBackoffBase) (\<lambda>backoffBase.
     bindE (envParsed parseInt64 env ''DEALER_CIRCUIT_BREAKER_THRESHOLD'' 0) (\<lambda>threshold.
     bindE (envParsed parseDuration env ''DEALER_CIRCUIT_BREAKER_COOLDOWN'' defaultBreakerCooldown) (\<lambda>brCooldown.
     bindE (envParsed parseBool env ''DEALER_TRUST_REQUEST_ID'' False) (\<lambda>trustID.
       Inr \<lparr>optPollInterval = pollInterval, optOriginTimeout = timeout, optMaxRequestBodyBytes = maxBody,
            optUnhealthyCooldown = cooldown, optHealthCheckPath = getenv env ''DEALER_HEALTH_CHECK_PATH'',
            optHealthCheckInterval = hcInterval, optHealthCheckTimeout = hcTimeout, optRetryMaxAttempts = maxAttempts,
            optRetryBackoffBase = backoffBase, optBreakerThreshold = threshold, optBreakerCooldown = brCooldown,
            optTrustRequestID = trustID, optTrustedProxies = getenv env ''DEALER_TRUSTED_PROXIES'',
            optOTLPEndpoint = getenv env ''OTEL_EXPORTER_OTLP_ENDPOINT'', optServiceName = getenv env ''OTEL_SERVICE_NAME''\<rparr>)))))))))))"

section \<open>The info endpoint and the root mux\<close>

record info =
  projectName :: string
  description :: string
  author :: string
  infoVersion :: string

text \<open>\<^verbatim>\<open>Version\<close> is overridden at build time.\<close>

definition defaultVersion :: string where
  "defaultVersion = ''dev''"

definition projectInfo :: "string \<Rightarrow> info" where
  "projectInfo version = \<lparr>projectName = ''Dealer API Gateway'', description = ''A basic API Gateway developed with Go'',
     author = ''Gabriel Barboza'', infoVersion = version\<rparr>"

definition infoBody :: "info \<Rightarrow> string" where
  "infoBody i =
     ''{'' @ jsonString ''project_name'' @ '':'' @ jsonString (projectName i) @ '','' @
     jsonString ''description'' @ '':'' @ jsonString (description i) @ '','' @
     jsonString ''author'' @ '':'' @ jsonString (author i) @ '','' @
     jsonString ''version'' @ '':'' @ jsonString (infoVersion i) @ ''}'' @ [CHR 10]"

definition infoHandler :: "string \<Rightarrow> 'w handler" where
  "infoHandler version w r s =
     Done (writeW (infoBody (projectInfo version)) (mapHeader (hSet ''Content-Type'' ''application/json'') w)) s"

datatype endpoint = InfoEndpoint | GatewayEndpoint

text \<open>\<open>Inr None\<close> is a panic of the mux on a pattern it does not accept.\<close>

definition newRootMux :: "string \<Rightarrow> main_error + endpoint mux option" where
  "newRootMux infoPath =
     (if infoPath \<noteq> [] \<and> \<not> hasPrefix infoPath ''/'' then Inl (BadInfoPath infoPath)
      else
        let withInfo =
          (if infoPath = [] then Some []
           else if infoPath = ''/'' then muxHandle ''GET /{$}'' InfoEndpoint []
           else muxHandle (''GET '' @ infoPath) InfoEndpoint [])
        in Inr (case withInfo of None \<Rightarrow> None | Some m \<Rightarrow> muxHandle ''/'' GatewayEndpoint m))"

fun endpointHandler :: "string \<Rightarrow> 'w handler \<Rightarrow> endpoint \<Rightarrow> 'w handler" where
  "endpointHandler version gwHandler InfoEndpoint = infoHandler version"
| "endpointHandler version gwHandler GatewayEndpoint = gwHandler"

definition rootServe :: "string \<Rightarrow> (string \<Rightarrow> request \<Rightarrow> string) \<Rightarrow> 'w handler \<Rightarrow> endpoint mux \<Rightarrow> 'w handler" where
  "rootServe version urlString gwHandler m = muxServeHTTP urlString (endpointHandler version gwHandler) m"

section \<open>Servers\<close>

datatype 'h serverHandler =
    DefaultServeMux \<comment> \<open>with the handlers the profiler registered\<close>
  | ServeMux "'h mux"
  | HandlerFunc 'h

text \<open>The fields of \<^verbatim>\<open>http.Server\<close> the command sets; a timeout of 0 is none.\<close>

record 'h httpServer =
  hsAddr :: string
  hsHandler :: "'h serverHandler"
  hsReadHeaderTimeout :: duration
  hsReadTimeout :: duration
  hsWriteTimeout :: duration
  hsIdleTimeout :: duration

definition readHeaderTimeout :: duration where "readHeaderTimeout = 5 * second"
definition readTimeout :: duration where "readTimeout = 15 * second"
definition writeTimeout :: duration where "writeTimeout = 15 * second"
definition idleTimeout :: duration where "idleTimeout = 60 * second"

definition sideServer :: "string \<Rightarrow> 'h serverHandler \<Rightarrow> 'h httpServer" where
  "sideServer addr handler = \<lparr>hsAddr = addr, hsHandler = handler, hsReadHeaderTimeout = readHeaderTimeout,
     hsReadTimeout = 0, hsWriteTimeout = 0, hsIdleTimeout = 0\<rparr>"

definition newDebugServer :: "string \<Rightarrow> unit httpServer option" where
  "newDebugServer addr = (if addr = [] then None else Some (sideServer addr DefaultServeMux))"

definition newMetricsServer :: "string \<Rightarrow> 'h \<Rightarrow> 'h httpServer option" where
  "newMetricsServer addr handler =
     (if addr = [] then None
      else map_option (\<lambda>m. sideServer addr (ServeMux m)) (muxHandle ''GET /metrics'' handler []))"

text \<open>The mux accepts the pattern, so the server is there when its address is.\<close>

lemma newMetricsServer_built: "newMetricsServer addr handler = None \<longleftrightarrow> addr = []"
proof -
  have "parsePattern ''GET /metrics'' \<noteq> None" by code_simp
  then show ?thesis by (auto simp: newMetricsServer_def muxHandle_def)
qed

text \<open>
  The server of the listener, around the root mux. Its timeouts are the values the command passes on; what
  \<^verbatim>\<open>net/http\<close> does with them, such as cancelling the context of a request whose connection reaches the
  read deadline, is not modelled.
\<close>

definition mainServer :: "string \<Rightarrow> endpoint mux \<Rightarrow> endpoint httpServer" where
  "mainServer addr m = \<lparr>hsAddr = addr, hsHandler = ServeMux m, hsReadHeaderTimeout = readHeaderTimeout,
     hsReadTimeout = readTimeout, hsWriteTimeout = writeTimeout, hsIdleTimeout = idleTimeout\<rparr>"

section \<open>Starting\<close>

definition defaultListenAddr :: string where "defaultListenAddr = ''0.0.0.0:3000''"
definition defaultACMEListenAddr :: string where "defaultACMEListenAddr = ''0.0.0.0:443''"
definition defaultACMEHTTPAddr :: string where "defaultACMEHTTPAddr = ''0.0.0.0:80''"
definition defaultTLSReloadInterval :: duration where "defaultTLSReloadInterval = 30 * second"

datatype 'c listener = Plaintext | CertFiles "'c reloader" duration | AcmeCerts "gateway acmeManager"

record 'c dealer =
  dlServer :: "endpoint httpServer"
  dlListener :: "'c listener"
  dlAcmeHTTP :: "gateway acmeManager httpServer option" \<comment> \<open>serves the manager's \<^verbatim>\<open>HTTPHandler\<close>\<close>
  dlDebug :: "unit httpServer option"
  dlMetrics :: "unit httpServer option"
  dlGateway :: gateway
  dlWatcher :: watcher

text \<open>
  The ACME setup of \<^verbatim>\<open>main\<close>, for the certificates found so far. The host check is the method value
  \<^verbatim>\<open>gw.HasHost\<close>: it asks the gateway as it is at the time of the question.
\<close>

definition acmeSetup :: "environ \<Rightarrow> 'c reloader option \<Rightarrow> duration
    \<Rightarrow> main_error + 'c listener \<times> gateway acmeManager httpServer option" where
  "acmeSetup env files interval =
     (let email = getenv env ''DEALER_ACME_EMAIL'' in
      if email = [] then Inr (case files of None \<Rightarrow> (Plaintext, None) | Some r \<Rightarrow> (CertFiles r interval, None))
      else if files \<noteq> None then Inl AcmeWithFiles
      else
        bindE (mapErr MainAcme (acmeNew \<lparr>acmeEmail = email, acmeCacheDir = getenv env ''DEALER_ACME_CACHE_DIR'',
                 acmeDirectoryURL = getenv env ''DEALER_ACME_DIRECTORY_URL'', acmeAllowed = Some hasHost\<rparr>))
          (\<lambda>manager. Inr (AcmeCerts manager, Some (sideServer (envOr env ''DEALER_ACME_HTTP_ADDR'' defaultACMEHTTPAddr) (HandlerFunc manager)))))"

definition infoPathOf :: "environ \<Rightarrow> string" where
  "infoPathOf env = (case env ''DEALER_INFO_PATH'' of None \<Rightarrow> ''/'' | Some p \<Rightarrow> p)"

definition listenAddrOf :: "environ \<Rightarrow> string" where
  "listenAddrOf env = envOr env ''DEALER_LISTEN_ADDR''
     (if getenv env ''DEALER_ACME_EMAIL'' \<noteq> [] then defaultACMEListenAddr else defaultListenAddr)"

text \<open>What \<^verbatim>\<open>main\<close> reads and loads before it builds the gateway.\<close>

definition startSettings :: "environ \<Rightarrow> 'c certView \<Rightarrow> main_error + options \<times> 'c reloader option \<times> duration" where
  "startSettings env certs =
     bindE (readOptions env) (\<lambda>opts.
     bindE (mapErr MainTLS (buildTLSConfig (getenv env ''DEALER_TLS_CERT_FILE'') (getenv env ''DEALER_TLS_KEY_FILE'') certs)) (\<lambda>files.
     bindE (envParsed parseDuration env ''DEALER_TLS_RELOAD_INTERVAL'' defaultTLSReloadInterval) (\<lambda>interval.
       Inr (opts, files, interval))))"

text \<open>What it sets up around the gateway.\<close>

definition setupServers :: "environ \<Rightarrow> gateway \<Rightarrow> watcher \<Rightarrow> 'c reloader option \<Rightarrow> duration \<Rightarrow> main_error + 'c dealer" where
  "setupServers env g wt files interval =
     bindE (acmeSetup env files interval) (\<lambda>(listener, acmeHTTP).
     bindE (newRootMux (infoPathOf env)) (\<lambda>root.
       case root of
         None \<Rightarrow> Inl MainPanic
       | Some m \<Rightarrow> Inr \<lparr>dlServer = mainServer (listenAddrOf env) m, dlListener = listener, dlAcmeHTTP = acmeHTTP,
                       dlDebug = newDebugServer (getenv env ''DEALER_DEBUG_ADDR''),
                       dlMetrics = newMetricsServer (getenv env ''DEALER_METRICS_ADDR'') (),
                       dlGateway = g, dlWatcher = wt\<rparr>))"

text \<open>
  \<^verbatim>\<open>main\<close> up to the point where it listens. \<open>newGw\<close> is \<^verbatim>\<open>gateway.New\<close> on the
  configuration file of \<open>DEALER_CONFIG_PATH\<close>.
\<close>

definition dealerStart ::
  "environ \<Rightarrow> 'c certView \<Rightarrow> (string \<Rightarrow> options \<Rightarrow> 's \<Rightarrow> new_result \<times> 's) \<Rightarrow> 's \<Rightarrow> (main_error + 'c dealer) \<times> 's" where
  "dealerStart env certs newGw s =
     (let configPath = envOr env ''DEALER_CONFIG_PATH'' ''config.yml'' in
      case startSettings env certs of
        Inl e \<Rightarrow> (Inl e, s)
      | Inr (opts, files, interval) \<Rightarrow>
          (case newGw configPath opts s of
             (NewErr e, s) \<Rightarrow> (Inl (MainGateway e), s)
           | (NewPanic, s) \<Rightarrow> (Inl MainPanic, s)
           | (NewOk g wt, s) \<Rightarrow> (setupServers env g wt files interval, s)))"

section \<open>Stopping\<close>

definition shutdownTimeout :: duration where "shutdownTimeout = 10 * second"

text \<open>
  \<^verbatim>\<open>http.Server.Shutdown\<close> called at \<open>now\<close>: whether it returned without error, and when. It looks for
  connections that are not idle at intervals that grow to half a second, and \<open>drain\<close> is the time from
  the call to the look that finds none. The first look comes before the deadline is asked for, so a
  server with nothing to wait for always succeeds.
\<close>

definition serverShutdown :: "duration \<Rightarrow> duration \<Rightarrow> duration \<Rightarrow> bool \<times> duration" where
  "serverShutdown deadline drain now =
     (if drain = 0 \<or> now + drain \<le> deadline then (True, now + drain) else (False, max now deadline))"

text \<open>How long each server needs; a side server that was not asked for is not there.\<close>

record drains =
  debugDrain :: "duration option"
  metricsDrain :: "duration option"
  acmeDrain :: "duration option"
  mainDrain :: duration

text \<open>The servers are shut down one after the other under one deadline; only the last result counts.\<close>

definition shutdownServers :: "drains \<Rightarrow> bool" where
  "shutdownServers dr =
     (let shut = (\<lambda>d now. case d of None \<Rightarrow> now | Some t \<Rightarrow> snd (serverShutdown shutdownTimeout t now));
          now = shut (debugDrain dr) 0;
          now = shut (metricsDrain dr) now;
          now = shut (acmeDrain dr) now
      in fst (serverShutdown shutdownTimeout (mainDrain dr) now))"

text \<open>
  Why the final \<^verbatim>\<open>select\<close> of \<^verbatim>\<open>main\<close> ends: the listener stopped, with an error or
  because it was closed, or a signal came. The deferred \<^verbatim>\<open>gw.Close\<close> runs when
  \<^verbatim>\<open>main\<close> returns, and does not run when \<^verbatim>\<open>log.Fatalf\<close> ends the process.
\<close>

datatype stop_cause = ListenerFailed string | ListenerClosed | SignalReceived drains

definition mainExit :: "stop_cause \<Rightarrow> ('a metrics_world_scheme) process \<Rightarrow> int \<times> ('a metrics_world_scheme) process" where
  "mainExit cause st =
     (case cause of
        ListenerFailed e \<Rightarrow> (1, st)
      | ListenerClosed \<Rightarrow> (0, closeGateway st)
      | SignalReceived dr \<Rightarrow> if shutdownServers dr then (0, closeGateway st) else (1, st))"

section \<open>The whole command\<close>

text \<open>
  The profiler's rates, for mutexes and blocking, are only turned on for a debug server; what is
  started beside the gateway's own goroutines.
\<close>

definition profileRates :: "'c dealer \<Rightarrow> int \<times> int" where
  "profileRates d = (if dlDebug d = None then (0, 0) else (1, 1))"

datatype goroutine =
    CertificatePoller duration
  | MainListener bool string \<comment> \<open>over TLS, on the address\<close>
  | DebugListener string
  | AcmeListener string
  | MetricsListener string

definition goroutines :: "'c dealer \<Rightarrow> goroutine list" where
  "goroutines d =
     (case dlListener d of CertFiles r interval \<Rightarrow> [CertificatePoller interval] | _ \<Rightarrow> []) @
     [MainListener (dlListener d \<noteq> Plaintext) (hsAddr (dlServer d))] @
     (case dlDebug d of None \<Rightarrow> [] | Some srv \<Rightarrow> [DebugListener (hsAddr srv)]) @
     (case dlAcmeHTTP d of None \<Rightarrow> [] | Some srv \<Rightarrow> [AcmeListener (hsAddr srv)]) @
     (case dlMetrics d of None \<Rightarrow> [] | Some srv \<Rightarrow> [MetricsListener (hsAddr srv)])"

text \<open>A fatal error exits with 1, a panic with 2.\<close>

definition errorExit :: "main_error \<Rightarrow> int" where
  "errorExit e = (case e of MainPanic \<Rightarrow> 2 | _ \<Rightarrow> 1)"

text \<open>The ticker of \<^verbatim>\<open>Reloader.Start\<close> panics on an interval that is not positive.\<close>

fun panicsAtOnce :: "goroutine \<Rightarrow> bool" where
  "panicsAtOnce (CertificatePoller interval) \<longleftrightarrow> interval \<le> 0"
| "panicsAtOnce g \<longleftrightarrow> False"

text \<open>
  \<^verbatim>\<open>main\<close>: start, serve until the \<^verbatim>\<open>select\<close> ends, stop. \<open>serve\<close> is what the process
  does in between, of which the stop sees the state and the cause.
\<close>

definition dealerMain ::
  "environ \<Rightarrow> 'c certView \<Rightarrow> (string \<Rightarrow> options \<Rightarrow> 's \<Rightarrow> new_result \<times> 's) \<Rightarrow>
   (int \<times> int \<Rightarrow> goroutine list \<Rightarrow> 'c dealer \<Rightarrow> 's \<Rightarrow> stop_cause \<times> 'a metrics_world_scheme process) \<Rightarrow> 's \<Rightarrow> int \<times> ('a metrics_world_scheme) process option" where
  "dealerMain env certs newGw serve s =
     (case dealerStart env certs newGw s of
        (Inl e, s) \<Rightarrow> (errorExit e, None)
      | (Inr d, s) \<Rightarrow>
          if list_ex panicsAtOnce (goroutines d) then (2, None)
          else let (cause, st) = serve (profileRates d) (goroutines d) d s; (code, st) = mainExit cause st in (code, Some st))"

lemma zero_reload_interval_ends_process:
  assumes "dealerStart env certs newGw s = (Inr d, s')" "dlListener d = CertFiles r interval" "interval \<le> 0"
  shows "dealerMain env certs newGw serve s = (2, None)"
  using assms by (simp add: dealerMain_def goroutines_def)

section \<open>Facts about the root mux\<close>

definition infoPattern :: "string \<Rightarrow> pat" where
  "infoPattern t = \<lparr>patMethod = ''GET'', patHost = [], patSegs = map Lit (splitOn CHR ''/'' t)\<rparr>"

definition restPattern :: pat where
  "restPattern = \<lparr>patMethod = [], patHost = [], patSegs = [Multi]\<rparr>"

definition plainInfoPath :: "string \<Rightarrow> bool" where
  "plainInfoPath p \<longleftrightarrow> (\<exists>t. p = CHR ''/'' # t \<and> t \<noteq> [] \<and> last t \<noteq> CHR ''/'' \<and> CHR ''{'' \<notin> set t) \<and> cleanPath p = p"

lemma rootMux_plain:
  assumes "plainInfoPath (CHR ''/'' # t)"
  shows "newRootMux (CHR ''/'' # t) = Inr (Some [(infoPattern t, InfoEndpoint), (restPattern, GatewayEndpoint)])"
proof -
  have t: "t \<noteq> []" "last t \<noteq> CHR ''/''" "CHR ''{'' \<notin> set t" "cleanPath (CHR ''/'' # t) = CHR ''/'' # t"
    using assms by (auto simp: plainInfoPath_def)
  have "\<forall>p \<in> set (splitOn CHR ''/'' t). CHR ''{'' \<notin> set p" using set_splitOn_subset t(3) by blast
  then have segs: "parseSegs [] (splitOn CHR ''/'' t) = Some (map Lit (splitOn CHR ''/'' t))"
    using parseSegs_literal last_splitOn [OF t(1)] t(2) by simp
  have "parsePattern (''GET'' @ '' '' @ CHR ''/'' # t) = parseRest ''GET'' (CHR ''/'' # t)"
    by (rule parsePattern_method) (simp_all add: isBlank_def)
  moreover have "validMethod ''GET''" by code_simp
  ultimately have info: "parsePattern (''GET '' @ CHR ''/'' # t) = Some (infoPattern t)"
    using segs t(4) by (simp add: parseRest_def infoPattern_def)
  have rest: "parsePattern ''/'' = Some restPattern" by code_simp
  obtain x xs where x: "splitOn CHR ''/'' t = x # xs" by (cases "splitOn CHR ''/'' t") auto
  have "\<not> conflictsWith restPattern (infoPattern t)"
    using x by (cases xs) (simp_all add: conflictsWith_def comparePathsAndMethods_def restPattern_def infoPattern_def compareMethods_def
        comparePaths_def endsMulti_def combine_def)
  then show ?thesis
    using info rest t(1) by (simp add: newRootMux_def hasPrefix_def muxHandle_def)
qed

lemma rootMatch:
  fixes t
  defines "m \<equiv> [(infoPattern t, InfoEndpoint), (restPattern, GatewayEndpoint)]"
  assumes "plainInfoPath (CHR ''/'' # t)"
  shows "muxMatch m host method (CHR ''/'' # p) =
    Some (if (method = ''GET'' \<or> method = ''HEAD'') \<and> p = t then (infoPattern t, InfoEndpoint) else (restPattern, GatewayEndpoint))"
proof -
  have t: "t \<noteq> []" "last t \<noteq> CHR ''/''" using assms(2) by (auto simp: plainInfoPath_def)
  let ?segs = "pathSegs (CHR ''/'' # p)"
  have "matchMethodAndPath m host method ?segs = None" if "host \<noteq> []"
    using that by (simp add: matchMethodAndPath_def m_def candidates_def infoPattern_def restPattern_def orElse_def)
  moreover have "matchMethodAndPath m [] method ?segs =
      Some (if (method = ''GET'' \<or> method = ''HEAD'') \<and> p = t then (infoPattern t, InfoEndpoint) else (restPattern, GatewayEndpoint))"
  proof -
    have c: "candidates [] ''GET'' m = [(map Lit (splitOn CHR ''/'' t), infoPattern t, InfoEndpoint)]"
      "candidates [] [] m = [([Multi], restPattern, GatewayEndpoint)]"
      "method \<noteq> ''GET'' \<Longrightarrow> method \<noteq> [] \<Longrightarrow> candidates [] method m = []"
      by (simp_all add: m_def candidates_def infoPattern_def restPattern_def)
    show ?thesis
      using c pathSegs_literal [OF t, of p]
      by (cases "method = []"; cases "method = ''GET''")
        (auto simp: matchMethodAndPath_def orElse_def matchPath_literal matchPath_rest pathSegs_nonempty)
  qed
  ultimately show ?thesis unfolding muxMatch_def Let_def orElse_def by (cases "host = []") simp_all
qed

section \<open>Settings that parse\<close>

definition durationKeys :: "string set" where
  "durationKeys = {''DEALER_CONFIG_POLL_INTERVAL'', ''DEALER_ORIGIN_TIMEOUT'', ''DEALER_UNHEALTHY_COOLDOWN'', ''DEALER_HEALTH_CHECK_INTERVAL'',
     ''DEALER_HEALTH_CHECK_TIMEOUT'', ''DEALER_RETRY_BACKOFF_BASE'', ''DEALER_CIRCUIT_BREAKER_COOLDOWN'', ''DEALER_TLS_RELOAD_INTERVAL''}"

definition intKeys :: "string set" where
  "intKeys = {''DEALER_MAX_BODY_BYTES'', ''DEALER_RETRY_MAX_ATTEMPTS'', ''DEALER_CIRCUIT_BREAKER_THRESHOLD''}"

definition settingOk :: "(string \<Rightarrow> 'v option) \<Rightarrow> environ \<Rightarrow> string \<Rightarrow> bool" where
  "settingOk parse env k \<longleftrightarrow> getenv env k = [] \<or> parse (getenv env k) \<noteq> None"

lemma envParsed_Inr: "envParsed parse env k d = Inr v \<Longrightarrow> settingOk parse env k"
  by (auto simp: envParsed_def settingOk_def Let_def split: if_splits option.splits)

lemma readOptions_settings:
  assumes "readOptions env = Inr opts"
  shows "\<forall>k \<in> durationKeys - {''DEALER_TLS_RELOAD_INTERVAL''}. settingOk parseDuration env k"
    and "\<forall>k \<in> intKeys. settingOk parseInt64 env k" and "settingOk parseBool env ''DEALER_TRUST_REQUEST_ID''"
  using assms unfolding readOptions_def bindE_Inr_iff durationKeys_def intKeys_def
  by (auto dest!: envParsed_Inr)

text \<open>The TLS mode of the listener.\<close>

definition listenerAsAsked :: "environ \<Rightarrow> 'c certView \<Rightarrow> 'c listener \<Rightarrow> bool" where
  "listenerAsAsked env certs l \<longleftrightarrow>
     (let cert = getenv env ''DEALER_TLS_CERT_FILE''; key = getenv env ''DEALER_TLS_KEY_FILE''; email = getenv env ''DEALER_ACME_EMAIL'' in
      case l of
        Plaintext \<Rightarrow> cert = [] \<and> key = [] \<and> email = []
      | CertFiles r interval \<Rightarrow> cert \<noteq> [] \<and> key \<noteq> [] \<and> email = [] \<and> (\<exists>c. loadPair certs = Inr c \<and> getCertificate r = Some c)
      | AcmeCerts m \<Rightarrow> cert = [] \<and> key = [] \<and> email \<noteq> [] \<and>
          (\<forall>g host. mgrHostPolicy m g host \<longleftrightarrow> trimSuffix (toLower host) ''.'' \<in> gwHosts g))"

lemma acmeSetup_listener:
  assumes "buildTLSConfig (getenv env ''DEALER_TLS_CERT_FILE'') (getenv env ''DEALER_TLS_KEY_FILE'') certs = Inr files"
    and "acmeSetup env files interval = Inr (l, x)"
  shows "listenerAsAsked env certs l"
proof (cases "getenv env ''DEALER_ACME_EMAIL'' = []")
  case True
  then show ?thesis
    using assms newReloader_Inr [of certs]
    by (auto simp: listenerAsAsked_def buildTLSConfig_def acmeSetup_def getCertificate_def Let_def split: if_splits option.splits sum.splits)
next
  case False
  then have "files = None" "\<exists>m. l = AcmeCerts m \<and> mgrHostPolicy m = hasHost"
    using assms(2) by (auto simp: acmeSetup_def acmeNew_def Let_def split: if_splits)
  then show ?thesis
    using assms(1) False by (auto simp: listenerAsAsked_def buildTLSConfig_def hasHost_def split: if_splits sum.splits)
qed

lemma startSettings_Inr:
  assumes "startSettings env certs = Inr (opts, files, interval)"
  shows "readOptions env = Inr opts"
    and "buildTLSConfig (getenv env ''DEALER_TLS_CERT_FILE'') (getenv env ''DEALER_TLS_KEY_FILE'') certs = Inr files"
    and "envParsed parseDuration env ''DEALER_TLS_RELOAD_INTERVAL'' defaultTLSReloadInterval = Inr interval"
  using assms by (auto simp: startSettings_def bindE_Inr_iff)

section \<open>The budget of a shutdown\<close>

definition sideDrains :: "drains \<Rightarrow> duration list" where
  "sideDrains dr = List.map_filter (\<lambda>d. d) [debugDrain dr, metricsDrain dr, acmeDrain dr]"

lemma shutdown_time:
  assumes "0 \<le> t" "now \<le> D"
  shows "snd (serverShutdown D t now) = min (now + t) D"
  using assms by (auto simp: serverShutdown_def)

lemma shutdown_budget:
  assumes "\<forall>t \<in> set (sideDrains dr). 0 \<le> t" "0 \<le> mainDrain dr"
  shows "shutdownServers dr \<longleftrightarrow> mainDrain dr = 0 \<or> sum_list (sideDrains dr) + mainDrain dr \<le> shutdownTimeout"
proof -
  have pos: "0 \<le> shutdownTimeout" by (simp add: shutdownTimeout_def second_def)
  show ?thesis
    using assms pos
    by (cases "debugDrain dr"; cases "metricsDrain dr"; cases "acmeDrain dr")
      (auto simp: shutdownServers_def Let_def sideDrains_def map_filter_simps shutdown_time serverShutdown_def [of _ "mainDrain dr"])
qed

section \<open>Properties\<close>

text \<open>
  With an info path that is a plain clean path, exactly the \<open>GET\<close> and \<open>HEAD\<close> requests for that path
  get the project info and every other request goes to the gateway, unless its path is not clean and
  the root mux redirects it.
\<close>

lemma info_path_exact:
  assumes "plainInfoPath infoPath" "reqMethod r \<noteq> ''CONNECT''" "urlPath r = CHR ''/'' # p" "cleanPath (urlPath r) = urlPath r"
  shows "\<exists>m. newRootMux infoPath = Inr (Some m) \<and>
    dispatch m r = ToHandler (if (reqMethod r = ''GET'' \<or> reqMethod r = ''HEAD'') \<and> urlPath r = infoPath then InfoEndpoint else GatewayEndpoint)"
proof -
  obtain t where t: "infoPath = CHR ''/'' # t" "t \<noteq> []" "last t \<noteq> CHR ''/''" using assms(1) by (auto simp: plainInfoPath_def)
  note match = rootMatch [OF assms(1) [unfolded t(1)]]
  let ?m = "[(infoPattern t, InfoEndpoint), (restPattern, GatewayEndpoint)]"
  have "\<not> exactMatch (muxMatch ?m host (reqMethod r) (urlPath r @ ''/'')) (urlPath r @ ''/'')" for host
    using match [of host "reqMethod r" "p @ ''/''"] t(3) assms(3)
    by (auto simp: exactMatch_def restPattern_def endsMulti_def split: if_splits)
  moreover have "newRootMux infoPath = Inr (Some ?m)" using rootMux_plain assms(1) t(1) by simp
  ultimately show ?thesis
    using match [of "stripHostPort (reqHost r)" "reqMethod r" p] assms(2-4) t(1)
    by (intro exI [of _ ?m]) (auto simp: dispatch_def)
qed

text \<open>
  C32: A gateway that started has only readable settings, and its listener is what was asked for: plain
  text only when neither certificate files nor ACME are configured, files that loaded as a valid
  pair, or ACME, never two of them; and whenever ACME asks for a host, the answer is that of the hosts the
  gateway has at that moment, up to case and a trailing dot, whatever was reloaded since the start.
\<close>

theorem started_settings_valid:
  assumes "dealerStart env certs newGw s = (Inr d, s')"
  shows "(\<forall>k \<in> durationKeys. settingOk parseDuration env k) \<and> (\<forall>k \<in> intKeys. settingOk parseInt64 env k) \<and>
    settingOk parseBool env ''DEALER_TRUST_REQUEST_ID'' \<and> listenerAsAsked env certs (dlListener d)"
proof -
  obtain opts files interval g wt s1 where set: "startSettings env certs = Inr (opts, files, interval)"
    and fin: "setupServers env g wt files interval = Inr d"
    using assms unfolding dealerStart_def Let_def by (auto split: sum.splits prod.splits new_result.splits)
  have "listenerAsAsked env certs (dlListener d)"
    using startSettings_Inr(2) [OF set] fin acmeSetup_listener by (auto simp: setupServers_def bindE_Inr_iff split: option.splits)
  then show ?thesis
    using readOptions_settings [OF startSettings_Inr(1) [OF set]] envParsed_Inr [OF startSettings_Inr(3) [OF set]] by blast
qed

text \<open>
  C35: Whether the last log lines survive depends on how the process stops. Provided standard output
  accepts every write, and no buffer has met a write error before, a closed listener, or a signal after
  which all servers together need no more than the ten seconds of the timeout (or the main one nothing at
  all), flushes every current \<open>http_log\<close> buffer. After an error of the listener, or a shutdown that takes
  longer, be it because of a side server, the process exits without closing the gateway and what was
  buffered is lost.
\<close>

theorem stop_flushes_only_in_time:
  assumes "process_inv su st" "\<not> down st" "\<forall>n. writeFails (stdout (world st)) n = None" "\<forall>i. \<not> failed (logBufs (world st) i)"
    and "(p, rt) \<in> set (gwMux (gw st))" "HttpLog i \<in> set (rtPlugins rt)"
    and "\<forall>t \<in> set (sideDrains dr). 0 \<le> t" "0 \<le> mainDrain dr" "cause \<in> {ListenerFailed e, ListenerClosed, SignalReceived dr}"
  shows "if cause = ListenerClosed \<or>
        cause = SignalReceived dr \<and> (mainDrain dr = 0 \<or> sum_list (sideDrains dr) + mainDrain dr \<le> shutdownTimeout)
    then fst (mainExit cause st) = 0 \<and> pending (logBufs (world (snd (mainExit cause st))) i) = []
    else fst (mainExit cause st) = 1 \<and> logBufs (world (snd (mainExit cause st))) i = logBufs (world st) i"
proof -
  have "gateway_inv (suOptions su) (gw st)" using assms(1) by (simp add: process_inv_def)
  then have "HttpLog i \<in> set (gwPlugins (gw st))" using assms(5,6) by (fastforce simp: gateway_inv_def built_ok_def)
  then have "pending (logBufs (flushLoggers (gwPlugins (gw st)) (world st)) i) = []"
    using flushLoggers_empties [OF assms(3,4)] by blast
  then have "pending (logBufs (world (closeGateway st)) i) = []" using close_step [OF assms(1,2)] by simp
  then show ?thesis using shutdown_budget [OF assms(7,8)] assms(9) by (auto simp: mainExit_def)
qed

section \<open>Witnesses\<close>

definition demo_environ :: environ where
  "demo_environ = [''DEALER_ACME_EMAIL'' \<mapsto> ''ops@shop.test'', ''DEALER_RETRY_MAX_ATTEMPTS'' \<mapsto> ''3'']"

definition demo_start :: "(main_error + nat dealer) \<times> unit" where
  "demo_start = dealerStart demo_environ (demo_pair 5 1) (\<lambda>path opts s. (NewOk demo_gateway (newWatcher None), s)) ()"

theorem started_settings_valid_witness:
  "\<exists>d m. demo_start = (Inr d, ()) \<and> dlListener d = AcmeCerts m \<and> mgrHostPolicy m (demo_gateway\<lparr>gwHosts := {''new.test''}\<rparr>) ''New.Test.'' \<and>
    \<not> mgrHostPolicy m (demo_gateway\<lparr>gwHosts := {}\<rparr>) ''New.Test.''"
proof -
  have "\<not> isl (readOptions demo_environ)" "case newRootMux ''/'' of Inr (Some m) \<Rightarrow> True | _ \<Rightarrow> False" by code_simp+
  then obtain opts m where o: "readOptions demo_environ = Inr opts" and m: "newRootMux ''/'' = Inr (Some m)"
    by (auto simp: isl_def split: sum.splits option.splits) (metis sum.exhaust)
  have e: "getenv demo_environ ''DEALER_ACME_EMAIL'' = ''ops@shop.test''" "getenv demo_environ ''DEALER_TLS_CERT_FILE'' = []"
    "getenv demo_environ ''DEALER_TLS_KEY_FILE'' = []" "getenv demo_environ ''DEALER_TLS_RELOAD_INTERVAL'' = []"
    "infoPathOf demo_environ = ''/''"
    by (simp_all add: getenv_def demo_environ_def infoPathOf_def)
  obtain d where d: "demo_start = (Inr d, ())"
    using o m e by (simp add: demo_start_def dealerStart_def startSettings_def setupServers_def buildTLSConfig_def envParsed_def acmeSetup_def acmeNew_def Let_def)
  have n: "trimSuffix (toLower ''New.Test.'') ''.'' = ''new.test''" by code_simp
  show ?thesis
    using started_settings_valid [OF d [unfolded demo_start_def]] d e n by (cases "dlListener d") (auto simp: listenerAsAsked_def)
qed

definition demo_slow :: drains where
  "demo_slow = \<lparr>debugDrain = Some (8 * second), metricsDrain = None, acmeDrain = None, mainDrain = 3 * second\<rparr>"

theorem stop_flushes_only_in_time_witness:
  "pending (logBufs (world (snd (mainExit (SignalReceived demo_slow) demo_stranded))) 0) = ''GET /a''"
proof -
  have "process_inv demo_deps demo_stranded" "\<not> down demo_stranded"
    using demo_inv by (simp_all add: demo_stranded_def demo_process_def process_inv_def sugar_good_def sugar_ok_def)
  moreover have "\<forall>n. writeFails (stdout (world demo_stranded)) n = None" "\<forall>i. \<not> failed (logBufs (world demo_stranded) i)"
    "(demo_pattern, demo_route) \<in> set (gwMux (gw demo_stranded))" "HttpLog 0 \<in> set (rtPlugins demo_route)"
    "pending (logBufs (world demo_stranded) 0) = ''GET /a''"
    by (simp_all add: demo_stranded_def demo_process_def demo_gateway_def demo_gw_world_def demo_metrics_world_def demo_sink_def
        newBufWriter_def demo_route_def)
  moreover have "sideDrains demo_slow = [8 * second]" "mainDrain demo_slow = 3 * second"
    by (simp_all add: demo_slow_def sideDrains_def map_filter_simps)
  ultimately show ?thesis
    using stop_flushes_only_in_time [of demo_deps demo_stranded demo_pattern demo_route 0 demo_slow "SignalReceived demo_slow" "[]"]
    by (simp add: shutdownTimeout_def second_def)
qed

end
