(* ===== verification/Load_Test.thy ===== *)
theory Load_Test
  imports Dealer_Main
begin

text \<open>
  The tools of \<^verbatim>\<open>src/loadtest\<close>: \<^verbatim>\<open>jwtgen\<close> mints a token for \<open>jwt_auth\<close>, and
  \<^verbatim>\<open>stubs\<close> are origins that count connections and requests. HMAC-SHA256 is a parameter.
\<close>

section \<open>Unpadded URL-safe base64\<close>

definition b64char :: "nat \<Rightarrow> char" where
  "b64char n = (if n < 26 then char_of (65 + n) else if n < 52 then char_of (71 + n) else if n < 62 then char_of (n - 4)
                else if n = 62 then CHR ''-'' else CHR ''_'')"

definition byte :: "char \<Rightarrow> nat" where
  "byte c = of_char c"

text \<open>\<^verbatim>\<open>base64.RawURLEncoding.EncodeToString\<close>.\<close>

fun base64 :: "string \<Rightarrow> string" where
  "base64 [] = []"
| "base64 [a] = [b64char (byte a div 4), b64char (byte a mod 4 * 16)]"
| "base64 [a, b] = [b64char (byte a div 4), b64char (byte a mod 4 * 16 + byte b div 16), b64char (byte b mod 16 * 4)]"
| "base64 (a # b # c # s) =
     [b64char (byte a div 4), b64char (byte a mod 4 * 16 + byte b div 16),
      b64char (byte b mod 16 * 4 + byte c div 64), b64char (byte c mod 64)] @ base64 s"

text \<open>The decoder, as a specification.\<close>

definition b64val :: "char \<Rightarrow> nat option" where
  "b64val c =
     (let n = byte c in
      if 65 \<le> n \<and> n \<le> 90 then Some (n - 65) else if 97 \<le> n \<and> n \<le> 122 then Some (n - 71)
      else if 48 \<le> n \<and> n \<le> 57 then Some (n + 4) else if n = 45 then Some 62 else if n = 95 then Some 63 else None)"

fun sextets :: "nat list \<Rightarrow> string option" where
  "sextets [] = Some []"
| "sextets [p] = None"
| "sextets [p, q] = Some [char_of (p * 4 + q div 16)]"
| "sextets [p, q, r] = Some [char_of (p * 4 + q div 16), char_of (q mod 16 * 16 + r div 4)]"
| "sextets (p # q # r # t # ns) =
     map_option (\<lambda>s. [char_of (p * 4 + q div 16), char_of (q mod 16 * 16 + r div 4), char_of (r mod 4 * 64 + t)] @ s) (sextets ns)"

definition unbase64 :: "string \<Rightarrow> string option" where
  "unbase64 s = (if list_all (\<lambda>c. b64val c \<noteq> None) s then sextets (map (the \<circ> b64val) s) else None)"

lemma byte_less: "byte c < 256"
  by (simp add: byte_def of_char_def)

lemma byte_char: "char_of (byte c) = c"
  by (simp add: byte_def)

lemma b64val_char:
  assumes "n < 64"
  shows "b64val (b64char n) = Some n"
proof -
  have b: "byte (char_of k) = k" if "k < 256" for k :: nat using that by (simp add: byte_def)
  consider "n < 26" | "26 \<le> n" "n < 52" | "52 \<le> n" "n < 62" | "n = 62" | "n = 63" using assms by linarith
  then show ?thesis by cases (auto simp: b64char_def b64val_def b byte_def Let_def)
qed

lemma byte_bounds: "byte a div 4 < 64" "byte b div 16 < 16" "byte c div 64 < 4"
  using byte_less [of a] byte_less [of b] byte_less [of c] by simp_all

lemma byte_sextets:
  "byte a div 4 < 64" "byte a mod 4 * 16 < 64" "byte a mod 4 * 16 + byte b div 16 < 64" "byte b mod 16 * 4 < 64"
  "byte b mod 16 * 4 + byte c div 64 < 64" "byte c mod 64 < 64"
proof -
  have m: "byte a mod 4 < 4" "byte b mod 16 < 16" "byte c mod 64 < 64" by simp_all
  show "byte a div 4 < 64" "byte a mod 4 * 16 < 64" "byte a mod 4 * 16 + byte b div 16 < 64" "byte b mod 16 * 4 < 64"
    "byte b mod 16 * 4 + byte c div 64 < 64" "byte c mod 64 < 64"
    using m byte_bounds(1) [of a] byte_bounds(2) [of b] byte_bounds(3) [of c] by linarith+
qed

lemma byte_parts:
  "byte b div 16 div 16 = 0"
  "byte b div 16 mod 16 * 16 + byte b mod 16 = byte b"
  "byte b div 16 mod 16 * 16 + (byte b mod 16 + byte c div 64 div 4) = byte b"
  "byte c div 64 mod 4 * 64 + byte c mod 64 = byte c"
  using byte_less [of b] byte_less [of c] by simp_all

lemma base64_chars: "list_all (\<lambda>c. \<exists>n < 64. c = b64char n) (base64 s)"
proof -
  have ok: "n < 64 \<Longrightarrow> \<exists>m < 64. b64char n = b64char m" for n by blast
  show ?thesis by (induction s rule: base64.induct) (simp_all add: ok byte_sextets)
qed

lemma base64_decodes: "sextets (map (the \<circ> b64val) (base64 s)) = Some s"
  by (induction s rule: base64.induct) (simp_all add: b64val_char byte_sextets byte_parts byte_char)

lemma unbase64_base64: "unbase64 (base64 s) = Some s"
proof -
  have "list_all (\<lambda>c. b64val c \<noteq> None) (base64 s)"
    using base64_chars [of s] b64val_char by (fastforce simp: list_all_iff)
  then show ?thesis by (simp add: unbase64_def base64_decodes)
qed

lemma base64_no_dot: "CHR ''.'' \<notin> set (base64 s)"
proof
  assume "CHR ''.'' \<in> set (base64 s)"
  then obtain n where "n < 64" "CHR ''.'' = b64char n" using base64_chars [of s] by (auto simp: list_all_iff)
  then have "b64val CHR ''.'' = Some n" using b64val_char by metis
  moreover have "b64val CHR ''.'' = None" by code_simp
  ultimately show False by simp
qed

section \<open>Minting a token\<close>

text \<open>\<^verbatim>\<open>Time.Unix\<close>; instants count nanoseconds since year 1.\<close>

definition unixSeconds :: "instant \<Rightarrow> int" where
  "unixSeconds t = t div 1000000000 - 62135596800"

text \<open>A marshalled map lists its keys in order.\<close>

definition jwtHeader :: string where
  "jwtHeader = ''{'' @ jsonString ''alg'' @ '':'' @ jsonString ''HS256'' @ '','' @ jsonString ''typ'' @ '':'' @ jsonString ''JWT'' @ ''}''"

definition jwtClaims :: "string \<Rightarrow> int \<Rightarrow> int \<Rightarrow> string" where
  "jwtClaims sub iat expires =
     ''{'' @ jsonString ''exp'' @ '':'' @ itoa expires @ '','' @ jsonString ''iat'' @ '':'' @ itoa iat @ '','' @
     jsonString ''sub'' @ '':'' @ jsonString sub @ ''}''"

text \<open>\<^verbatim>\<open>b64json\<close>, on the text of the value.\<close>

definition b64json :: "string \<Rightarrow> string" where
  "b64json json = base64 json"

text \<open>\<open>hmac key text\<close> is HMAC-SHA256; marshalling strings and integers never fails.\<close>

definition mint :: "(string \<Rightarrow> string \<Rightarrow> string) \<Rightarrow> string \<Rightarrow> string \<Rightarrow> duration \<Rightarrow> instant \<Rightarrow> string" where
  "mint hmac secret sub ttl now =
     (let signingInput = b64json jwtHeader @ ''.'' @ b64json (jwtClaims sub (unixSeconds now) (unixSeconds (now + ttl)))
      in signingInput @ ''.'' @ base64 (hmac secret signingInput))"

datatype mint_error = SecretNotSet

definition jwtgen :: "(string \<Rightarrow> string \<Rightarrow> string) \<Rightarrow> environ \<Rightarrow> string \<Rightarrow> duration \<Rightarrow> instant \<Rightarrow> mint_error + string" where
  "jwtgen hmac env sub ttl now =
     (let secret = getenv env ''JWT_SECRET'' in
      if secret = [] then Inl SecretNotSet else Inr (mint hmac secret sub ttl now @ [CHR 10]))"

text \<open>
  What is relied on of the JWT library: at time \<open>now\<close> a token of three parts that decode to a
  header, to claims that have not expired, and to their HMAC under the key the key function gives
  for HS256, is valid.
\<close>

definition jwt_accepts :: "(string \<Rightarrow> string \<Rightarrow> string) \<Rightarrow> instant \<Rightarrow> jwt_parser \<Rightarrow> bool" where
  "jwt_accepts hmac now parse \<longleftrightarrow>
     (\<forall>kf key h c g sub iat expires.
        CHR ''.'' \<notin> set h \<and> CHR ''.'' \<notin> set c \<and> CHR ''.'' \<notin> set g \<and>
        unbase64 h = Some jwtHeader \<and> unbase64 c = Some (jwtClaims sub iat expires) \<and> unixSeconds now < expires \<and>
        kf (SigningMethodHMAC ''HS256'') = Inr key \<and> unbase64 g = Some (hmac key (h @ ''.'' @ c)) \<longrightarrow>
        parse (h @ ''.'' @ c @ ''.'' @ g) kf = Inr True)"

lemma mint_nonempty: "mint hmac secret sub ttl now \<noteq> []"
  by (simp add: mint_def b64json_def Let_def)

lemma extractToken_bearer:
  "hGet (reqHeader r) ''Authorization'' = ''Bearer '' @ tok \<Longrightarrow> extractToken r = tok"
  by (simp add: extractToken_def cutPrefix_def hasPrefix_def)

section \<open>Stub origins\<close>

record stub =
  stName :: string
  stAddr :: string
  stLatency :: duration
  stStatus :: int
  stAccepts :: int
  stRequests :: int

definition durationEnvOr :: "environ \<Rightarrow> string \<Rightarrow> duration \<Rightarrow> main_error + duration" where
  "durationEnvOr env key fallback =
     (let v = getenv env key in
      if v = [] then Inr fallback
      else case parseDuration v of None \<Rightarrow> Inl (BadEnv key v) | Some d \<Rightarrow> Inr d)"

definition stubOrigin :: "environ \<Rightarrow> string \<Rightarrow> string \<Rightarrow> string \<Rightarrow> duration \<Rightarrow> int \<Rightarrow> main_error + stub" where
  "stubOrigin env name var addr latency status =
     bindE (durationEnvOr env (var @ ''_LATENCY'') latency) (\<lambda>lat.
       Inr \<lparr>stName = name, stAddr = envOr env (var @ ''_ADDR'') addr, stLatency = lat, stStatus = status,
            stAccepts = 0, stRequests = 0\<rparr>)"

definition stubOrigins :: "environ \<Rightarrow> main_error + stub list" where
  "stubOrigins env =
     bindE (stubOrigin env ''catalog'' ''CATALOG'' ''0.0.0.0:3001'' 15000000 200) (\<lambda>a.
     bindE (stubOrigin env ''payments'' ''PAYMENTS'' ''0.0.0.0:3002'' 40000000 201) (\<lambda>b.
     bindE (stubOrigin env ''orders'' ''ORDERS'' ''0.0.0.0:3003'' 25000000 200) (\<lambda>c. Inr [a, b, c])))"

datatype stub_endpoint = StatsEndpoint | BusinessEndpoint

definition stubMux :: "stub_endpoint mux option" where
  "stubMux = Option.bind (muxHandle ''/__stats'' StatsEndpoint []) (muxHandle ''/'' BusinessEndpoint)"

lemma stubMux_built: "stubMux \<noteq> None"
  by code_simp

definition statsBody :: "stub \<Rightarrow> string" where
  "statsBody o' = ''{'' @ jsonString ''accepts'' @ '':'' @ itoa (stAccepts o') @ '','' @
     jsonString ''requests'' @ '':'' @ itoa (stRequests o') @ ''}'' @ [CHR 10]"

definition businessBody :: "stub \<Rightarrow> request \<Rightarrow> string" where
  "businessBody o' r = ''{'' @ jsonString ''method'' @ '':'' @ jsonString (reqMethod r) @ '','' @
     jsonString ''path'' @ '':'' @ jsonString (urlPath r) @ '','' @ jsonString ''service'' @ '':'' @ jsonString (stName o') @ '','' @
     jsonString ''status'' @ '':'' @ jsonString ''ok'' @ ''}'' @ [CHR 10]"

definition jsonAnswer :: "writer \<Rightarrow> writer" where
  "jsonAnswer w = mapHeader (hSet ''Content-Type'' ''application/json'') w"

text \<open>The two handlers, on a world that is a stub with its environment.\<close>

definition statsHandler :: "(stub \<times> 'a env_scheme) handler" where
  "statsHandler w r s = Done (writeW (statsBody (fst s)) (jsonAnswer w)) s"

definition businessHandler :: "(stub \<times> 'a env_scheme) handler" where
  "businessHandler w r s =
     (case s of (o', s) \<Rightarrow>
        let o' = o'\<lparr>stRequests := i64 (stRequests o' + 1)\<rparr>;
            s = timeSleep (stLatency o') s
        in Done (writeW (businessBody o' r) (writeHeader (stStatus o') (jsonAnswer w))) (o', s))"

definition stubHandler :: "stub_endpoint \<Rightarrow> (stub \<times> 'a env_scheme) handler" where
  "stubHandler e = (case e of StatsEndpoint \<Rightarrow> statsHandler | BusinessEndpoint \<Rightarrow> businessHandler)"

text \<open>\<^verbatim>\<open>Accept\<close> of the counting listener, with whether the listener below accepted.\<close>

definition countingAccept :: "bool \<Rightarrow> stub \<Rightarrow> stub" where
  "countingAccept accepted o' = (if accepted then o'\<lparr>stAccepts := i64 (stAccepts o' + 1)\<rparr> else o')"

text \<open>
  \<^verbatim>\<open>main\<close>: every origin gets a goroutine that listens and serves until either fails, and the
  first to fail ends the program. What listening on an address and serving come to are arguments, as is
  which goroutine fails first.
\<close>

definition stubRun :: "(string \<Rightarrow> string option) \<Rightarrow> (stub \<Rightarrow> stub_endpoint mux \<Rightarrow> string) \<Rightarrow> stub \<Rightarrow> string" where
  "stubRun listen serve o' =
     (case listen (stAddr o') of
        Some err \<Rightarrow> err
      | None \<Rightarrow> (case stubMux of None \<Rightarrow> ''panic'' | Some m \<Rightarrow> serve o' m))"

definition stubsMain :: "environ \<Rightarrow> (string \<Rightarrow> string option) \<Rightarrow> (stub \<Rightarrow> stub_endpoint mux \<Rightarrow> string) \<Rightarrow> nat \<Rightarrow> main_error + string" where
  "stubsMain env listen serve first =
     bindE (stubOrigins env) (\<lambda>os. Inr (stubRun listen serve (os ! (first mod length os))))"

text \<open>Looking at the counters does not change them; every other request is counted once.\<close>

lemma stub_counts:
  "fst (world_of (stubHandler e w r (o', s))) =
     (if e = BusinessEndpoint then o'\<lparr>stRequests := i64 (stRequests o' + 1)\<rparr> else o')"
  by (cases e) (simp_all add: stubHandler_def statsHandler_def businessHandler_def Let_def)

section \<open>Properties\<close>

text \<open>
  The load tests' tokens fit the gateway: a token minted with the secret of a \<open>jwt_auth\<close> plugin is
  let through by it until the token expires.
\<close>

lemma minted_token_accepted:
  assumes "jwt_accepts hmac later jwtParse" "unixSeconds later < unixSeconds (now + ttl)"
    and "hGet (reqHeader r) ''Authorization'' = ''Bearer '' @ mint hmac secret sub ttl now"
  shows "jwtAuthWrap jwtParse secret nxt w r s = nxt w r s"
proof -
  let ?h = "base64 jwtHeader" and ?c = "base64 (jwtClaims sub (unixSeconds now) (unixSeconds (now + ttl)))"
  let ?g = "base64 (hmac secret (?h @ ''.'' @ ?c))"
  have tok: "mint hmac secret sub ttl now = ?h @ ''.'' @ ?c @ ''.'' @ ?g" by (simp add: mint_def b64json_def Let_def)
  have "hmacKey secret (SigningMethodHMAC ''HS256'') = Inr secret" by (simp add: hmacKey_def)
  then have "jwtParse (?h @ ''.'' @ ?c @ ''.'' @ ?g) (hmacKey secret) = Inr True"
    using assms(1,2) base64_no_dot unbase64_base64 unfolding jwt_accepts_def by blast
  then show ?thesis
    using extractToken_bearer [OF assms(3)] mint_nonempty [of hmac secret sub ttl now] tok
    by (simp add: jwtAuthWrap_def Let_def)
qed

section \<open>Witnesses\<close>

definition demo_hmac :: "string \<Rightarrow> string \<Rightarrow> string" where
  "demo_hmac key txt = key @ itoa (int (length txt))"

text \<open>A parser that checks the signature of HS256 tokens.\<close>

definition demo_parser :: jwt_parser where
  "demo_parser tok kf =
     (case (splitOn CHR ''.'' tok, kf (SigningMethodHMAC ''HS256'')) of
        ([h, c, g], Inr key) \<Rightarrow> Inr (unbase64 h = Some jwtHeader \<and> unbase64 g = Some (demo_hmac key (h @ ''.'' @ c)))
      | _ \<Rightarrow> Inl ''token is malformed'')"

lemma demo_parser_accepts: "jwt_accepts demo_hmac now demo_parser"
proof -
  have "splitOn CHR ''.'' (h @ ''.'' @ c @ ''.'' @ g) = [h, c, g]"
    if "CHR ''.'' \<notin> set h" "CHR ''.'' \<notin> set c" "CHR ''.'' \<notin> set g" for h c g
    using that by (simp add: splitOn_append_sep splitOn_word)
  then show ?thesis by (simp add: jwt_accepts_def demo_parser_def)
qed

end
