(* ===== verification/Balancer_Steps.thy ===== *)
theory Balancer_Steps
  imports Load_Balancer
begin

text \<open>
  Concurrent requests of one service. In the code every request runs in a goroutine of its own:
  \<^verbatim>\<open>ServeHTTP\<close> of \<^verbatim>\<open>loadbalancer.go\<close> takes a ticket with one atomic addition, reads
  the clock, and locks one origin's state at a time; the hooks of the reverse proxy read the clock
  before they lock; probers lock each state in turn. A step of \<open>lb_step\<close> is what runs between two such
  points, by one actor, so the theorems hold for every interleaving, also of the probes that a
  cancelled generation still has in flight.
\<close>

section \<open>Requests and their steps\<close>

datatype phase =
    Arrived
  | Ticketed u64 \<comment> \<open>the counter was advanced\<close>
  | Scanning u64 instant nat \<comment> \<open>the clock was read; the loop is at this index\<close>
  | Dialing roundRobinOrigin \<comment> \<open>the origin's handler runs\<close>
  | Failing roundRobinOrigin instant \<comment> \<open>the error handler read the clock and has not yet locked\<close>
  | Recorded roundRobinOrigin \<comment> \<open>an outcome was recorded\<close>
  | Refused \<comment> \<open>answered with a 502 without dialling\<close>
  | Finished

record balancer =
  bNext :: u64
  bClock :: instant
  bOrigins :: "nat \<Rightarrow> originState"
  bPhase :: "nat \<Rightarrow> phase"
  bTickets :: "(nat \<times> u64) list" \<comment> \<open>who took which ticket, oldest first\<close>

datatype actor = Req nat | Prober | Clock

definition enter :: "nat \<Rightarrow> phase \<Rightarrow> balancer \<Rightarrow> balancer" where
  "enter k p b = b\<lparr>bPhase := (bPhase b)(k := p)\<rparr>"

definition update :: "nat \<Rightarrow> (originState \<Rightarrow> originState) \<Rightarrow> balancer \<Rightarrow> balancer" where
  "update i f b = b\<lparr>bOrigins := (bOrigins b)(i := f (bOrigins b i))\<rparr>"

definition availableAt :: "roundRobinProxy \<Rightarrow> instant \<Rightarrow> balancer \<Rightarrow> roundRobinOrigin \<Rightarrow> bool" where
  "availableAt lb now b o' = available now (lbCooldown lb) (boThreshold (lbBreaker lb)) (boCooldown (lbBreaker lb)) (bOrigins b (rrState o'))"

definition trippedAt :: "roundRobinProxy \<Rightarrow> instant \<Rightarrow> balancer \<Rightarrow> roundRobinOrigin \<Rightarrow> bool" where
  "trippedAt lb now b o' = breakerOpen now (boThreshold (lbBreaker lb)) (boCooldown (lbBreaker lb)) (bOrigins b (rrState o'))"

definition takeTicket :: "nat \<Rightarrow> balancer \<Rightarrow> balancer" where
  "takeTicket k b =
     (let start = bNext b + 1
      in enter k (Ticketed start) (b\<lparr>bNext := start, bTickets := bTickets b @ [(k, start)]\<rparr>))"

text \<open>
  A call of a method of \<open>originState\<close>, which holds the mutex of the state from its first to its last
  access, is one step; \<open>Origin_Locks\<close> takes these calls apart and shows that nothing is lost by that.
  A request is at most once answered but may run its error handler more than once, as a refused
  upgrade does after the answer was recorded; a handler that panics records nothing more.
\<close>

inductive lb_step :: "roundRobinProxy \<Rightarrow> actor \<Rightarrow> balancer \<Rightarrow> balancer \<Rightarrow> bool" for lb where
  ticket: "bPhase b k = Arrived \<Longrightarrow> lb_step lb (Req k) b (takeTicket k b)"
| readClock: "bPhase b k = Ticketed start \<Longrightarrow> lb_step lb (Req k) b (enter k (Scanning start (bClock b) 0) b)"
| pick: "bPhase b k = Scanning start now i \<Longrightarrow> i < length (lbOrigins lb) \<Longrightarrow> o' = originAt lb (start + of_nat i) \<Longrightarrow>
    availableAt lb now b o' \<Longrightarrow> lb_step lb (Req k) b (enter k (Dialing o') b)"
| pass: "bPhase b k = Scanning start now i \<Longrightarrow> i < length (lbOrigins lb) \<Longrightarrow> o' = originAt lb (start + of_nat i) \<Longrightarrow>
    \<not> availableAt lb now b o' \<Longrightarrow> lb_step lb (Req k) b (enter k (Scanning start now (Suc i)) b)"
| refuse: "bPhase b k = Scanning start now (length (lbOrigins lb)) \<Longrightarrow> trippedAt lb now b (originAt lb start) \<Longrightarrow>
    lbOrigins lb \<noteq> [] \<Longrightarrow> lb_step lb (Req k) b (enter k Refused b)"
| fallback: "bPhase b k = Scanning start now (length (lbOrigins lb)) \<Longrightarrow> \<not> trippedAt lb now b (originAt lb start) \<Longrightarrow>
    lbOrigins lb \<noteq> [] \<Longrightarrow> lb_step lb (Req k) b (enter k (Dialing (originAt lb start)) b)"
| answered: "bPhase b k = Dialing o' \<Longrightarrow> lb_step lb (Req k) b (enter k (Recorded o') (update (rrState o') recordSuccess b))"
| noticed: "bPhase b k = Dialing o' \<or> bPhase b k = Recorded o' \<Longrightarrow> lb_step lb (Req k) b (enter k (Failing o' (bClock b)) b)"
| failed: "bPhase b k = Failing o' t \<Longrightarrow> lb_step lb (Req k) b (enter k (Recorded o') (update (rrState o') (recordFailure t) b))"
| leave: "bPhase b k = Dialing o' \<or> bPhase b k = Recorded o' \<Longrightarrow> lb_step lb (Req k) b (enter k Finished b)"
| probed: "o' \<in> set (lbOrigins lb) \<Longrightarrow> lb_step lb Prober b (update (rrState o') (setForcedDown d) b)"
| tick: "0 \<le> d \<Longrightarrow> lb_step lb Clock b (b\<lparr>bClock := bClock b + d\<rparr>)"

inductive_cases own_step: "lb_step lb (Req k) b c"
inductive_cases probe_step: "lb_step lb Prober b c"
inductive_cases clock_step: "lb_step lb Clock b c"

text \<open>A run of the actors in \<open>as\<close> whose states all satisfy \<open>P\<close>.\<close>

inductive lb_run :: "(balancer \<Rightarrow> bool) \<Rightarrow> roundRobinProxy \<Rightarrow> actor list \<Rightarrow> balancer \<Rightarrow> balancer \<Rightarrow> bool" for P lb where
  stay: "P b \<Longrightarrow> lb_run P lb [] b b"
| go: "lb_run P lb as b c \<Longrightarrow> lb_step lb a c d \<Longrightarrow> P d \<Longrightarrow> lb_run P lb (as @ [a]) b d"

abbreviation anyState :: "balancer \<Rightarrow> bool" where
  "anyState \<equiv> \<lambda>_. True"

definition fresh_balancer :: "balancer \<Rightarrow> bool" where
  "fresh_balancer b \<longleftrightarrow> 0 < bClock b \<and> bOrigins b = (\<lambda>_. newOriginState) \<and> bPhase b = (\<lambda>_. Arrived) \<and> bTickets b = []"

section \<open>Frames\<close>

lemma enter_simps [simp]:
  "bNext (enter k p b) = bNext b" "bClock (enter k p b) = bClock b" "bOrigins (enter k p b) = bOrigins b"
  "bTickets (enter k p b) = bTickets b" "bPhase (enter k p b) j = (if j = k then p else bPhase b j)"
  by (simp_all add: enter_def)

lemma update_simps [simp]:
  "bNext (update i f b) = bNext b" "bClock (update i f b) = bClock b" "bPhase (update i f b) = bPhase b"
  "bTickets (update i f b) = bTickets b" "bOrigins (update i f b) j = (if j = i then f (bOrigins b i) else bOrigins b j)"
  by (simp_all add: update_def)

lemma takeTicket_simps [simp]:
  "bNext (takeTicket k b) = bNext b + 1" "bClock (takeTicket k b) = bClock b" "bOrigins (takeTicket k b) = bOrigins b"
  "bTickets (takeTicket k b) = bTickets b @ [(k, bNext b + 1)]"
  "bPhase (takeTicket k b) j = (if j = k then Ticketed (bNext b + 1) else bPhase b j)"
  by (simp_all add: takeTicket_def Let_def)

lemma others_wait: "lb_step lb a b c \<Longrightarrow> a \<noteq> Req k \<Longrightarrow> bPhase c k = bPhase b k"
  by (induction rule: lb_step.induct) auto

lemma clock_monotone: "lb_step lb a b c \<Longrightarrow> bClock b \<le> bClock c"
  by (induction rule: lb_step.induct) auto

lemma lb_run_trans: "lb_run P lb bs c d \<Longrightarrow> lb_run P lb as b c \<Longrightarrow> lb_run P lb (as @ bs) b d"
  by (induction rule: lb_run.induct) (auto simp flip: append_assoc intro: lb_run.go)

lemma lb_run_any: "lb_run P lb as b c \<Longrightarrow> lb_run anyState lb as b c"
  by (induction rule: lb_run.induct) (auto intro: lb_run.intros)

lemma lb_run_end: "lb_run P lb as b c \<Longrightarrow> P c"
  by (induction rule: lb_run.induct) auto

section \<open>The invariant of the origin states\<close>

text \<open>What a goroutine holds in its local variables is never ahead of the clock.\<close>

fun phase_ok :: "instant \<Rightarrow> phase \<Rightarrow> bool" where
  "phase_ok now (Scanning start t i) \<longleftrightarrow> 0 < t \<and> t \<le> now"
| "phase_ok now (Failing o' t) \<longleftrightarrow> 0 < t \<and> t \<le> now"
| "phase_ok now p \<longleftrightarrow> True"

lemma phase_ok_mono: "phase_ok now p \<Longrightarrow> now \<le> now' \<Longrightarrow> phase_ok now' p"
  by (cases p) auto

definition reached :: "nat \<Rightarrow> originState \<Rightarrow> bool" where
  "reached n st \<longleftrightarrow> (\<exists>m \<le> n. origin_reach m st)"

lemma reached_Suc: "reached n st \<Longrightarrow> reached (Suc n) st"
  by (auto simp: reached_def intro: le_SucI)

lemma reached_ops:
  assumes "reached n st"
  shows "0 < t \<Longrightarrow> reached (Suc n) (recordFailure t st)" "reached (Suc n) (recordSuccess st)"
    "reached (Suc n) (setForcedDown d st)"
  using assms Suc_le_mono by (auto simp: reached_def intro: origin_reach.intros)

lemma reached_inv:
  assumes "reached n st" "int n \<le> max_i64"
  shows "origin_inv st \<and> consecutiveFailures st \<le> int n"
proof -
  obtain m where "m \<le> n" "origin_reach m st" using assms(1) by (auto simp: reached_def)
  then show ?thesis using origin_reach_count [of m st] assms(2) by auto
qed

definition balancer_inv :: "nat \<Rightarrow> balancer \<Rightarrow> bool" where
  "balancer_inv n b \<longleftrightarrow> 0 < bClock b \<and> (\<forall>k. phase_ok (bClock b) (bPhase b k)) \<and>
     (\<forall>i. reached n (bOrigins b i) \<and> lastFailureAt (bOrigins b i) \<le> bClock b)"

lemma balancer_inv_enter:
  "balancer_inv n b \<Longrightarrow> phase_ok (bClock b) p \<Longrightarrow> balancer_inv (Suc n) (enter k p b)"
  by (simp add: balancer_inv_def reached_Suc)

lemma balancer_inv_update:
  assumes "balancer_inv n b" "\<And>st. reached n st \<Longrightarrow> reached (Suc n) (f st)"
    and "\<And>st. lastFailureAt st \<le> bClock b \<Longrightarrow> lastFailureAt (f st) \<le> bClock b"
  shows "balancer_inv (Suc n) (update i f b)"
  using assms by (simp add: balancer_inv_def reached_Suc)

lemma balancer_inv_step:
  assumes "lb_step lb a b c" "balancer_inv n b"
  shows "balancer_inv (Suc n) c"
  using assms
proof (induction rule: lb_step.induct)
  case (failed b k o' t)
  have t: "0 < t" "t \<le> bClock b" using failed by (auto simp: balancer_inv_def dest: spec [of _ k])
  have "balancer_inv (Suc n) (update (rrState o') (recordFailure t) b)"
    using failed t by (intro balancer_inv_update reached_ops) (auto simp: recordFailure_def)
  then show ?case by (simp add: balancer_inv_def)
next
  case (answered b k o')
  then have "balancer_inv (Suc n) (update (rrState o') recordSuccess b)"
    by (intro balancer_inv_update reached_ops) (auto simp: recordSuccess_def balancer_inv_def)
  then show ?case by (simp add: balancer_inv_def)
next
  case (probed o' b d)
  then show ?case by (intro balancer_inv_update reached_ops) (auto simp: setForcedDown_def)
next
  case (tick d b)
  then show ?case by (auto simp: balancer_inv_def reached_Suc intro: phase_ok_mono add_increasing2)
next
  case (ticket b k)
  then show ?case by (simp add: balancer_inv_def reached_Suc)
next
  case (pass b k start now i o')
  then show ?case by (intro balancer_inv_enter) (auto simp: balancer_inv_def dest: spec [of _ k])
qed (auto simp: balancer_inv_def reached_Suc)

lemma balancer_inv_run: "lb_run P lb as b c \<Longrightarrow> balancer_inv n b \<Longrightarrow> balancer_inv (n + length as) c"
  by (induction rule: lb_run.induct) (auto dest: balancer_inv_step)

lemma balancer_inv_fresh: "fresh_balancer b \<Longrightarrow> balancer_inv 0 b"
  by (auto simp: fresh_balancer_def balancer_inv_def reached_def newOriginState_def intro: origin_reach.fresh [unfolded newOriginState_def])

section \<open>An open breaker\<close>

fun dialled :: "phase \<Rightarrow> roundRobinOrigin option" where
  "dialled (Dialing o') = Some o'"
| "dialled (Failing o' t) = Some o'"
| "dialled (Recorded o') = Some o'"
| "dialled _ = None"

definition dialsTo :: "roundRobinOrigin \<Rightarrow> balancer \<Rightarrow> nat set" where
  "dialsTo o' b = {k. \<exists>p. dialled (bPhase b k) = Some p \<and> rrState p = rrState o'}"

lemma breakerOpen_earlier: "breakerOpen now th bc s \<Longrightarrow> now' \<le> now \<Longrightarrow> breakerOpen now' th bc s"
  using time_sub_mono [of now' now "lastFailureAt s"] by (auto simp: breakerOpen_def Let_def split: if_splits)

text \<open>A request that was not handed to an origin yet only goes to one it found not tripped.\<close>

lemma dial_step:
  assumes "lb_step lb a b c" "balancer_inv n b" "int n \<le> max_i64" "dialled (bPhase b k) = None" "dialled (bPhase c k) = Some o'"
  shows "a = Req k \<and> \<not> trippedAt lb (bClock b) b o' \<and> bOrigins c = bOrigins b \<and> bClock c = bClock b"
proof -
  have a: "a = Req k" using others_wait [OF assms(1)] assms(4,5) by fastforce
  have inv: "origin_inv (bOrigins b (rrState o'))" and ph: "phase_ok (bClock b) (bPhase b k)"
    using assms(2,3) reached_inv by (auto simp: balancer_inv_def)
  from assms(1) show ?thesis
  proof (cases rule: lb_step.cases)
    case (pick j start now i p)
    then have p: "p = o'" "j = k" and now: "now \<le> bClock b" using a assms(5) ph by (auto split: if_splits)
    have "\<not> trippedAt lb now b o'"
      using pick p inv available_iff_breaker [OF inv, of "boThreshold (lbBreaker lb)" now]
      by (auto simp: availableAt_def trippedAt_def breakerOpen_def)
    then show ?thesis using pick a now breakerOpen_earlier by (auto simp: trippedAt_def)
  next
    case (fallback j start now)
    then have p: "originAt lb start = o'" and now: "now \<le> bClock b" using a assms(5) ph by (auto split: if_splits)
    then show ?thesis using fallback a breakerOpen_earlier by (auto simp: trippedAt_def)
  qed (use a assms(4,5) in \<open>auto split: if_splits\<close>)
qed

lemma dialled_stays: "lb_step lb a b c \<Longrightarrow> dialled (bPhase b k) = Some o' \<Longrightarrow> dialled (bPhase c k) \<in> {Some o', None}"
  by (induction rule: lb_step.induct) auto

lemma dialsTo_step:
  assumes "lb_step lb a b c" "balancer_inv n b" "int n \<le> max_i64" "trippedAt lb (bClock c) c o'"
  shows "dialsTo o' c \<subseteq> dialsTo o' b"
proof
  fix k
  assume "k \<in> dialsTo o' c"
  then obtain p where p: "dialled (bPhase c k) = Some p" "rrState p = rrState o'" by (auto simp: dialsTo_def)
  then have t: "trippedAt lb (bClock c) c p" using assms(4) by (simp add: trippedAt_def)
  show "k \<in> dialsTo o' b"
  proof (cases "dialled (bPhase b k)")
    case None
    then show ?thesis using dial_step [OF assms(1-3) None p(1)] t by (simp add: trippedAt_def)
  next
    case (Some q)
    then show ?thesis using dialled_stays [OF assms(1) Some] p by (auto simp: dialsTo_def)
  qed
qed

section \<open>Progress of a request\<close>

fun stepsLeft :: "roundRobinProxy \<Rightarrow> phase \<Rightarrow> nat" where
  "stepsLeft lb Arrived = length (lbOrigins lb) + 3"
| "stepsLeft lb (Ticketed start) = length (lbOrigins lb) + 2"
| "stepsLeft lb (Scanning start now i) = length (lbOrigins lb) + 1 - i"
| "stepsLeft lb _ = 0"

fun in_scan :: "roundRobinProxy \<Rightarrow> phase \<Rightarrow> bool" where
  "in_scan lb (Scanning start now i) \<longleftrightarrow> i \<le> length (lbOrigins lb)"
| "in_scan lb p \<longleftrightarrow> True"

lemma in_scan_step: "lb_step lb a b c \<Longrightarrow> in_scan lb (bPhase b k) \<Longrightarrow> in_scan lb (bPhase c k)"
  by (induction rule: lb_step.induct) auto

section \<open>Tickets\<close>

lemma tickets_step:
  "lb_step lb a b c \<Longrightarrow> (bTickets c = bTickets b \<and> bNext c = bNext b) \<or>
     (\<exists>k. bTickets c = bTickets b @ [(k, bNext b + 1)] \<and> bNext c = bNext b + 1)"
  by (induction rule: lb_step.induct) auto

lemma tickets_run:
  assumes "lb_run P lb as b c"
  shows "\<exists>new. bTickets c = bTickets b @ new \<and> map snd new = map (\<lambda>i. bNext b + of_nat (Suc i)) [0..<length new] \<and>
    bNext c = bNext b + of_nat (length new) \<and> length new \<le> length as"
  using assms
proof (induction rule: lb_run.induct)
  case (go as b c a d)
  then obtain new where new: "bTickets c = bTickets b @ new" "map snd new = map (\<lambda>i. bNext b + of_nat (Suc i)) [0..<length new]"
    "bNext c = bNext b + of_nat (length new)" "length new \<le> length as" by (elim exE conjE) (rule that)
  consider "bTickets d = bTickets c" "bNext d = bNext c"
    | k where "bTickets d = bTickets c @ [(k, bNext c + 1)]" "bNext d = bNext c + 1"
    using tickets_step [OF go.hyps(2)] by blast
  then show ?case
  proof cases
    case 1
    then have "bTickets d = bTickets b @ new" "bNext d = bNext b + of_nat (length new)" "length new \<le> length (as @ [a])"
      using new by simp_all
    then show ?thesis using new(2) by (intro exI [of _ new] conjI)
  next
    case 2
    let ?new = "new @ [(k, bNext c + 1)]"
    have "bNext d = bNext b + of_nat (length ?new)" "bNext c + 1 = bNext b + of_nat (length ?new)"
      using 2(2) new(3) by simp_all
    moreover have "map snd ?new = map (\<lambda>i. bNext b + of_nat (Suc i)) [0..<length ?new]"
      using new(2,3) by simp
    ultimately show ?thesis using 2(1) new(1,4) by (intro exI [of _ ?new]) simp
  qed
qed simp

section \<open>Fairness\<close>

text \<open>No origin has a failure on record and no probe holds one down.\<close>

definition calm :: "roundRobinProxy \<Rightarrow> balancer \<Rightarrow> bool" where
  "calm lb b \<longleftrightarrow> (\<forall>o' \<in> set (lbOrigins lb). lastFailureAt (bOrigins b (rrState o')) = 0 \<and> \<not> forcedDown (bOrigins b (rrState o')))"

fun follows :: "roundRobinProxy \<Rightarrow> u64 \<Rightarrow> phase \<Rightarrow> bool" where
  "follows lb start (Ticketed t) \<longleftrightarrow> t = start"
| "follows lb start (Scanning t now i) \<longleftrightarrow> t = start \<and> i = 0"
| "follows lb start Arrived \<longleftrightarrow> False"
| "follows lb start Refused \<longleftrightarrow> False"
| "follows lb start p \<longleftrightarrow> dialled p \<in> {None, Some (originAt lb start)}"

lemma follows_dialled: "follows lb start p \<Longrightarrow> dialled p \<in> {None, Some (originAt lb start)}"
  by (cases p) auto

lemma calm_available: "calm lb b \<Longrightarrow> o' \<in> set (lbOrigins lb) \<Longrightarrow> availableAt lb now b o'"
  by (auto simp: calm_def availableAt_def available_def is_zero_def)

lemma follows_step:
  assumes "lb_step lb a b c" "calm lb b" "lbOrigins lb \<noteq> []" "length (lbOrigins lb) < 18446744073709551616" "follows lb start (bPhase b k)"
  shows "follows lb start (bPhase c k)"
proof (cases "a = Req k")
  case False
  then show ?thesis using others_wait [OF assms(1)] assms(5) by simp
next
  case True
  have av: "availableAt lb now b (originAt lb t)" for now t
    using calm_available [OF assms(2) originAt_in] assms(3,4) by blast
  from assms(1) [unfolded True] show ?thesis using assms(3,5) av by (cases rule: own_step) auto
qed

lemma follows_run:
  assumes "lb_run (calm lb) lb as b c" "lbOrigins lb \<noteq> []" "length (lbOrigins lb) < 18446744073709551616"
  shows "\<forall>(k, start) \<in> set (drop (length (bTickets b)) (bTickets c)). follows lb start (bPhase c k)"
  using assms(1)
proof (induction rule: lb_run.induct)
  case (go as b c a d)
  note kept = follows_step [OF go.hyps(2) lb_run_end [OF go.hyps(1)] assms(2,3)]
  have len: "length (bTickets b) \<le> length (bTickets c)" using tickets_run [OF go.hyps(1)] by auto
  consider "bTickets d = bTickets c" | k where "bTickets d = bTickets c @ [(k, bNext c + 1)]"
    using tickets_step [OF go.hyps(2)] by blast
  then show ?case
  proof cases
    case 1
    then show ?thesis using go.IH kept by fastforce
  next
    case 2
    have "follows lb (bNext c + 1) (bPhase d k)"
      using go.hyps(2) 2 by (cases rule: lb_step.cases) auto
    then show ?thesis using go.IH kept 2 len by fastforce
  qed
qed simp

lemma rotation_once:
  fixes c n j :: nat
  assumes "j < n"
  obtains i0 where "i0 < n" "(c + i0) mod n = j" "\<And>i. i < n \<Longrightarrow> (c + i) mod n = j \<Longrightarrow> i = i0"
proof -
  have bij: "bij_betw (\<lambda>i. (c + i) mod n) {0..<n} {0..<n}"
    using rotation_set [of n c] assms by (simp add: bij_betw_def eq_card_imp_inj_on)
  have "j \<in> (\<lambda>i. (c + i) mod n) ` {0..<n}" using bij assms by (simp add: bij_betw_def)
  then obtain i0 where i0: "i0 < n" "(c + i0) mod n = j" by auto
  show thesis
  proof (rule that [OF i0])
    fix i assume "i < n" "(c + i) mod n = j"
    then show "i = i0" using inj_onD [OF bij_betw_imp_inj_on [OF bij], of i i0] i0 by simp
  qed
qed

lemma rotation_turn:
  fixes c n j k :: nat
  shows "(c + (n + k)) mod n = j \<longleftrightarrow> (c + k) mod n = j"
  by (metis add.commute add.left_commute mod_add_self1)

lemma rotation_peel:
  fixes c n m j :: nat
  assumes "i0 < n" "(c + i0) mod n = j" "\<And>i. i < n \<Longrightarrow> (c + i) mod n = j \<Longrightarrow> i = i0" "n \<le> m"
  shows "{i. i < m \<and> (c + i) mod n = j} = insert i0 ((+) n ` {i. i < m - n \<and> (c + i) mod n = j})"
proof (intro set_eqI iffI)
  fix i
  assume i: "i \<in> {i. i < m \<and> (c + i) mod n = j}"
  show "i \<in> insert i0 ((+) n ` {i. i < m - n \<and> (c + i) mod n = j})"
  proof (cases "i < n")
    case False
    then obtain k where k: "i = n + k" using le_Suc_ex by (metis not_less)
    then have "k \<in> {i. i < m - n \<and> (c + i) mod n = j}" using i rotation_turn by auto
    then show ?thesis using k by blast
  qed (use i assms(3) in simp)
qed (use assms(1,2,4) rotation_turn in auto)

lemma rotation_count:
  fixes c n m j :: nat
  assumes "j < n"
  shows "card {i. i < m \<and> (c + i) mod n = j} \<in> {m div n, Suc (m div n)}"
proof (induction m rule: less_induct)
  case (less m)
  obtain i0 where i0: "i0 < n" "(c + i0) mod n = j" "\<And>i. i < n \<Longrightarrow> (c + i) mod n = j \<Longrightarrow> i = i0"
    using rotation_once assms by blast
  show ?case
  proof (cases "m < n")
    case True
    then have "{i. i < m \<and> (c + i) mod n = j} \<subseteq> {i0}" using i0(3) by auto
    then have "card {i. i < m \<and> (c + i) mod n = j} \<le> 1" using card_mono [of "{i0}"] by fastforce
    moreover have "x \<in> {m div n, Suc (m div n)}" if "x \<le> 1" for x using that True by auto
    ultimately show ?thesis by blast
  next
    case False
    let ?B = "{i. i < m - n \<and> (c + i) mod n = j}"
    have "{i. i < m \<and> (c + i) mod n = j} = insert i0 ((+) n ` ?B)" using rotation_peel [OF i0] False by simp
    moreover have "card (insert i0 ((+) n ` ?B)) = Suc (card ((+) n ` ?B))" using i0(1) by (intro card_insert_disjoint) auto
    moreover have "card ((+) n ` ?B) = card ?B" by (simp add: card_image)
    ultimately show ?thesis using less.IH [of "m - n"] False assms by (auto simp: le_div_geq)
  qed
qed

lemma ticket_origin:
  assumes "0 < length (lbOrigins lb)" "unat c + Suc i < 18446744073709551616" "length (lbOrigins lb) < 18446744073709551616"
  shows "originAt lb (c + of_nat (Suc i)) = lbOrigins lb ! ((unat c + 1 + i) mod length (lbOrigins lb))"
  using unat_index [of "length (lbOrigins lb)" c "Suc i"] assms by (simp add: originAt_def)

section \<open>A request that runs alone\<close>

lemma lb_run_then: "lb_run anyState lb as b c \<Longrightarrow> lb_step lb a c d \<Longrightarrow> lb_run anyState lb (as @ [a]) b d"
  by (simp add: lb_run.go)

text \<open>From \<open>b\<close> to \<open>c\<close> only request \<open>k\<close> took steps, and time passed.\<close>

definition alone :: "roundRobinProxy \<Rightarrow> nat \<Rightarrow> balancer \<Rightarrow> balancer \<Rightarrow> bool" where
  "alone lb k b c \<longleftrightarrow> (\<exists>as. lb_run anyState lb as b c \<and> set as \<subseteq> {Req k, Clock}) \<and> (\<forall>j. j \<noteq> k \<longrightarrow> bPhase c j = bPhase b j)"

lemma alone_refl [simp]: "alone lb k b b"
  unfolding alone_def by (intro conjI exI [of _ "[]"]) (auto intro: lb_run.stay)

lemma alone_step:
  assumes "alone lb k b c" "lb_step lb a c d" "a = Req k \<or> a = Clock"
  shows "alone lb k b d"
proof -
  obtain as where "lb_run anyState lb as b c" "set as \<subseteq> {Req k, Clock}" using assms(1) by (auto simp: alone_def)
  then have "lb_run anyState lb (as @ [a]) b d" "set (as @ [a]) \<subseteq> {Req k, Clock}"
    using lb_run.go [OF _ assms(2)] assms(3) by auto
  moreover have "bPhase d j = bPhase c j" if "j \<noteq> k" for j using others_wait [OF assms(2)] assms(3) that by auto
  ultimately show ?thesis using assms(1) unfolding alone_def by metis
qed

lemma alone_trans:
  assumes "alone lb k b c" "alone lb k c d"
  shows "alone lb k b d"
proof -
  obtain as bs where "lb_run anyState lb as b c" "lb_run anyState lb bs c d" "set as \<subseteq> {Req k, Clock}" "set bs \<subseteq> {Req k, Clock}"
    using assms by (auto simp: alone_def)
  then have "lb_run anyState lb (as @ bs) b d" "set (as @ bs) \<subseteq> {Req k, Clock}" using lb_run_trans by auto
  then show ?thesis using assms unfolding alone_def by metis
qed

lemma enter_enter [simp]: "enter k p (enter k q b) = enter k p b"
  by (simp add: enter_def)

lemma lone_scan:
  assumes "bPhase b k = Scanning start now i" "i \<le> j" "j \<le> length (lbOrigins lb)"
    and "\<forall>l. i \<le> l \<and> l < j \<longrightarrow> \<not> availableAt lb now b (originAt lb (start + of_nat l))"
  shows "alone lb k b (enter k (Scanning start now j) b)"
  using assms(2-4)
proof (induction j rule: dec_induct)
  case base
  have "enter k (Scanning start now i) b = b" using assms(1) by (simp add: enter_def fun_upd_idem)
  then show ?case by simp
next
  case (step l)
  then have 1: "alone lb k b (enter k (Scanning start now l) b)" by simp
  have 2: "lb_step lb (Req k) (enter k (Scanning start now l) b) (enter k (Scanning start now (Suc l)) (enter k (Scanning start now l) b))"
    using step by (intro lb_step.pass [where i = l]) (auto simp: availableAt_def)
  show ?case using alone_step [OF 1 2] by simp
qed

text \<open>The sequential model's world, as far as the balancer is concerned.\<close>

definition matches :: "roundRobinProxy \<Rightarrow> balancer \<Rightarrow> 'a lb_world_scheme \<Rightarrow> bool" where
  "matches lb b s \<longleftrightarrow> bNext b = counters s (lbCounter lb) \<and> bClock b = clock s \<and> bOrigins b = origins s"

lemma matches_checks:
  "matches lb b s \<Longrightarrow> availableAt lb (clock s) b o' = isAvailable lb s o'"
  "matches lb b s \<Longrightarrow> trippedAt lb (clock s) b o' = isTripped lb s o'"
  by (simp_all add: matches_def availableAt_def trippedAt_def isAvailable_def isTripped_def)

definition after :: "nat \<Rightarrow> origin_event list \<Rightarrow> instant \<Rightarrow> balancer \<Rightarrow> balancer \<Rightarrow> bool" where
  "after i es t b c \<longleftrightarrow> bNext c = bNext b \<and> bClock c = t \<and> bOrigins c = (bOrigins b)(i := origin_run es (bOrigins b i))"

lemma alone_tick:
  assumes "bClock b \<le> t"
  shows "alone lb k b (b\<lparr>bClock := t\<rparr>)"
  using alone_step [OF alone_refl, of lb Clock b "b\<lparr>bClock := bClock b + (t - bClock b)\<rparr>" k] lb_step.tick [of "t - bClock b" lb b] assms by simp

lemma lone_failures:
  assumes "list_all is_failure es" "sorted (bClock b # failTimes es @ [t])" "bPhase b k \<in> {Dialing o', Recorded o'}"
  shows "\<exists>c. alone lb k b c \<and> bPhase c k = Finished \<and> after (rrState o') es t b c"
  using assms
proof (induction es arbitrary: b)
  case Nil
  let ?b = "b\<lparr>bClock := t\<rparr>"
  have 1: "alone lb k b ?b" using Nil.prems(2) by (intro alone_tick) simp
  have "lb_step lb (Req k) ?b (enter k Finished ?b)" using Nil.prems(3) by (intro lb_step.leave [of _ _ o']) auto
  from alone_step [OF 1 this] have "alone lb k b (enter k Finished ?b)" by simp
  then show ?case by (intro exI [of _ "enter k Finished ?b"]) (simp add: after_def origin_run_def)
next
  case (Cons e es)
  then obtain u where e: "e = Failed u" by (cases e) auto
  let ?b = "b\<lparr>bClock := u\<rparr>"
  let ?c = "enter k (Recorded o') (update (rrState o') (recordFailure u) (enter k (Failing o' u) ?b))"
  have 0: "alone lb k b ?b" using Cons.prems(2) e by (intro alone_tick) simp
  have "lb_step lb (Req k) ?b (enter k (Failing o' (bClock ?b)) ?b)" using Cons.prems(3) by (intro lb_step.noticed) auto
  from alone_step [OF 0 this] have "alone lb k b (enter k (Failing o' u) ?b)" by simp
  moreover have "lb_step lb (Req k) (enter k (Failing o' u) ?b) ?c" by (intro lb_step.failed) simp
  ultimately have 1: "alone lb k b ?c" using alone_step by blast
  obtain c where c: "alone lb k ?c c" "bPhase c k = Finished" "after (rrState o') es t ?c c"
    using Cons.IH [of ?c] Cons.prems e by auto
  have "after (rrState o') (e # es) t b c" using c(3) e by (auto simp: after_def origin_run_def fun_eq_iff)
  then show ?case using alone_trans [OF 1 c(1)] c(2) by blast
qed

lemma lone_outcome:
  assumes "outcome es" "sorted (bClock b # failTimes es @ [t])" "bPhase b k = Dialing o'"
  shows "\<exists>c. alone lb k b c \<and> bPhase c k = Finished \<and> after (rrState o') es t b c"
proof (cases "\<exists>fs. es = Answered # fs")
  case True
  then obtain fs where fs: "es = Answered # fs" "list_all is_failure fs" using assms(1) by auto
  let ?c = "enter k (Recorded o') (update (rrState o') recordSuccess b)"
  have 1: "alone lb k b ?c" using alone_step [OF alone_refl lb_step.answered [OF assms(3)]] by simp
  obtain c where c: "alone lb k ?c c" "bPhase c k = Finished" "after (rrState o') fs t ?c c"
    using lone_failures [OF fs(2), of ?c t k o' lb] assms(2) fs(1) by auto
  have "after (rrState o') es t b c" using c(3) fs(1) by (auto simp: after_def origin_run_def fun_eq_iff)
  then show ?thesis using alone_trans [OF 1 c(1)] c(2) by blast
next
  case False
  then have "list_all is_failure es" using assms(1) by (cases es rule: outcome.cases) auto
  then show ?thesis using lone_failures assms(2,3) by blast
qed

lemma lone_serve:
  assumes "matches lb b s" "bPhase b k = Dialing o'"
  shows "\<exists>c. alone lb k b c \<and> bPhase c k = Finished \<and> matches lb c (world_of (serveOrigin lb o' w r s))"
proof -
  obtain es where es: "outcome es" "touches es (rrState o') s (world_of (serveOrigin lb o' w r s))"
    using serveOrigin_touches by blast
  then have "\<exists>c. alone lb k b c \<and> bPhase c k = Finished \<and> after (rrState o') es (clock (world_of (serveOrigin lb o' w r s))) b c"
    using assms by (intro lone_outcome) (simp_all add: touches_def matches_def)
  then show ?thesis using es(2) assms(1) by (auto simp: touches_def matches_def after_def)
qed

lemma matches_enter [simp]: "matches lb (enter k p b) s = matches lb b s"
  by (simp add: matches_def enter_def)

lemma lone_start:
  assumes "matches lb b s" "bPhase b k = Arrived" "advance lb s = (start, s1)"
  obtains b1 where "alone lb k b b1" "bPhase b1 k = Scanning start (clock s1) 0" "matches lb b1 s1"
proof -
  let ?b = "enter k (Scanning start (clock s) 0) (takeTicket k b)"
  have start: "start = bNext b + 1" using advance_keeps [OF assms(3)] assms(1) by (simp add: matches_def)
  have "alone lb k b (takeTicket k b)" using alone_step [OF alone_refl lb_step.ticket [OF assms(2)]] by simp
  moreover have "lb_step lb (Req k) (takeTicket k b) (enter k (Scanning start (bClock (takeTicket k b)) 0) (takeTicket k b))"
    by (rule lb_step.readClock) (simp add: start)
  ultimately have "alone lb k b ?b" using alone_step [of lb k b "takeTicket k b" "Req k" ?b] assms(1) by (simp add: matches_def)
  moreover have "matches lb ?b s1"
    using assms(1,3) start by (auto simp: matches_def advance_def Let_def)
  ultimately show thesis using that [of ?b] advance_keeps [OF assms(3)] by simp
qed

text \<open>The scan of a lone request goes past the origins that are not available, and then makes its choice.\<close>

lemma lone_choice:
  assumes "bPhase b k = Scanning start (clock s) 0" "matches lb b s" "j \<le> length (lbOrigins lb)"
    and "\<forall>l < j. \<not> isAvailable lb s (originAt lb (start + of_nat l))"
    and step: "\<And>c. bPhase c k = Scanning start (clock s) j \<Longrightarrow> matches lb c s \<Longrightarrow> lb_step lb (Req k) c (enter k p c)"
  shows "alone lb k b (enter k p b)"
proof -
  let ?c = "enter k (Scanning start (clock s) j) b"
  have "alone lb k b ?c" using assms(1-4) matches_checks(1) [OF assms(2)] by (intro lone_scan [OF assms(1)]) auto
  from alone_step [OF this step] assms(2) show ?thesis by simp
qed

lemma lone_dial:
  assumes "alone lb k b (enter k (Dialing o') b)" "matches lb b s"
  shows "\<exists>c. alone lb k b c \<and> bPhase c k \<in> {Refused, Finished} \<and> matches lb c (world_of (serveOrigin lb o' w r s))"
proof -
  have "matches lb (enter k (Dialing o') b) s" "bPhase (enter k (Dialing o') b) k = Dialing o'" using assms(2) by simp_all
  from lone_serve [OF this] show ?thesis using alone_trans [OF assms(1)] by blast
qed

section \<open>Properties\<close>

text \<open>
  C18: Whatever requests, answers, failures and probes interleave, every origin's state keeps its
  invariant: the failure counter is never negative, it is zero exactly when no failure is on
  record, and the recorded instant is never ahead of the clock.
\<close>

theorem interleaved_origin_invariant:
  assumes "fresh_balancer b" "lb_run anyState lb as b c" "int (length as) \<le> max_i64"
  shows "origin_inv (bOrigins c i) \<and> consecutiveFailures (bOrigins c i) \<le> int (length as) \<and>
    lastFailureAt (bOrigins c i) \<le> bClock c"
proof -
  have "balancer_inv (length as) c" using balancer_inv_run [OF assms(2) balancer_inv_fresh [OF assms(1)]] by simp
  then show ?thesis using reached_inv assms(3) by (auto simp: balancer_inv_def)
qed

text \<open>
  C2: While an origin's breaker is open no request is handed to it: however the requests of the
  service, their outcomes and the probes interleave, those it works on at the end of such a stretch
  were already handed to it at its start.
\<close>

theorem open_breaker_admits_nobody:
  assumes "fresh_balancer b0" "lb_run anyState lb as0 b0 b"
    and "lb_run (\<lambda>b. trippedAt lb (bClock b) b o') lb as b c" "int (length as0 + length as) \<le> max_i64"
  shows "dialsTo o' c \<subseteq> dialsTo o' b"
proof -
  have inv: "balancer_inv (length as0) b" using balancer_inv_run [OF assms(2) balancer_inv_fresh [OF assms(1)]] by simp
  show ?thesis
    using assms(3,4) inv
  proof (induction rule: lb_run.induct)
    case (go as b c a d)
    have "balancer_inv (length as0 + length as) c" using balancer_inv_run [OF go.hyps(1)] go.prems by simp
    then have "dialsTo o' d \<subseteq> dialsTo o' c" using dialsTo_step [OF go.hyps(2)] go.hyps(3) go.prems by simp
    then show ?case using go by auto
  qed simp
qed

text \<open>
  C12: Round robin is fair under any interleaving: while no origin has a failure on record or is held
  down by a probe, the \<open>i\<close>-th request to arrive goes to the \<open>i\<close>-th origin in turn and is never
  refused, and of any number of requests each origin is given its share, rounded down or up (as
  long as the 64-bit counter does not wrap).
\<close>

theorem interleaved_round_robin:
  assumes "n = length (lbOrigins lb)" "0 < n" "lb_run (calm lb) lb as b c"
    and "unat (bNext b) + length as + n < 18446744073709551616"
  defines "new \<equiv> drop (length (bTickets b)) (bTickets c)"
  shows "(\<forall>i < length new. bPhase c (fst (new ! i)) \<noteq> Refused \<and>
      dialled (bPhase c (fst (new ! i))) \<in> {None, Some (lbOrigins lb ! ((unat (bNext b) + 1 + i) mod n))}) \<and>
    (\<forall>j < n. card {i. i < length new \<and> (unat (bNext b) + 1 + i) mod n = j} \<in> {length new div n, Suc (length new div n)})"
proof (intro conjI allI impI)
  fix i assume i: "i < length new"
  obtain new' where t: "bTickets c = bTickets b @ new'" "map snd new' = map (\<lambda>i. bNext b + of_nat (Suc i)) [0..<length new']"
    "length new' \<le> length as"
    using tickets_run [OF assms(3)] by (elim exE conjE) (rule that)
  then have n: "new' = new" by (simp add: new_def)
  obtain k start where k: "new ! i = (k, start)" by (cases "new ! i")
  have "snd (new ! i) = bNext b + of_nat (Suc i)"
    using arg_cong [OF t(2), of "\<lambda>xs. xs ! i"] i n by simp
  then have start: "start = bNext b + of_nat (Suc i)" using k by simp
  have "(k, start) \<in> set new" using i k nth_mem by metis
  then have f: "follows lb start (bPhase c k)"
    using follows_run [OF assms(3)] assms(1,2,4) by (auto simp: new_def)
  moreover have "originAt lb start = lbOrigins lb ! ((unat (bNext b) + 1 + i) mod n)"
    using ticket_origin [of lb "bNext b" i] start assms(1,2,4) i n t(3) by simp
  ultimately show "dialled (bPhase c (fst (new ! i))) \<in> {None, Some (lbOrigins lb ! ((unat (bNext b) + 1 + i) mod n))}"
    using follows_dialled [OF f] k by simp
  show "bPhase c (fst (new ! i)) \<noteq> Refused" using f k by auto
qed (rule rotation_count)

text \<open>
  C14: The interleaved steps are the sequential handler cut into pieces: whatever \<open>lbServeHTTP\<close> does to the
  counter, the clock and the origins' states when a request has the gateway to itself is a run of that
  request's own steps, to its end.
\<close>

theorem lone_request_is_handler:
  assumes "lbOrigins lb \<noteq> []" "matches lb b s" "bPhase b k = Arrived"
  shows "\<exists>c. alone lb k b c \<and> bPhase c k \<in> {Refused, Finished} \<and> matches lb c (world_of (lbServeHTTP lb w r s))"
proof -
  let ?n = "length (lbOrigins lb)" and ?out = "world_of (lbServeHTTP lb w r s)"
  obtain start s1 where adv: "advance lb s = (start, s1)" by (cases "advance lb s")
  obtain b1 where b1: "alone lb k b b1" "bPhase b1 k = Scanning start (clock s1) 0" "matches lb b1 s1"
    using lone_start [OF assms(2,3) adv] by blast
  note choice = lone_choice [OF b1(2,3)]
  have "\<exists>c. alone lb k b1 c \<and> bPhase c k \<in> {Refused, Finished} \<and> matches lb c ?out"
  proof (cases "find (isAvailable lb s1) (scanOrder lb start)")
    case (Some o')
    then obtain j where j: "j < ?n" "isAvailable lb s1 (originAt lb (start + of_nat j))" "o' = originAt lb (start + of_nat j)"
      "\<forall>l < j. \<not> isAvailable lb s1 (originAt lb (start + of_nat l))"
      by (auto simp: find_Some_iff scanOrder_def)
    then have "alone lb k b1 (enter k (Dialing o') b1)"
      by (intro choice [of j]) (auto simp: matches_checks intro!: lb_step.pick)
    from lone_dial [OF this b1(3), of w r] show ?thesis using Some adv by (simp add: lbServeHTTP_def)
  next
    case None
    then have none: "\<forall>l < ?n. \<not> isAvailable lb s1 (originAt lb (start + of_nat l))" by (auto simp: find_None_iff scanOrder_def)
    show ?thesis
    proof (cases "isTripped lb s1 (originAt lb start)")
      case True
      then have "alone lb k b1 (enter k Refused b1)"
        using none assms(1) by (intro choice [of ?n]) (auto simp: matches_checks intro!: lb_step.refuse)
      then show ?thesis
        using b1(3) None True adv assms(1) by (intro exI [of _ "enter k Refused b1"]) (simp add: lbServeHTTP_def)
    next
      case False
      then have "alone lb k b1 (enter k (Dialing (originAt lb start)) b1)"
        using none assms(1) by (intro choice [of ?n]) (auto simp: matches_checks intro!: lb_step.fallback)
      from lone_dial [OF this b1(3), of w r] show ?thesis using None False adv assms(1) by (simp add: lbServeHTTP_def)
    qed
  qed
  then show ?thesis using alone_trans [OF b1(1)] by blast
qed

text \<open>
  A half-open breaker does not let a single trial through but any number of requests: once the
  cooldown of a service's only origin has elapsed, there is a run in which as many requests as have
  arrived are all handed to it before the first of them has an outcome.
\<close>

lemma half_open_admits_crowd:
  assumes "lbOrigins lb = [o']" "origin_inv (bOrigins b (rrState o'))" "0 < boThreshold (lbBreaker lb)"
    and "boThreshold (lbBreaker lb) \<le> consecutiveFailures (bOrigins b (rrState o'))" "\<not> trippedAt lb (bClock b) b o'"
    and "\<not> forcedDown (bOrigins b (rrState o'))" "\<forall>k < m. bPhase b k = Arrived"
  shows "\<exists>as c. lb_run anyState lb as b c \<and> (\<forall>k < m. bPhase c k = Dialing o') \<and> bOrigins c = bOrigins b \<and> bClock c = bClock b"
proof -
  have "available (bClock b) (lbCooldown lb) (boThreshold (lbBreaker lb)) (boCooldown (lbBreaker lb)) (bOrigins b (rrState o'))"
    using available_iff_breaker [OF assms(2-4)] assms(5,6) by (simp add: trippedAt_def)
  then have av: "availableAt lb (bClock b) c o'" if "bOrigins c = bOrigins b" for c using that by (simp add: availableAt_def)
  have one: "originAt lb t = o'" for t using assms(1) by (simp add: originAt_def)
  have "\<exists>as c. lb_run anyState lb as b c \<and> (\<forall>k < n. bPhase c k = Dialing o') \<and> (\<forall>k \<ge> n. bPhase c k = bPhase b k) \<and>
      bOrigins c = bOrigins b \<and> bClock c = bClock b" if "n \<le> m" for n
    using that
  proof (induction n)
    case 0
    show ?case using lb_run.stay [of anyState b lb] by auto
  next
    case (Suc n)
    then obtain as c where c: "lb_run anyState lb as b c" "\<forall>k < n. bPhase c k = Dialing o'" "\<forall>k \<ge> n. bPhase c k = bPhase b k"
      "bOrigins c = bOrigins b" "bClock c = bClock b" by auto
    let ?c1 = "takeTicket n c" and ?start = "bNext c + 1"
    let ?c2 = "enter n (Scanning ?start (bClock ?c1) 0) ?c1"
    let ?c3 = "enter n (Dialing o') ?c2"
    have "lb_step lb (Req n) c ?c1" using c(3) assms(7) Suc.prems by (intro lb_step.ticket) simp
    from lb_run_then [OF c(1) this] have 1: "lb_run anyState lb (as @ [Req n]) b ?c1" .
    have "lb_step lb (Req n) ?c1 ?c2" by (rule lb_step.readClock) simp
    from lb_run_then [OF 1 this] have 2: "lb_run anyState lb ((as @ [Req n]) @ [Req n]) b ?c2" .
    have "lb_step lb (Req n) ?c2 ?c3"
      using assms(1) one c(4,5) av by (intro lb_step.pick [where i = 0 and start = ?start and now = "bClock b"]) (simp_all del: enter_enter)
    from lb_run_then [OF 2 this] have "lb_run anyState lb (((as @ [Req n]) @ [Req n]) @ [Req n]) b ?c3" .
    moreover have "\<forall>k < Suc n. bPhase ?c3 k = Dialing o'" using c(2) by (simp add: less_Suc_eq)
    moreover have "\<forall>k \<ge> Suc n. bPhase ?c3 k = bPhase b k" using c(3) by auto
    moreover have "bOrigins ?c3 = bOrigins b" "bClock ?c3 = bClock b" using c(4,5) by simp_all
    ultimately show ?case by blast
  qed
  from this [of m] show ?thesis by auto
qed

section \<open>Witnesses\<close>

definition demo_balancer :: balancer where
  "demo_balancer = \<lparr>bNext = 0, bClock = 100, bOrigins = (\<lambda>_. newOriginState), bPhase = (\<lambda>_. Arrived), bTickets = []\<rparr>"

definition demo_origin :: roundRobinOrigin where
  "demo_origin = \<lparr>rrURL = ''a'', rrTarget = demo_target, rrState = 0\<rparr>"

lemma demo_one: "lbOrigins (demo_lb [''a'']) = [demo_origin]"
  by (simp add: demo_lb_def demo_origin_def enumerate_eq_zip)

lemma demo_fresh: "fresh_balancer demo_balancer"
  by (simp add: fresh_balancer_def demo_balancer_def)

text \<open>The first request fails and opens the breaker.\<close>

definition demo_failed :: balancer where
  "demo_failed = enter 0 (Recorded demo_origin) (update 0 (recordFailure 100) (takeTicket 0 demo_balancer))"

lemma demo_failed_run: "\<exists>as. length as = 5 \<and> lb_run anyState (demo_lb [''a'']) as demo_balancer demo_failed"
proof -
  let ?lb = "demo_lb [''a'']"
  let ?b1 = "takeTicket 0 demo_balancer"
  let ?b2 = "enter 0 (Scanning 1 100 0) ?b1" and ?b3 = "enter 0 (Dialing demo_origin) ?b1"
    and ?b4 = "enter 0 (Failing demo_origin 100) ?b1"
  have at: "originAt ?lb t = demo_origin" for t by (simp add: originAt_def demo_one)
  have "lb_step ?lb (Req 0) demo_balancer ?b1" by (rule lb_step.ticket) (simp add: demo_balancer_def)
  from lb_run_then [OF lb_run.stay this] have 1: "lb_run anyState ?lb [Req 0] demo_balancer ?b1" by simp
  have "lb_step ?lb (Req 0) ?b1 ?b2"
    using lb_step.readClock [of ?b1 0 1 ?lb] by (simp add: demo_balancer_def)
  from lb_run_then [OF 1 this] have 2: "lb_run anyState ?lb [Req 0, Req 0] demo_balancer ?b2" by simp
  have "lb_step ?lb (Req 0) ?b2 (enter 0 (Dialing demo_origin) ?b2)"
    by (rule lb_step.pick [where i = 0 and start = 1 and now = 100])
      (simp_all add: demo_one at availableAt_def demo_balancer_def del: enter_enter)
  from lb_run_then [OF 2 this] have 3: "lb_run anyState ?lb [Req 0, Req 0, Req 0] demo_balancer ?b3" by simp
  have "lb_step ?lb (Req 0) ?b3 (enter 0 (Failing demo_origin 100) ?b3)"
    using lb_step.noticed [of ?b3 0 demo_origin ?lb] by (simp add: demo_balancer_def)
  from lb_run_then [OF 3 this] have 4: "lb_run anyState ?lb [Req 0, Req 0, Req 0, Req 0] demo_balancer ?b4" by simp
  have "lb_step ?lb (Req 0) ?b4 (enter 0 (Recorded demo_origin) (update (rrState demo_origin) (recordFailure 100) ?b4))"
    by (rule lb_step.failed) simp
  moreover have "enter 0 (Recorded demo_origin) (update (rrState demo_origin) (recordFailure 100) ?b4) = demo_failed"
    by (simp add: demo_failed_def enter_def update_def demo_origin_def)
  ultimately have "lb_step ?lb (Req 0) ?b4 demo_failed" by simp
  from lb_run_then [OF 4 this] show ?thesis by (intro exI [of _ "[Req 0, Req 0, Req 0, Req 0, Req 0]"]) simp
qed

lemma demo_failed_state: "bOrigins demo_failed 0 = recordFailure 100 newOriginState" "bClock demo_failed = 100"
  by (simp_all add: demo_failed_def demo_balancer_def)

lemma demo_failed_tripped: "trippedAt (demo_lb [''a'']) 100 demo_failed demo_origin"
  by (simp add: trippedAt_def demo_failed_state demo_origin_def demo_lb_def breakerOpen_def recordFailure_def newOriginState_def
      escalatedCooldown_def maxBreakerCooldownShift_def shl64_def i64_def Let_def)

theorem interleaved_origin_invariant_witness: "lastFailureAt (bOrigins demo_failed 0) \<le> 100 \<and> origin_inv (bOrigins demo_failed 0)"
proof -
  obtain as where "length as = 5" "lb_run anyState (demo_lb [''a'']) as demo_balancer demo_failed" using demo_failed_run by blast
  then show ?thesis using interleaved_origin_invariant [OF demo_fresh, of "demo_lb [''a'']" as demo_failed 0] demo_failed_state by simp
qed

theorem open_breaker_admits_nobody_witness: "dialsTo demo_origin (takeTicket 1 demo_failed) \<subseteq> dialsTo demo_origin demo_failed"
proof -
  let ?lb = "demo_lb [''a'']" and ?P = "\<lambda>b. trippedAt (demo_lb [''a'']) (bClock b) b demo_origin"
  obtain as where as: "length as = 5" "lb_run anyState ?lb as demo_balancer demo_failed" using demo_failed_run by blast
  have P: "?P demo_failed" using demo_failed_tripped demo_failed_state by simp
  then have "?P (takeTicket 1 demo_failed)" by (simp add: trippedAt_def)
  moreover have "lb_step ?lb (Req 1) demo_failed (takeTicket 1 demo_failed)"
    by (rule lb_step.ticket) (simp add: demo_failed_def demo_balancer_def)
  ultimately have "lb_run ?P ?lb [Req 1] demo_failed (takeTicket 1 demo_failed)"
    using lb_run.go [OF lb_run.stay [of ?P demo_failed ?lb, OF P]] by fastforce
  then show ?thesis using open_breaker_admits_nobody [OF demo_fresh as(2)] as(1) by simp
qed

theorem interleaved_round_robin_witness:
  "dialled (bPhase (takeTicket 0 demo_balancer) 0) \<in> {None, Some (lbOrigins (demo_lb [''a'', ''b'']) ! 1)}"
proof -
  let ?lb = "demo_lb [''a'', ''b'']"
  have "lb_step ?lb (Req 0) demo_balancer (takeTicket 0 demo_balancer)" by (rule lb_step.ticket) (simp add: demo_balancer_def)
  moreover have "calm ?lb demo_balancer" "calm ?lb (takeTicket 0 demo_balancer)"
    by (simp_all add: calm_def demo_balancer_def newOriginState_def)
  ultimately have "lb_run (calm ?lb) ?lb [Req 0] demo_balancer (takeTicket 0 demo_balancer)"
    using lb_run.go [OF lb_run.stay] by fastforce
  then show ?thesis
    using interleaved_round_robin [of 2 ?lb "[Req 0]" demo_balancer "takeTicket 0 demo_balancer"]
    by (simp add: demo_lb_parts demo_balancer_def)
qed

theorem lone_request_is_handler_witness:
  "\<exists>c. bPhase c 0 \<in> {Refused, Finished} \<and>
    matches (demo_lb [''a'']) c (world_of (lbServeHTTP (demo_lb [''a'']) demo_writer demo_request demo_lb_world))"
proof -
  have "matches (demo_lb [''a'']) demo_balancer demo_lb_world"
    by (simp add: matches_def demo_balancer_def demo_lb_world_def)
  from lone_request_is_handler [OF _ this, of 0 demo_writer demo_request] show ?thesis
    by (auto simp: demo_one demo_balancer_def)
qed

end
