(* ===== verification/Origin_Locks.thy ===== *)
theory Origin_Locks
  imports Balancer_Steps
begin

text \<open>
  The mutexes of \<^verbatim>\<open>origin.go\<close>. In \<open>lb_step\<close> a call of a method of \<open>originState\<close> is one step. Here
  it is what the code runs: \<^verbatim>\<open>mu.Lock()\<close>, which waits while another goroutine holds the mutex, the
  loads and stores of the fields one at a time, and the deferred \<^verbatim>\<open>mu.Unlock()\<close>. Two things follow for
  every interleaving of any number of requests and probers: what these steps do is what the steps of
  \<open>lb_step\<close> do, so its theorems hold of the code with its locks; and a request that waits for a mutex waits
  for a goroutine that is about to release it.
\<close>

section \<open>Methods of an origin's state, instruction by instruction\<close>

datatype call = CallAvailable instant | CallBreakerOpen instant | CallRecordFailure instant | CallRecordSuccess | CallSetForcedDown bool

datatype instr = LockMu | UnlockMu | LoadDown | LoadLast | LoadFailures | StoreLast instant | StoreFailures "int option" | StoreDown bool

text \<open>
  Loads copy a field into the local variables of the call. \<open>StoreFailures None\<close> is the store of
  \<^verbatim>\<open>consecutiveFailures++\<close>, one more than what was loaded. The two checks load every field they may
  need; the code loads fewer when it returns early.
\<close>

fun body :: "call \<Rightarrow> instr list" where
  "body (CallAvailable now) = [LoadDown, LoadLast, LoadFailures]"
| "body (CallBreakerOpen now) = [LoadFailures, LoadLast]"
| "body (CallRecordFailure now) = [StoreLast now, LoadFailures, StoreFailures None]"
| "body CallRecordSuccess = [StoreFailures (Some 0), StoreLast 0]"
| "body (CallSetForcedDown d) = [StoreDown d]"

definition script :: "call \<Rightarrow> instr list" where
  "script call = LockMu # body call @ [UnlockMu]"

fun perform :: "instr \<Rightarrow> originState \<times> originState \<Rightarrow> originState \<times> originState" where
  "perform LoadDown (s, seen) = (s, seen\<lparr>forcedDown := forcedDown s\<rparr>)"
| "perform LoadLast (s, seen) = (s, seen\<lparr>lastFailureAt := lastFailureAt s\<rparr>)"
| "perform LoadFailures (s, seen) = (s, seen\<lparr>consecutiveFailures := consecutiveFailures s\<rparr>)"
| "perform (StoreLast t) (s, seen) = (s\<lparr>lastFailureAt := t\<rparr>, seen)"
| "perform (StoreFailures n) (s, seen) =
     (s\<lparr>consecutiveFailures := (case n of Some m \<Rightarrow> m | None \<Rightarrow> i64 (consecutiveFailures seen + 1))\<rparr>, seen)"
| "perform (StoreDown d) (s, seen) = (s\<lparr>forcedDown := d\<rparr>, seen)"
| "perform LockMu x = x"
| "perform UnlockMu x = x"

section \<open>Goroutines and mutexes\<close>

datatype thread = Request nat | Probing nat | Timer

datatype activation = Running roundRobinOrigin call originState "instr list" \<comment> \<open>local variables and what is left to execute\<close>

record locked =
  lkBalancer :: balancer
  lkOwner :: "nat \<Rightarrow> thread option" \<comment> \<open>who holds the mutex of a state\<close>
  lkCall :: "thread \<Rightarrow> activation option"

text \<open>The call a request makes next in a phase.\<close>

inductive wants :: "roundRobinProxy \<Rightarrow> phase \<Rightarrow> roundRobinOrigin \<Rightarrow> call \<Rightarrow> bool" for lb where
  check: "i < length (lbOrigins lb) \<Longrightarrow> wants lb (Scanning start now i) (originAt lb (start + of_nat i)) (CallAvailable now)"
| last: "lbOrigins lb \<noteq> [] \<Longrightarrow> wants lb (Scanning start now (length (lbOrigins lb))) (originAt lb start) (CallBreakerOpen now)"
| succeeded: "wants lb (Dialing o') o' CallRecordSuccess"
| broke: "wants lb (Failing o' t) o' (CallRecordFailure t)"

text \<open>What the goroutine does when the call returns.\<close>

fun resume :: "roundRobinProxy \<Rightarrow> call \<Rightarrow> originState \<Rightarrow> roundRobinOrigin \<Rightarrow> phase \<Rightarrow> phase" where
  "resume lb (CallAvailable now) seen o' (Scanning start t i) =
     (if available now (lbCooldown lb) (boThreshold (lbBreaker lb)) (boCooldown (lbBreaker lb)) seen
      then Dialing o' else Scanning start now (Suc i))"
| "resume lb (CallBreakerOpen now) seen o' p =
     (if breakerOpen now (boThreshold (lbBreaker lb)) (boCooldown (lbBreaker lb)) seen then Refused else Dialing o')"
| "resume lb CallRecordSuccess seen o' p = Recorded o'"
| "resume lb (CallRecordFailure t) seen o' p = Recorded o'"
| "resume lb _ seen o' p = p"

definition proceed :: "roundRobinProxy \<Rightarrow> thread \<Rightarrow> roundRobinOrigin \<Rightarrow> call \<Rightarrow> originState \<Rightarrow> instr list \<Rightarrow> locked \<Rightarrow> locked" where
  "proceed lb t o' call seen rest c =
     (if rest = [] then
        c\<lparr>lkCall := (lkCall c)(t := None),
          lkBalancer := (case t of Request k \<Rightarrow> enter k (resume lb call seen o' (bPhase (lkBalancer c) k)) (lkBalancer c) | _ \<Rightarrow> lkBalancer c)\<rparr>
      else c\<lparr>lkCall := (lkCall c)(t \<mapsto> Running o' call seen rest)\<rparr>)"

inductive lock_step :: "roundRobinProxy \<Rightarrow> thread \<Rightarrow> locked \<Rightarrow> locked \<Rightarrow> bool" for lb where
  ticket: "lkCall c (Request k) = None \<Longrightarrow> bPhase (lkBalancer c) k = Arrived \<Longrightarrow>
    lock_step lb (Request k) c (c\<lparr>lkBalancer := takeTicket k (lkBalancer c)\<rparr>)"
| readClock: "lkCall c (Request k) = None \<Longrightarrow> bPhase (lkBalancer c) k = Ticketed start \<Longrightarrow>
    lock_step lb (Request k) c (c\<lparr>lkBalancer := enter k (Scanning start (bClock (lkBalancer c)) 0) (lkBalancer c)\<rparr>)"
| noticed: "lkCall c (Request k) = None \<Longrightarrow> bPhase (lkBalancer c) k = Dialing o' \<or> bPhase (lkBalancer c) k = Recorded o' \<Longrightarrow>
    lock_step lb (Request k) c (c\<lparr>lkBalancer := enter k (Failing o' (bClock (lkBalancer c))) (lkBalancer c)\<rparr>)"
| leave: "lkCall c (Request k) = None \<Longrightarrow> bPhase (lkBalancer c) k = Dialing o' \<or> bPhase (lkBalancer c) k = Recorded o' \<Longrightarrow>
    lock_step lb (Request k) c (c\<lparr>lkBalancer := enter k Finished (lkBalancer c)\<rparr>)"
| tick: "0 \<le> d \<Longrightarrow> lock_step lb Timer c (c\<lparr>lkBalancer := (lkBalancer c)\<lparr>bClock := bClock (lkBalancer c) + d\<rparr>\<rparr>)"
| invoke: "lkCall c (Request k) = None \<Longrightarrow> wants lb (bPhase (lkBalancer c) k) o' call \<Longrightarrow>
    lock_step lb (Request k) c (c\<lparr>lkCall := (lkCall c)(Request k \<mapsto> Running o' call newOriginState (script call))\<rparr>)"
| probe: "lkCall c (Probing n) = None \<Longrightarrow> o' \<in> set (lbOrigins lb) \<Longrightarrow>
    lock_step lb (Probing n) c (c\<lparr>lkCall := (lkCall c)(Probing n \<mapsto> Running o' (CallSetForcedDown d) newOriginState (script (CallSetForcedDown d)))\<rparr>)"
| lock: "lkCall c t = Some (Running o' call seen (LockMu # rest)) \<Longrightarrow> lkOwner c (rrState o') = None \<Longrightarrow>
    lock_step lb t c (proceed lb t o' call seen rest (c\<lparr>lkOwner := (lkOwner c)(rrState o' \<mapsto> t)\<rparr>))"
| unlock: "lkCall c t = Some (Running o' call seen (UnlockMu # rest)) \<Longrightarrow> lkOwner c (rrState o') \<noteq> None \<Longrightarrow>
    lock_step lb t c (proceed lb t o' call seen rest (c\<lparr>lkOwner := (lkOwner c)(rrState o' := None)\<rparr>))"
| access: "lkCall c t = Some (Running o' call seen (x # rest)) \<Longrightarrow> x \<noteq> LockMu \<Longrightarrow> x \<noteq> UnlockMu \<Longrightarrow>
    perform x (bOrigins (lkBalancer c) (rrState o'), seen) = (s, seen') \<Longrightarrow>
    lock_step lb t c (proceed lb t o' call seen' rest (c\<lparr>lkBalancer := update (rrState o') (\<lambda>_. s) (lkBalancer c)\<rparr>))"

inductive lock_run :: "roundRobinProxy \<Rightarrow> thread list \<Rightarrow> locked \<Rightarrow> locked \<Rightarrow> bool" for lb where
  stay: "lock_run lb [] c c"
| go: "lock_run lb ts b c \<Longrightarrow> lock_step lb t c d \<Longrightarrow> lock_run lb (ts @ [t]) b d"

lemma lock_run_cons: "lock_run lb ts c d \<Longrightarrow> lock_step lb t b c \<Longrightarrow> lock_run lb (t # ts) b d"
proof (induction rule: lock_run.induct)
  case (stay c)
  then show ?case using lock_run.go [OF lock_run.stay] by fastforce
next
  case (go ts c d u e)
  then show ?case using lock_run.go [of lb "t # ts" b d u e] by simp
qed

definition idle :: "locked \<Rightarrow> bool" where
  "idle c \<longleftrightarrow> lkOwner c = (\<lambda>_. None) \<and> lkCall c = (\<lambda>_. None)"

section \<open>A locked section acts as one step\<close>

lemma perform_body:
  "fold perform (body (CallRecordFailure t)) (s, newOriginState) = (recordFailure t s, newOriginState\<lparr>consecutiveFailures := consecutiveFailures s\<rparr>)"
  "fold perform (body CallRecordSuccess) (s, newOriginState) = (recordSuccess s, newOriginState)"
  "fold perform (body (CallSetForcedDown d)) (s, newOriginState) = (setForcedDown d s, newOriginState)"
  "fold perform (body (CallAvailable now)) (s, newOriginState) = (s, s)"
  "fold perform (body (CallBreakerOpen now)) (s, newOriginState) = (s, s\<lparr>forcedDown := False\<rparr>)"
  by (simp_all add: recordFailure_def recordSuccess_def setForcedDown_def newOriginState_def)

lemma breakerOpen_forced [simp]: "breakerOpen now th bc (s\<lparr>forcedDown := d\<rparr>) = breakerOpen now th bc s"
  by (simp add: breakerOpen_def)

lemma body_inside: "x \<in> set (body call) \<Longrightarrow> x \<noteq> LockMu \<and> x \<noteq> UnlockMu"
  by (cases call) auto

lemma script_rest: "\<lbrakk>body call = dn @ rs; rs @ [UnlockMu] = script call\<rbrakk> \<Longrightarrow> False"
proof -
  assume "body call = dn @ rs" "rs @ [UnlockMu] = script call"
  then have "length (rs @ [UnlockMu]) = length (script call)" "length rs \<le> length (body call)" by simp_all
  then show False by (simp add: script_def)
qed

definition asked :: "roundRobinProxy \<Rightarrow> balancer \<Rightarrow> thread \<Rightarrow> roundRobinOrigin \<Rightarrow> call \<Rightarrow> bool" where
  "asked lb b t o' call = (case t of Request k \<Rightarrow> wants lb (bPhase b k) o' call
     | Probing n \<Rightarrow> o' \<in> set (lbOrigins lb) \<and> (\<exists>d. call = CallSetForcedDown d) | Timer \<Rightarrow> False)"

text \<open>
  How a call stands: it waits for the mutex, or holds it and has executed the part \<open>dn\<close> of its body on
  the state the mutex protects, which was \<open>s0\<close> when it locked.
\<close>

definition midway :: "thread \<Rightarrow> thread option \<Rightarrow> originState \<Rightarrow> originState \<Rightarrow> call \<Rightarrow> originState \<Rightarrow> instr list \<Rightarrow> bool" where
  "midway t owner s0 s call seen rest \<longleftrightarrow>
     (rest = script call \<and> seen = newOriginState \<and> owner \<noteq> Some t) \<or>
     (owner = Some t \<and> (\<exists>dn rs. body call = dn @ rs \<and> rest = rs @ [UnlockMu] \<and> fold perform dn (s0, newOriginState) = (s, seen)))"

definition simulates :: "roundRobinProxy \<Rightarrow> locked \<Rightarrow> balancer \<Rightarrow> bool" where
  "simulates lb c a \<longleftrightarrow>
     bNext a = bNext (lkBalancer c) \<and> bClock a = bClock (lkBalancer c) \<and> bPhase a = bPhase (lkBalancer c) \<and>
     bTickets a = bTickets (lkBalancer c) \<and>
     (\<forall>i. lkOwner c i = None \<longrightarrow> bOrigins a i = bOrigins (lkBalancer c) i) \<and>
     (\<forall>i t. lkOwner c i = Some t \<longrightarrow> (\<exists>o' call seen rest. lkCall c t = Some (Running o' call seen rest) \<and> rrState o' = i)) \<and>
     (\<forall>t o' call seen rest. lkCall c t = Some (Running o' call seen rest) \<longrightarrow> asked lb (lkBalancer c) t o' call \<and>
        midway t (lkOwner c (rrState o')) (bOrigins a (rrState o')) (bOrigins (lkBalancer c) (rrState o')) call seen rest)"


lemma simulatesI:
  assumes "bNext a = bNext (lkBalancer c)" "bClock a = bClock (lkBalancer c)" "bPhase a = bPhase (lkBalancer c)"
    and "bTickets a = bTickets (lkBalancer c)" "\<And>i. lkOwner c i = None \<Longrightarrow> bOrigins a i = bOrigins (lkBalancer c) i"
    and "\<And>i t. lkOwner c i = Some t \<Longrightarrow> \<exists>o' call seen rest. lkCall c t = Some (Running o' call seen rest) \<and> rrState o' = i"
    and "\<And>t o' call seen rest. lkCall c t = Some (Running o' call seen rest) \<Longrightarrow> asked lb (lkBalancer c) t o' call \<and>
        midway t (lkOwner c (rrState o')) (bOrigins a (rrState o')) (bOrigins (lkBalancer c) (rrState o')) call seen rest"
  shows "simulates lb c a"
  using assms unfolding simulates_def by blast

lemma simulates_same:
  assumes "simulates lb c a"
  shows "bNext a = bNext (lkBalancer c)" "bClock a = bClock (lkBalancer c)" "bPhase a = bPhase (lkBalancer c)"
    "bTickets a = bTickets (lkBalancer c)" "\<And>i. lkOwner c i = None \<Longrightarrow> bOrigins a i = bOrigins (lkBalancer c) i"
  using assms unfolding simulates_def by blast+

lemma simulates_call:
  assumes "simulates lb c a" "lkCall c t = Some (Running o' call seen rest)"
  shows "asked lb (lkBalancer c) t o' call"
    "midway t (lkOwner c (rrState o')) (bOrigins a (rrState o')) (bOrigins (lkBalancer c) (rrState o')) call seen rest"
  using assms by (auto simp: simulates_def)

lemma simulates_owner:
  assumes "simulates lb c a" "lkOwner c i = Some t"
  shows "\<exists>o' call seen rest. lkCall c t = Some (Running o' call seen rest) \<and> rrState o' = i"
  using assms unfolding simulates_def by blast

lemma asked_phase: "(\<And>k. t = Request k \<Longrightarrow> bPhase b' k = bPhase b k) \<Longrightarrow> asked lb b' t o' call = asked lb b t o' call"
  by (cases t) (auto simp: asked_def)

lemma simulates_free:
  assumes "simulates lb c a" "lkCall c t = None" "\<And>j. t \<noteq> Request j \<Longrightarrow> bPhase b' j = bPhase (lkBalancer c) j"
    and "bNext a' = bNext b'" "bClock a' = bClock b'" "bPhase a' = bPhase b'" "bTickets a' = bTickets b'"
    and "bOrigins a' = bOrigins a" "bOrigins b' = bOrigins (lkBalancer c)"
  shows "simulates lb (c\<lparr>lkBalancer := b'\<rparr>) a'"
proof -
  have "asked lb b' u o' call" if "lkCall c u = Some (Running o' call seen rest)" for u o' call seen rest
  proof -
    have "u \<noteq> t" using assms(2) that by auto
    then have "asked lb b' u o' call = asked lb (lkBalancer c) u o' call" using assms(3) by (intro asked_phase) metis
    then show ?thesis using simulates_call(1) [OF assms(1) that] by simp
  qed
  then show ?thesis using assms(1,4-9) by (simp add: simulates_def)
qed

lemma simulates_invoke:
  assumes "simulates lb c a" "lkCall c t = None" "asked lb (lkBalancer c) t o' call"
  shows "simulates lb (c\<lparr>lkCall := (lkCall c)(t \<mapsto> Running o' call newOriginState (script call))\<rparr>) a"
proof -
  have "lkOwner c i \<noteq> Some t" for i using simulates_owner [OF assms(1)] assms(2) by fastforce
  then show ?thesis using assms by (auto simp: simulates_def midway_def)
qed


text \<open>A call that does not return yet leaves the abstract balancer alone.\<close>

lemma simulates_lock:
  assumes "simulates lb c a" "lkCall c t = Some (Running o' call seen (LockMu # rest))" "lkOwner c (rrState o') = None"
  shows "simulates lb (c\<lparr>lkOwner := (lkOwner c)(rrState o' \<mapsto> t), lkCall := (lkCall c)(t \<mapsto> Running o' call seen rest)\<rparr>) a"
    "rest \<noteq> []"
proof -
  have m: "rest = body call @ [UnlockMu]" "seen = newOriginState"
    using simulates_call(2) [OF assms(1,2)] assms(3) by (auto simp: midway_def script_def)
  then show "rest \<noteq> []" by simp
  have s: "bOrigins a (rrState o') = bOrigins (lkBalancer c) (rrState o')"
    using assms(1,3) by (simp add: simulates_def)
  have own: "lkOwner c i \<noteq> Some t" for i
  proof
    assume i: "lkOwner c i = Some t"
    then have "rrState o' = i" using simulates_owner [OF assms(1) i] assms(2) by simp
    then show False using i assms(3) by simp
  qed
  let ?d = "c\<lparr>lkOwner := (lkOwner c)(rrState o' \<mapsto> t), lkCall := (lkCall c)(t \<mapsto> Running o' call seen rest)\<rparr>"
  have 1: "\<exists>p call seen rest. lkCall ?d u = Some (Running p call seen rest) \<and> rrState p = i" if "lkOwner ?d i = Some u" for i u
  proof (cases "i = rrState o'")
    case False
    then have i: "lkOwner c i = Some u" using that by simp
    then have "u \<noteq> t" using own by auto
    then show ?thesis using simulates_owner [OF assms(1) i] by simp
  qed (use that in simp)
  have 2: "asked lb (lkBalancer ?d) u p cl \<and>
      midway u (lkOwner ?d (rrState p)) (bOrigins a (rrState p)) (bOrigins (lkBalancer ?d) (rrState p)) cl sn rs"
    if "lkCall ?d u = Some (Running p cl sn rs)" for u p cl sn rs
  proof (cases "u = t")
    case True
    then have "p = o'" "cl = call" "sn = seen" "rs = rest" using that by simp_all
    then show ?thesis using True simulates_call(1) [OF assms(1,2)] m s by (simp add: midway_def)
  next
    case False
    then have u: "lkCall c u = Some (Running p cl sn rs)" using that by simp
    show ?thesis using simulates_call [OF assms(1) u] False assms(3) by (auto simp: midway_def)
  qed
  show "simulates lb ?d a"
  proof (rule simulatesI [OF _ _ _ _ _ 1 2])
    show "bOrigins a i = bOrigins (lkBalancer ?d) i" if "lkOwner ?d i = None" for i
      using that simulates_same(5) [OF assms(1), of i] by (simp split: if_splits)
  qed (use simulates_same [OF assms(1)] in simp_all)
qed

lemma simulates_access:
  assumes "simulates lb c a" "lkCall c t = Some (Running o' call seen (x # rest))" "x \<noteq> LockMu" "x \<noteq> UnlockMu"
    and "perform x (bOrigins (lkBalancer c) (rrState o'), seen) = (s, seen')"
  shows "simulates lb (c\<lparr>lkBalancer := update (rrState o') (\<lambda>_. s) (lkBalancer c), lkCall := (lkCall c)(t \<mapsto> Running o' call seen' rest)\<rparr>) a"
    "rest \<noteq> []"
proof -
  obtain dn rs where m: "lkOwner c (rrState o') = Some t" "body call = dn @ rs" "x # rest = rs @ [UnlockMu]"
    "fold perform dn (bOrigins a (rrState o'), newOriginState) = (bOrigins (lkBalancer c) (rrState o'), seen)"
    using simulates_call(2) [OF assms(1,2)] assms(3) by (auto simp: midway_def script_def)
  then obtain rs' where rs: "rs = x # rs'" "rest = rs' @ [UnlockMu]" using assms(4) by (cases rs) auto
  then show "rest \<noteq> []" by simp
  let ?d = "c\<lparr>lkBalancer := update (rrState o') (\<lambda>_. s) (lkBalancer c), lkCall := (lkCall c)(t \<mapsto> Running o' call seen' rest)\<rparr>"
  have asks: "asked lb (lkBalancer ?d) u p cl = asked lb (lkBalancer c) u p cl" for u p cl by (rule asked_phase) simp
  have 1: "\<exists>p call seen rest. lkCall ?d u = Some (Running p call seen rest) \<and> rrState p = i" if "lkOwner ?d i = Some u" for i u
    using simulates_owner [OF assms(1)] that assms(2) by (cases "u = t") fastforce+
  have 2: "asked lb (lkBalancer ?d) u p cl \<and>
      midway u (lkOwner ?d (rrState p)) (bOrigins a (rrState p)) (bOrigins (lkBalancer ?d) (rrState p)) cl sn rt"
    if "lkCall ?d u = Some (Running p cl sn rt)" for u p cl sn rt
  proof (cases "u = t")
    case True
    then have u: "p = o'" "cl = call" "sn = seen'" "rt = rest" using that by simp_all
    have "fold perform (dn @ [x]) (bOrigins a (rrState o'), newOriginState) = (s, seen')" using m(4) assms(5) by simp
    moreover have "body call = (dn @ [x]) @ rs'" using m(2) rs(1) by simp
    ultimately have "midway t (lkOwner c (rrState o')) (bOrigins a (rrState o')) s call seen' rest"
      unfolding midway_def using m(1) rs(2) by blast
    then show ?thesis unfolding asks using u True simulates_call(1) [OF assms(1,2)] by simp
  next
    case False
    then have u: "lkCall c u = Some (Running p cl sn rt)" using that by simp
    show ?thesis unfolding asks using simulates_call [OF assms(1) u] False m(1) by (auto simp: midway_def)
  qed
  show "simulates lb ?d a"
  proof (rule simulatesI [OF _ _ _ _ _ 1 2])
    show "bOrigins a i = bOrigins (lkBalancer ?d) i" if "lkOwner ?d i = None" for i
      using that simulates_same(5) [OF assms(1), of i] m(1) by auto
  qed (use simulates_same [OF assms(1)] in simp_all)
qed


section \<open>The simulation\<close>

fun actorOf :: "thread \<Rightarrow> actor" where
  "actorOf (Request k) = Req k"
| "actorOf (Probing n) = Prober"
| "actorOf Timer = Clock"

lemma simulates_owner_fresh:
  assumes "simulates lb c a" "lkCall c t = Some (Running o' call seen (UnlockMu # rest))"
  shows "rest = []" "lkOwner c (rrState o') = Some t" 
    "fold perform (body call) (bOrigins a (rrState o'), newOriginState) = (bOrigins (lkBalancer c) (rrState o'), seen)"
proof -
  obtain dn rs where m: "lkOwner c (rrState o') = Some t" "body call = dn @ rs" "UnlockMu # rest = rs @ [UnlockMu]"
    "fold perform dn (bOrigins a (rrState o'), newOriginState) = (bOrigins (lkBalancer c) (rrState o'), seen)"
    using simulates_call(2) [OF assms] by (auto simp: midway_def script_def)
  have "rs = []"
  proof (cases rs)
    case (Cons y ys)
    then have "UnlockMu \<in> set (body call)" using m(2,3) by simp
    then show ?thesis using body_inside by blast
  qed
  then show "rest = []" "lkOwner c (rrState o') = Some t"
    "fold perform (body call) (bOrigins a (rrState o'), newOriginState) = (bOrigins (lkBalancer c) (rrState o'), seen)"
    using m by simp_all
qed

text \<open>The step of \<open>lb_step\<close> that a returning call amounts to.\<close>

definition returned :: "roundRobinProxy \<Rightarrow> thread \<Rightarrow> roundRobinOrigin \<Rightarrow> call \<Rightarrow> originState \<Rightarrow> originState \<Rightarrow> balancer \<Rightarrow> balancer" where
  "returned lb t o' call seen s a =
     (let b = update (rrState o') (\<lambda>_. s) a in case t of Request k \<Rightarrow> enter k (resume lb call seen o' (bPhase a k)) b | _ \<Rightarrow> b)"

lemma update_same [simp]: "update i (\<lambda>_. bOrigins a i) a = a"
  by (simp add: update_def)

lemma update_const: "update i (\<lambda>_. f (bOrigins a i)) a = update i f a"
  by (simp add: update_def)

lemma returned_step:
  assumes "asked lb a t o' call" "fold perform (body call) (bOrigins a (rrState o'), newOriginState) = (s, seen)"
  shows "lb_step lb (actorOf t) a (returned lb t o' call seen s a)"
proof (cases t)
  case (Probing n)
  then obtain d where d: "call = CallSetForcedDown d" "o' \<in> set (lbOrigins lb)" using assms(1) by (auto simp: asked_def)
  then have "s = setForcedDown d (bOrigins a (rrState o'))" using assms(2) by (simp add: perform_body del: body.simps)
  then show ?thesis using Probing d lb_step.probed [OF d(2)] by (simp add: returned_def update_const)
next
  case (Request k)
  then have "wants lb (bPhase a k) o' call" using assms(1) by (simp add: asked_def)
  then show ?thesis
  proof (cases rule: wants.cases)
    case (check i start now)
    then have e: "s = bOrigins a (rrState o')" "seen = bOrigins a (rrState o')"
      using assms(2) by (auto simp: perform_body simp del: body.simps)
    show ?thesis using e Request check lb_step.pick [OF check(1,4)] lb_step.pass [OF check(1,4)]
      by (simp add: returned_def availableAt_def)
  next
    case (last start now)
    then have e: "s = bOrigins a (rrState o')" "seen = bOrigins a (rrState o')\<lparr>forcedDown := False\<rparr>"
      using assms(2) by (auto simp: perform_body simp del: body.simps)
    show ?thesis using e Request last lb_step.refuse [OF last(1)] lb_step.fallback [OF last(1)]
      by (simp add: returned_def trippedAt_def)
  next
    case succeeded
    then have e: "s = recordSuccess (bOrigins a (rrState o'))" using assms(2) by (auto simp: perform_body simp del: body.simps)
    show ?thesis using e Request succeeded lb_step.answered [OF succeeded(1)] by (simp add: returned_def update_const)
  next
    case (broke t')
    then have e: "s = recordFailure t' (bOrigins a (rrState o'))" using assms(2) by (auto simp: perform_body simp del: body.simps)
    show ?thesis using e Request broke lb_step.failed [OF broke(1)] by (simp add: returned_def update_const)
  qed
qed (use assms(1) in \<open>simp add: asked_def\<close>)


lemma simulates_unlock:
  assumes "simulates lb c a" "lkCall c t = Some (Running o' call seen (UnlockMu # rest))"
  defines "d \<equiv> proceed lb t o' call seen rest (c\<lparr>lkOwner := (lkOwner c)(rrState o' := None)\<rparr>)"
  shows "\<exists>a'. lb_step lb (actorOf t) a a' \<and> simulates lb d a'"
proof -
  note u = simulates_owner_fresh [OF assms(1,2)]
  note asks = simulates_call(1) [OF assms(1,2)]
  note same = simulates_same [OF assms(1)]
  let ?s = "bOrigins (lkBalancer c) (rrState o')"
  let ?a = "returned lb t o' call seen ?s a"
  have d: "lkOwner d = (lkOwner c)(rrState o' := None)" "lkCall d = (lkCall c)(t := None)"
    "bOrigins (lkBalancer d) = bOrigins (lkBalancer c)" "\<And>j. t \<noteq> Request j \<Longrightarrow> bPhase (lkBalancer d) j = bPhase (lkBalancer c) j"
    using u(1) by (auto simp: d_def proceed_def split: thread.splits)
  have a: "bOrigins ?a j = (if j = rrState o' then ?s else bOrigins a j)" for j
    by (simp add: returned_def Let_def split: thread.splits)
  have "asked lb a t o' call" using asks same(3) asked_phase [of t a "lkBalancer c"] by simp
  then have step: "lb_step lb (actorOf t) a ?a" using u(3) by (rule returned_step)
  have "simulates lb d ?a"
  proof (rule simulatesI)
    show "bPhase ?a = bPhase (lkBalancer d)"
      using u(1) same(3) by (auto simp: returned_def Let_def d_def proceed_def fun_eq_iff split: thread.splits)
    show "bOrigins ?a i = bOrigins (lkBalancer d) i" if "lkOwner d i = None" for i
      using that same(5) [of i] d a by (simp split: if_splits)
    show "\<exists>p cl sn rs. lkCall d v = Some (Running p cl sn rs) \<and> rrState p = i" if "lkOwner d i = Some v" for i v
    proof -
      have i: "lkOwner c i = Some v" "i \<noteq> rrState o'" using that d(1) by (auto split: if_splits)
      then have "v \<noteq> t" using simulates_owner [OF assms(1) i(1)] assms(2) by auto
      then show ?thesis using simulates_owner [OF assms(1) i(1)] d(2) by simp
    qed
    show "asked lb (lkBalancer d) v p cl \<and>
        midway v (lkOwner d (rrState p)) (bOrigins ?a (rrState p)) (bOrigins (lkBalancer d) (rrState p)) cl sn rs"
      if "lkCall d v = Some (Running p cl sn rs)" for v p cl sn rs
    proof -
      have v: "lkCall c v = Some (Running p cl sn rs)" "v \<noteq> t" using that d(2) by (auto split: if_splits)
      have "asked lb (lkBalancer d) v p cl = asked lb (lkBalancer c) v p cl" using d(4) v(2) by (intro asked_phase) metis
      then show ?thesis using simulates_call [OF assms(1) v(1)] v(2) u(2) d(1,3) a by (auto simp: midway_def)
    qed
  qed (use same u(1) in \<open>simp_all add: returned_def Let_def d_def proceed_def split: thread.splits\<close>)
  then show ?thesis using step by blast
qed

lemma lock_step_simulated:
  assumes "lock_step lb t c d" "simulates lb c a"
  shows "\<exists>a'. (a' = a \<or> lb_step lb (actorOf t) a a') \<and> simulates lb d a'"
proof -
  note same = simulates_same [OF assms(2)]
  note free = simulates_free [OF assms(2)]
  from assms(1) show ?thesis
  proof (cases rule: lock_step.cases)
    case (ticket k)
    have "simulates lb d (takeTicket k a)" unfolding ticket by (rule free) (use ticket same in auto)
    then show ?thesis using ticket same lb_step.ticket [of a k lb] by auto
  next
    case (readClock k start)
    have "simulates lb d (enter k (Scanning start (bClock a) 0) a)"
      unfolding readClock by (rule free) (use readClock same in auto)
    then show ?thesis using readClock same lb_step.readClock [of a k start lb] by auto
  next
    case (noticed k o')
    have "simulates lb d (enter k (Failing o' (bClock a)) a)" unfolding noticed by (rule free) (use noticed same in auto)
    then show ?thesis using noticed same lb_step.noticed [of a k o' lb] by auto
  next
    case (leave k o')
    have "simulates lb d (enter k Finished a)" unfolding leave by (rule free) (use leave same in auto)
    then show ?thesis using leave same lb_step.leave [of a k o' lb] by auto
  next
    case (tick e)
    have "lkCall c Timer = None"
    proof (cases "lkCall c Timer")
      case (Some x)
      then show ?thesis using simulates_call(1) [OF assms(2), of Timer] by (cases x) (auto simp: asked_def)
    qed
    then have "simulates lb d (a\<lparr>bClock := bClock a + e\<rparr>)" unfolding tick by (rule free) (use tick same in auto)
    then show ?thesis using tick same lb_step.tick [of e lb a] by auto
  next
    case (invoke k o' call)
    then show ?thesis using simulates_invoke [OF assms(2)] by (auto simp: asked_def)
  next
    case (probe n o' e)
    then show ?thesis using simulates_invoke [OF assms(2)] by (auto simp: asked_def)
  next
    case (lock o' call seen rest)
    then show ?thesis using simulates_lock [OF assms(2) lock(2,3)] by (auto simp: proceed_def)
  next
    case (unlock o' call seen rest)
    then show ?thesis using simulates_unlock [OF assms(2) unlock(2)] by auto
  next
    case (access o' call seen x rest s seen')
    then show ?thesis using simulates_access [OF assms(2) access(2,3,4,5)] by (auto simp: proceed_def)
  qed
qed

lemma simulates_idle: "idle c \<Longrightarrow> simulates lb c (lkBalancer c)"
  by (rule simulatesI) (simp_all add: idle_def)

lemma lock_run_simulated:
  assumes "lock_run lb ts c d" "idle c"
  shows "\<exists>as a. lb_run anyState lb as (lkBalancer c) a \<and> simulates lb d a"
  using assms
proof (induction rule: lock_run.induct)
  case (stay c)
  then show ?case using lb_run.stay [of anyState] simulates_idle by blast
next
  case (go ts b c t d)
  then obtain as a where a: "lb_run anyState lb as (lkBalancer b) a" "simulates lb c a" by blast
  obtain a' where "a' = a \<or> lb_step lb (actorOf t) a a'" "simulates lb d a'"
    using lock_step_simulated [OF go.hyps(2) a(2)] by blast
  then show ?case using a(1) lb_run_then [OF a(1)] by blast
qed


section \<open>Waiting\<close>

lemma in_scan_run: "lb_run P lb as b c \<Longrightarrow> in_scan lb (bPhase b k) \<Longrightarrow> in_scan lb (bPhase c k)"
  by (induction rule: lb_run.induct) (auto dest: in_scan_step)

lemma decided_stays: "lb_step lb a b c \<Longrightarrow> stepsLeft lb (bPhase b k) = 0 \<Longrightarrow> stepsLeft lb (bPhase c k) = 0"
  by (induction rule: lb_step.induct) auto

lemma proceed_simps [simp]:
  "lkOwner (proceed lb t o' call seen rest c) = lkOwner c"
  "lkCall (proceed lb t o' call seen rest c) = (lkCall c)(t := if rest = [] then None else Some (Running o' call seen rest))"
  "t \<noteq> Request k \<Longrightarrow> bPhase (lkBalancer (proceed lb t o' call seen rest c)) k = bPhase (lkBalancer c) k"
  "rest \<noteq> [] \<Longrightarrow> lkBalancer (proceed lb t o' call seen rest c) = lkBalancer c"
  by (auto simp: proceed_def split: thread.splits)

lemma others_untouched:
  "lock_step lb t c d \<Longrightarrow> t \<noteq> u \<Longrightarrow> lkCall d u = lkCall c u \<and> (\<forall>k. u = Request k \<longrightarrow> bPhase (lkBalancer d) k = bPhase (lkBalancer c) k)"
  by (induction rule: lock_step.induct) auto

text \<open>Whoever is inside a call can take its next step, unless it waits for the mutex.\<close>

lemma call_steps:
  assumes "simulates lb c a" "lkCall c t = Some (Running o' call seen rest)"
  obtains "lkOwner c (rrState o') = Some t" "\<exists>d. lock_step lb t c d"
  | "lkOwner c (rrState o') = None" "\<exists>d. lock_step lb t c d"
  | u where "rest = script call" "lkOwner c (rrState o') = Some u" "u \<noteq> t"
proof -
  consider "rest = script call" "lkOwner c (rrState o') \<noteq> Some t"
    | dn rs where "lkOwner c (rrState o') = Some t" "body call = dn @ rs" "rest = rs @ [UnlockMu]"
    using simulates_call(2) [OF assms] by (auto simp: midway_def)
  then show thesis
  proof cases
    case 1
    then have r: "lkCall c t = Some (Running o' call seen (LockMu # body call @ [UnlockMu]))" using assms(2) by (simp add: script_def)
    show thesis using lock_step.lock [OF r] 1 that(2,3) by (cases "lkOwner c (rrState o')") auto
  next
    case 2
    show thesis
    proof (cases rs)
      case Nil
      then have "lkCall c t = Some (Running o' call seen (UnlockMu # []))" using assms(2) 2 by simp
      from lock_step.unlock [OF this] show thesis using 2(1) that(1) by auto
    next
      case (Cons x xs)
      then have r: "lkCall c t = Some (Running o' call seen (x # xs @ [UnlockMu]))" using assms(2) 2 by simp
      have x: "x \<noteq> LockMu" "x \<noteq> UnlockMu" using body_inside [of x call] 2(2) Cons by auto
      obtain s seen' where "perform x (bOrigins (lkBalancer c) (rrState o'), seen) = (s, seen')" by fastforce
      from lock_step.access [OF r x this] show thesis using 2(1) that(1) by blast
    qed
  qed
qed

lemma body_length: "length (body call) \<le> 3"
  by (cases call) auto

text \<open>The holder of a mutex, left alone, releases it after at most four steps.\<close>

lemma holder_releases:
  assumes "simulates lb c a" "lkOwner c i = Some t"
  shows "\<exists>n d. n \<le> 4 \<and> lock_run lb (replicate n t) c d \<and> lkOwner d i = None"
proof -
  have "\<exists>n d. n \<le> length rest \<and> lock_run lb (replicate n t) c d \<and> lkOwner d (rrState o') = None"
    if "simulates lb c a" "lkCall c t = Some (Running o' call seen rest)" "lkOwner c (rrState o') = Some t" for o' call seen rest c a
    using that
  proof (induction rest arbitrary: c a seen)
    case Nil
    then show ?case using simulates_call(2) [OF Nil(1,2)] by (auto simp: midway_def script_def)
  next
    case (Cons x rest)
    note r = Cons.prems(2)
    have "x \<noteq> LockMu"
      using simulates_call(2) [OF Cons.prems(1,2)] Cons.prems(3) body_inside [of x call]
      by (auto simp: midway_def append_eq_Cons_conv Cons_eq_append_conv)
    show ?case
    proof (cases "x = UnlockMu")
      case True
      then have "lock_step lb t c (proceed lb t o' call seen rest (c\<lparr>lkOwner := (lkOwner c)(rrState o' := None)\<rparr>))"
        using lock_step.unlock [of c t o' call seen rest lb] Cons.prems by simp
      from lock_run.go [OF lock_run.stay this] show ?thesis
        by (intro exI [of _ 1] exI [of _ "proceed lb t o' call seen rest (c\<lparr>lkOwner := (lkOwner c)(rrState o' := None)\<rparr>)"]) simp
    next
      case False
      obtain s seen' where p: "perform x (bOrigins (lkBalancer c) (rrState o'), seen) = (s, seen')" by fastforce
      let ?d = "proceed lb t o' call seen' rest (c\<lparr>lkBalancer := update (rrState o') (\<lambda>_. s) (lkBalancer c)\<rparr>)"
      have step: "lock_step lb t c ?d" using lock_step.access [OF r \<open>x \<noteq> LockMu\<close> False p] .
      have ne: "rest \<noteq> []" using simulates_access(2) [OF Cons.prems(1) r \<open>x \<noteq> LockMu\<close> False p] .
      obtain a' where "simulates lb ?d a'" using lock_step_simulated [OF step Cons.prems(1)] by blast
      from Cons.IH [OF this] obtain n e where e: "n \<le> length rest" "lock_run lb (replicate n t) ?d e" "lkOwner e (rrState o') = None"
        using ne Cons.prems(3) by auto
      have "lock_run lb (replicate (Suc n) t) c e" using lock_run_cons [OF e(2) step] by simp
      then show ?thesis using e by (intro exI [of _ "Suc n"] exI [of _ e]) simp
    qed
  qed
  moreover obtain o' call seen rest where r: "lkCall c t = Some (Running o' call seen rest)" "rrState o' = i"
    using simulates_owner [OF assms] by blast
  moreover have "length rest \<le> 4"
  proof -
    obtain dn rs where "body call = dn @ rs" "rest = rs @ [UnlockMu]"
      using simulates_call(2) [OF assms(1) r(1)] r(2) assms(2) by (auto simp: midway_def)
    then show ?thesis using body_length [of call] by simp
  qed
  ultimately show ?thesis using assms by (meson le_trans)
qed


lemma run_untouched:
  "lock_run lb ts c d \<Longrightarrow> Request k \<notin> set ts \<Longrightarrow> lkCall d (Request k) = lkCall c (Request k) \<and> bPhase (lkBalancer d) k = bPhase (lkBalancer c) k"
proof (induction rule: lock_run.induct)
  case (go ts b c t d)
  then have "t \<noteq> Request k" "Request k \<notin> set ts" by auto
  then show ?case using others_untouched [OF go.hyps(2)] go.IH by simp
qed simp

text \<open>An upper bound of the own steps a request takes until it is handed to an origin or refused.\<close>

definition ownLeft :: "roundRobinProxy \<Rightarrow> nat \<Rightarrow> locked \<Rightarrow> nat" where
  "ownLeft lb k c = (let s = stepsLeft lb (bPhase (lkBalancer c) k)
     in case lkCall c (Request k) of None \<Rightarrow> 6 * s | Some (Running o' call seen rest) \<Rightarrow> 6 * (s - 1) + length rest)"

lemma stepsLeft_resume:
  "wants lb p o' call \<Longrightarrow> 0 < stepsLeft lb p \<Longrightarrow> stepsLeft lb (resume lb call seen o' p) < stepsLeft lb p"
  by (erule wants.cases) auto

lemma ownLeft_proceed:
  assumes "0 < stepsLeft lb (bPhase (lkBalancer c) k)" "lkCall c (Request k) = Some (Running o' call seen (x # rest))"
    and "wants lb (bPhase (lkBalancer c) k) o' call" "lkCall c' = lkCall c" "bPhase (lkBalancer c') = bPhase (lkBalancer c)"
  shows "ownLeft lb k (proceed lb (Request k) o' call seen' rest c') < ownLeft lb k c"
proof (cases "rest = []")
  case True
  then have "ownLeft lb k (proceed lb (Request k) o' call seen' rest c') =
      6 * stepsLeft lb (resume lb call seen' o' (bPhase (lkBalancer c) k))"
    using assms(5) by (simp add: ownLeft_def proceed_def Let_def)
  then show ?thesis using stepsLeft_resume [OF assms(3,1), of seen'] assms(2) True by (simp add: ownLeft_def)
next
  case False
  then show ?thesis using assms by (simp add: ownLeft_def)
qed

lemma ownLeft_step:
  assumes "lock_step lb (Request k) c d" "simulates lb c a" "0 < stepsLeft lb (bPhase (lkBalancer c) k)"
  shows "ownLeft lb k d < ownLeft lb k c"
proof -
  have w: "wants lb (bPhase (lkBalancer c) k) o' call" if "lkCall c (Request k) = Some (Running o' call seen rest)" for o' call seen rest
    using simulates_call(1) [OF assms(2) that] by (simp add: asked_def)
  from assms(1) show ?thesis
  proof (cases rule: lock_step.cases)
    case (invoke o' call)
    have "length (script call) \<le> 5" using body_length [of call] by (simp add: script_def)
    then show ?thesis using invoke assms(3) by (simp add: ownLeft_def)
  next
    case (lock o' call seen rest)
    show ?thesis unfolding lock by (rule ownLeft_proceed [OF assms(3) lock(2) w [OF lock(2)]]) simp_all
  next
    case (unlock o' call seen rest)
    show ?thesis unfolding unlock by (rule ownLeft_proceed [OF assms(3) unlock(2) w [OF unlock(2)]]) simp_all
  next
    case (access o' call seen x rest s seen')
    show ?thesis unfolding access by (rule ownLeft_proceed [OF assms(3) access(2) w [OF access(2)]]) simp_all
  qed (use assms(3) in \<open>auto simp: ownLeft_def\<close>)
qed

lemma ownLeft_run:
  assumes "lock_run lb ts c d" "idle c" "bPhase (lkBalancer c) k = Arrived" "0 < stepsLeft lb (bPhase (lkBalancer d) k)"
  shows "count_list ts (Request k) + ownLeft lb k d \<le> 6 * (length (lbOrigins lb) + 3)"
  using assms
proof (induction rule: lock_run.induct)
  case (stay c)
  then show ?case by (simp add: ownLeft_def idle_def)
next
  case (go ts b c t d)
  obtain as a where a: "simulates lb c a" using lock_run_simulated [OF go.hyps(1) go.prems(1)] by blast
  obtain a' where a': "a' = a \<or> lb_step lb (actorOf t) a a'" "simulates lb d a'"
    using lock_step_simulated [OF go.hyps(2) a] by blast
  have pos: "0 < stepsLeft lb (bPhase (lkBalancer c) k)"
    using go.prems(3) a' decided_stays [of lb "actorOf t" a a' k] simulates_same(3) [OF a] simulates_same(3) [OF a'(2)] by auto
  then have IH: "count_list ts (Request k) + ownLeft lb k c \<le> 6 * (length (lbOrigins lb) + 3)" using go.IH go.prems by simp
  show ?case
  proof (cases "t = Request k")
    case True
    then show ?thesis using IH ownLeft_step [of lb k c d a] go.hyps(2) a pos by simp
  next
    case False
    then show ?thesis using IH others_untouched [OF go.hyps(2) False] by (simp add: ownLeft_def)
  qed
qed

lemma free_request_steps:
  assumes "simulates lb c a" "in_scan lb (bPhase (lkBalancer c) k)" "lbOrigins lb \<noteq> []" "lkCall c (Request k) = None"
    and "0 < stepsLeft lb (bPhase (lkBalancer c) k)"
  shows "\<exists>d. lock_step lb (Request k) c d"
proof (cases "bPhase (lkBalancer c) k")
  case (Scanning start now i)
  then consider "i < length (lbOrigins lb)" | "i = length (lbOrigins lb)" using assms(2) by fastforce
  then have "\<exists>o' call. wants lb (bPhase (lkBalancer c) k) o' call"
    by cases (use Scanning assms(3) wants.check [of i lb start now] wants.last [of lb start now] in auto)
  then show ?thesis using lock_step.invoke [OF assms(4)] by blast
next
  case Arrived
  then show ?thesis using lock_step.ticket [OF assms(4)] by blast
next
  case (Ticketed start)
  then show ?thesis using lock_step.readClock [OF assms(4)] by blast
qed (use assms(5) in simp_all)

text \<open>
  C19: The locks of the origins never stop the choice of an origin. From its arrival until it is handed
  to an origin or refused, a request can take its next step, or it waits for a mutex whose holder can
  always go on and releases it after at most four steps of its own, upon which the request can go on;
  and its own steps number fewer than six for each origin of the service and eighteen more. That the
  scheduler gives the holder these steps and the waiting request the mutex is the Go runtime's part.
\<close>

theorem choice_terminates:
  assumes "idle c0" "lbOrigins lb \<noteq> []" "bPhase (lkBalancer c0) k = Arrived" "lock_run lb ts c0 c"
  shows "if 0 < stepsLeft lb (bPhase (lkBalancer c) k)
    then ((\<exists>d. lock_step lb (Request k) c d) \<or>
        (\<exists>t n d. t \<noteq> Request k \<and> n \<le> 4 \<and> lock_run lb (replicate n t) c d \<and> (\<exists>e. lock_step lb (Request k) d e))) \<and>
      count_list ts (Request k) < 6 * length (lbOrigins lb) + 18
    else dialled (bPhase (lkBalancer c) k) \<noteq> None \<or> bPhase (lkBalancer c) k \<in> {Refused, Finished}"
proof -
  obtain as a where run: "lb_run anyState lb as (lkBalancer c0) a" and a: "simulates lb c a"
    using lock_run_simulated [OF assms(4,1)] by blast
  have scan: "in_scan lb (bPhase (lkBalancer c) k)"
    using in_scan_run [OF run, of k] assms(3) simulates_same(3) [OF a] by simp
  show ?thesis
  proof (cases "0 < stepsLeft lb (bPhase (lkBalancer c) k)")
    case True
    have progress: "(\<exists>d. lock_step lb (Request k) c d) \<or>
        (\<exists>t n d. t \<noteq> Request k \<and> n \<le> 4 \<and> lock_run lb (replicate n t) c d \<and> (\<exists>e. lock_step lb (Request k) d e))"
    proof (cases "lkCall c (Request k)")
      case None
      then show ?thesis using free_request_steps [OF a scan assms(2) None True] by blast
    next
      case (Some x)
      then obtain o' call seen rest where r: "lkCall c (Request k) = Some (Running o' call seen rest)" by (cases x) auto
      from a r show ?thesis
      proof (cases rule: call_steps)
        case (3 u)
        obtain n d where d: "n \<le> 4" "lock_run lb (replicate n u) c d" "lkOwner d (rrState o') = None"
          using holder_releases [OF a 3(2)] by blast
        have "lkCall d (Request k) = Some (Running o' call seen (LockMu # body call @ [UnlockMu]))"
          using run_untouched [OF d(2), of k] 3(1,3) r by (simp add: script_def)
        from lock_step.lock [OF this d(3)] show ?thesis using d 3(3) by blast
      qed blast+
    qed
    have "0 < ownLeft lb k c"
    proof (cases "lkCall c (Request k)")
      case (Some x)
      then obtain o' call seen rest where r: "lkCall c (Request k) = Some (Running o' call seen rest)" by (cases x) auto
      then show ?thesis using simulates_call(2) [OF a r] by (auto simp: ownLeft_def midway_def script_def)
    qed (use True in \<open>simp add: ownLeft_def\<close>)
    then show ?thesis using True progress ownLeft_run [OF assms(4,1,3) True] by simp
  next
    case False
    then show ?thesis using scan assms(2) by (cases "bPhase (lkBalancer c) k") auto
  qed
qed

text \<open>
  C33: The methods of an origin's state act as if each were a single step: with locking, unlocking and the
  loads and stores between them taken one at a time and interleaved in any way, the counter, the clock,
  the tickets, what every request has done and the states whose mutex is free are, at every moment, those
  of a run in which every call is one step. So what is shown of such runs holds of the code with its locks.
\<close>

theorem locked_sections_atomic:
  assumes "idle c0" "lock_run lb ts c0 c"
  shows "\<exists>as b. lb_run anyState lb as (lkBalancer c0) b \<and> bNext b = bNext (lkBalancer c) \<and> bClock b = bClock (lkBalancer c) \<and>
    bTickets b = bTickets (lkBalancer c) \<and> bPhase b = bPhase (lkBalancer c) \<and>
    (\<forall>i. lkOwner c i = None \<longrightarrow> bOrigins b i = bOrigins (lkBalancer c) i)"
proof -
  obtain as b where b: "lb_run anyState lb as (lkBalancer c0) b" "simulates lb c b"
    using lock_run_simulated [OF assms(2,1)] by blast
  then show ?thesis using simulates_same [OF b(2)] by (intro exI [of _ as] exI [of _ b]) simp
qed

section \<open>Witnesses\<close>

definition demo_locked :: locked where
  "demo_locked = \<lparr>lkBalancer = demo_balancer, lkOwner = (\<lambda>_. None), lkCall = (\<lambda>_. None)\<rparr>"

text \<open>A prober holds the mutex of the only origin.\<close>

definition demo_probing :: locked where
  "demo_probing = demo_locked\<lparr>lkOwner := (\<lambda>_. None)(0 \<mapsto> Probing 0),
     lkCall := (\<lambda>_. None)(Probing 0 \<mapsto> Running demo_origin (CallSetForcedDown True) newOriginState [StoreDown True, UnlockMu])\<rparr>"

lemma demo_probing_run: "lock_run (demo_lb [''a'']) [Probing 0, Probing 0] demo_locked demo_probing"
proof -
  let ?lb = "demo_lb [''a'']" and ?call = "CallSetForcedDown True"
  let ?c = "demo_locked\<lparr>lkCall := (\<lambda>_. None)(Probing 0 \<mapsto> Running demo_origin ?call newOriginState (script ?call))\<rparr>"
  have "lock_step ?lb (Probing 0) demo_locked ?c"
    using lock_step.probe [of demo_locked 0 demo_origin ?lb True] by (simp add: demo_locked_def demo_one)
  from lock_run.go [OF lock_run.stay this] have 1: "lock_run ?lb [Probing 0] demo_locked ?c" by simp
  have "lock_step ?lb (Probing 0) ?c demo_probing"
    using lock_step.lock [of ?c "Probing 0" demo_origin ?call newOriginState "[StoreDown True, UnlockMu]" ?lb]
    by (simp add: demo_locked_def demo_probing_def proceed_def script_def demo_origin_def)
  from lock_run.go [OF 1 this] show ?thesis by simp
qed

lemma demo_idle: "idle demo_locked"
  by (simp add: idle_def demo_locked_def)

theorem choice_terminates_witness:
  "\<exists>t n d. n \<le> 4 \<and> lock_run (demo_lb [''a'']) (replicate n t) demo_probing d \<and> (\<exists>e. lock_step (demo_lb [''a'']) (Request 0) d e)"
proof -
  let ?lb = "demo_lb [''a'']"
  have "bPhase (lkBalancer demo_locked) 0 = Arrived" by (simp add: demo_locked_def demo_balancer_def)
  note ct = choice_terminates [OF demo_idle _ this demo_probing_run]
  have "0 < stepsLeft ?lb (bPhase (lkBalancer demo_probing) 0)" by (simp add: demo_probing_def demo_locked_def demo_balancer_def)
  then have "(\<exists>d. lock_step ?lb (Request 0) demo_probing d) \<or>
      (\<exists>t n d. t \<noteq> Request 0 \<and> n \<le> 4 \<and> lock_run ?lb (replicate n t) demo_probing d \<and> (\<exists>e. lock_step ?lb (Request 0) d e))"
    using ct unfolding demo_one by (metis list.distinct(1))
  then show ?thesis using lock_run.stay [of ?lb demo_probing] by (metis le0 replicate_0)
qed

theorem locked_sections_atomic_witness:
  "\<exists>as b. lb_run anyState (demo_lb [''a'']) as demo_balancer b \<and> bOrigins b 1 = newOriginState"
proof -
  obtain as b where b: "lb_run anyState (demo_lb [''a'']) as (lkBalancer demo_locked) b"
    "\<forall>i. lkOwner demo_probing i = None \<longrightarrow> bOrigins b i = bOrigins (lkBalancer demo_probing) i"
    using locked_sections_atomic [OF demo_idle demo_probing_run] by blast
  then have "bOrigins b 1 = newOriginState" by (simp add: demo_probing_def demo_locked_def demo_balancer_def)
  then show ?thesis using b(1) by (auto simp: demo_locked_def)
qed

end
