(* ===== verification/Reload_Steps.thy ===== *)
theory Reload_Steps
  imports Gateway_Lifecycle
begin

text \<open>
  Hot reload at the grain of its atomic operations. The watcher's goroutine installs a new
  configuration by a series of stores and swaps of atomic pointers and cancellations; requests load
  the mux in between, and \<^verbatim>\<open>Close\<close> may run at the same time in the goroutine of
  \<^verbatim>\<open>main\<close>. Each of the steps below is one of these operations, and the theorems are about
  every interleaving of them; \<open>Gateway_Process\<close> takes a whole reload or \<^verbatim>\<open>Close\<close> as one step.
\<close>

section \<open>The watcher's goroutine\<close>

text \<open>What \<^verbatim>\<open>buildMux\<close> returned for a configuration.\<close>

record built =
  bdConfig :: config
  bdMux :: "route mux"
  bdProbers :: "prober list"
  bdPlugins :: "plugin list"

datatype watch_pc =
    Polling
  | StoreMux built
  | StoreHosts built
  | SpawnProbers built
  | SwapProbers built nat \<comment> \<open>the generation just started\<close>
  | CancelProbers built "nat option" \<comment> \<open>the generation swapped out\<close>
  | StorePlugins built
  | SpawnFlusher built
  | SwapFlusher built nat
  | CancelFlusher built "nat option"
  | Returned

fun reloadStep :: "watch_pc \<times> gateway \<Rightarrow> watch_pc \<times> gateway" where
  "reloadStep (StoreMux b, g) = (StoreHosts b, g\<lparr>gwMux := bdMux b\<rparr>)"
| "reloadStep (StoreHosts b, g) = (SpawnProbers b, storeHosts (bdConfig b) g)"
| "reloadStep (SpawnProbers b, g) =
     (SwapProbers b (length (gwProbers g)), g\<lparr>gwProbers := gwProbers g @ [(bdProbers b, False)]\<rparr>)"
| "reloadStep (SwapProbers b i, g) = (CancelProbers b (gwProberCancel g), g\<lparr>gwProberCancel := Some i\<rparr>)"
| "reloadStep (CancelProbers b old, g) = (StorePlugins b, g\<lparr>gwProbers := cancelCur old (gwProbers g)\<rparr>)"
| "reloadStep (StorePlugins b, g) = (SpawnFlusher b, g\<lparr>gwPlugins := bdPlugins b\<rparr>)"
| "reloadStep (SpawnFlusher b, g) =
     (SwapFlusher b (length (gwFlushers g)), g\<lparr>gwFlushers := gwFlushers g @ [(bdPlugins b, False)]\<rparr>)"
| "reloadStep (SwapFlusher b i, g) = (CancelFlusher b (gwFlusherCancel g), g\<lparr>gwFlusherCancel := Some i\<rparr>)"
| "reloadStep (CancelFlusher b old, g) = (Polling, g\<lparr>gwFlushers := cancelCur old (gwFlushers g)\<rparr>)"
| "reloadStep (Polling, g) = (Polling, g)"
| "reloadStep (Returned, g) = (Returned, g)"

definition reloading :: "watch_pc \<Rightarrow> bool" where
  "reloading pc \<longleftrightarrow> pc \<noteq> Polling \<and> pc \<noteq> Returned"

section \<open>Closing\<close>

text \<open>The plugins that got the final flush stay on record.\<close>

datatype close_pc =
    Open
  | LoadProbers
  | StopProbers "nat option"
  | LoadFlusher
  | StopFlusher "nat option"
  | LoadPlugins
  | FlushPlugins "plugin list"
  | StopTracing "plugin list"
  | Closed "plugin list"

fun closeStep :: "close_pc \<times> gateway \<Rightarrow> close_pc \<times> gateway" where
  "closeStep (Open, g) = (LoadProbers, g\<lparr>gwWatching := False\<rparr>)"
| "closeStep (LoadProbers, g) = (StopProbers (gwProberCancel g), g)"
| "closeStep (StopProbers cur, g) = (LoadFlusher, g\<lparr>gwProbers := cancelCur cur (gwProbers g)\<rparr>)"
| "closeStep (LoadFlusher, g) = (StopFlusher (gwFlusherCancel g), g)"
| "closeStep (StopFlusher cur, g) = (LoadPlugins, g\<lparr>gwFlushers := cancelCur cur (gwFlushers g)\<rparr>)"
| "closeStep (LoadPlugins, g) = (FlushPlugins (gwPlugins g), g)"
| "closeStep (FlushPlugins ps, g) = (StopTracing ps, g)"
| "closeStep (StopTracing ps, g) = (Closed ps, g\<lparr>gwTracingOn := False\<rparr>)"
| "closeStep (Closed ps, g) = (Closed ps, g)"

section \<open>Interleaving\<close>

record live_gateway =
  lgGw :: gateway
  lgWatch :: watch_pc
  lgClose :: close_pc
  lgFlights :: "nat \<Rightarrow> route mux option" \<comment> \<open>the mux each running request loaded\<close>
  lgInstalled :: "built list" \<comment> \<open>what was stored as the mux, oldest first\<close>

datatype gw_actor = Watching | Closing | Requesting nat

text \<open>
  A tick that finds an acceptable file starts a reload; any other leaves the gateway alone. Go's
  \<^verbatim>\<open>select\<close> chooses at random when a tick and the cancellation are both there, so a tick may
  still be taken after the cancellation. \<open>s\<close> is the world the process is in when it builds.
\<close>

inductive gw_step :: "deps \<Rightarrow> gw_actor \<Rightarrow> live_gateway \<Rightarrow> live_gateway \<Rightarrow> bool" for su where
  loaded: "lgWatch l = Polling \<Longrightarrow> loadConfig (suDecoder su) src = Inr cfg \<Longrightarrow>
    buildMux (suPlatform su) (suParseURL su) (suOptions su) cfg (s :: metrics_world) = (Built m, (pr, pl, s')) \<Longrightarrow>
    sugar_ok (suPlatform su) s \<Longrightarrow>
    gw_step su Watching l (l\<lparr>lgWatch := StoreMux \<lparr>bdConfig = cfg, bdMux = m, bdProbers = pr, bdPlugins = pl\<rparr>\<rparr>)"
| reload: "reloading (lgWatch l) \<Longrightarrow> reloadStep (lgWatch l, lgGw l) = (pc, g) \<Longrightarrow>
    inst = (case lgWatch l of StoreMux b \<Rightarrow> [b] | _ \<Rightarrow> []) \<Longrightarrow>
    gw_step su Watching l (l\<lparr>lgWatch := pc, lgGw := g, lgInstalled := lgInstalled l @ inst\<rparr>)"
| returned: "lgWatch l = Polling \<Longrightarrow> \<not> gwWatching (lgGw l) \<Longrightarrow> gw_step su Watching l (l\<lparr>lgWatch := Returned\<rparr>)"
| closing: "closeStep (lgClose l, lgGw l) = (pc, g) \<Longrightarrow> gw_step su Closing l (l\<lparr>lgClose := pc, lgGw := g\<rparr>)"
| arrived: "gw_step su (Requesting k) l (l\<lparr>lgFlights := (lgFlights l)(k := Some (gwMux (lgGw l)))\<rparr>)"
| served: "gw_step su (Requesting k) l (l\<lparr>lgFlights := (lgFlights l)(k := None)\<rparr>)"

inductive gw_run :: "(live_gateway \<Rightarrow> bool) \<Rightarrow> deps \<Rightarrow> live_gateway \<Rightarrow> live_gateway \<Rightarrow> bool" for P su where
  stay: "P l \<Longrightarrow> gw_run P su l l"
| go: "gw_run P su l l1 \<Longrightarrow> gw_step su a l1 l2 \<Longrightarrow> P l2 \<Longrightarrow> gw_run P su l l2"

abbreviation anyTime :: "live_gateway \<Rightarrow> bool" where
  "anyTime \<equiv> \<lambda>_. True"

text \<open>A gateway right after \<^verbatim>\<open>New\<close> started the watcher.\<close>

definition newly_live :: "deps \<Rightarrow> config \<Rightarrow> live_gateway \<Rightarrow> bool" where
  "newly_live su cfg l \<longleftrightarrow> gateway_inv (suOptions su) (lgGw l) \<and> gwWatching (lgGw l) \<and> lgWatch l = Polling \<and> lgClose l = Open \<and>
     lgFlights l = (\<lambda>_. None) \<and> gwHosts (lgGw l) = set (configHosts cfg) \<and>
     (\<exists>pr. lgInstalled l = [\<lparr>bdConfig = cfg, bdMux = gwMux (lgGw l), bdProbers = pr, bdPlugins = gwPlugins (lgGw l)\<rparr>] \<and>
       liveGens (gwProbers (lgGw l)) = [pr]) \<and>
     (\<exists>src. loadConfig (suDecoder su) src = Inr cfg) \<and>
     compileConfig (suPlatform su) (suParseURL su) cfg = Built (mapMux rtService (gwMux (lgGw l)))"

lemma gw_run_trans: "gw_run P su l1 l2 \<Longrightarrow> gw_run P su l l1 \<Longrightarrow> gw_run P su l l2"
  by (induction rule: gw_run.induct) (auto intro: gw_run.go)

lemma gw_run_end: "gw_run P su l l1 \<Longrightarrow> P l1"
  by (induction rule: gw_run.induct) auto

section \<open>What is served\<close>

definition accepted :: "deps \<Rightarrow> built \<Rightarrow> bool" where
  "accepted su b \<longleftrightarrow> (\<exists>src. loadConfig (suDecoder su) src = Inr (bdConfig b)) \<and>
     compileConfig (suPlatform su) (suParseURL su) (bdConfig b) = Built (mapMux rtService (bdMux b))"

fun building :: "watch_pc \<Rightarrow> built option" where
  "building (StoreMux b) = Some b"
| "building (StoreHosts b) = Some b"
| "building (SpawnProbers b) = Some b"
| "building (SwapProbers b i) = Some b"
| "building (CancelProbers b old) = Some b"
| "building (StorePlugins b) = Some b"
| "building (SpawnFlusher b) = Some b"
| "building (SwapFlusher b i) = Some b"
| "building (CancelFlusher b old) = Some b"
| "building _ = None"

fun storingMux :: "watch_pc \<Rightarrow> bool" where
  "storingMux (StoreMux b) = True"
| "storingMux _ = False"

fun storingHosts :: "watch_pc \<Rightarrow> bool" where
  "storingHosts (StoreHosts b) = True"
| "storingHosts _ = False"

text \<open>Whose hosts are on record: those of the mux, or of the one before between the two stores.\<close>

definition hostsOf :: "live_gateway \<Rightarrow> built" where
  "hostsOf l = (if storingHosts (lgWatch l) then last (butlast (lgInstalled l)) else last (lgInstalled l))"

definition served_inv :: "deps \<Rightarrow> live_gateway \<Rightarrow> bool" where
  "served_inv su l \<longleftrightarrow> lgInstalled l \<noteq> [] \<and> (\<forall>b \<in> set (lgInstalled l). accepted su b) \<and>
     pred_option (accepted su) (building (lgWatch l)) \<and>
     (reloading (lgWatch l) \<and> \<not> storingMux (lgWatch l) \<longrightarrow> building (lgWatch l) = Some (last (lgInstalled l))) \<and>
     gwMux (lgGw l) = bdMux (last (lgInstalled l)) \<and>
     gwHosts (lgGw l) = set (configHosts (bdConfig (hostsOf l))) \<and>
     (storingHosts (lgWatch l) \<longrightarrow> butlast (lgInstalled l) \<noteq> []) \<and>
     (\<forall>k m. lgFlights l k = Some m \<longrightarrow> (\<exists>b \<in> set (lgInstalled l). m = bdMux b))"

lemma served_inv_start:
  assumes "newly_live su cfg l"
  shows "served_inv su l"
proof -
  obtain pr where pr: "lgInstalled l = [\<lparr>bdConfig = cfg, bdMux = gwMux (lgGw l), bdProbers = pr, bdPlugins = gwPlugins (lgGw l)\<rparr>]"
    using assms by (auto simp: newly_live_def)
  have "lgWatch l = Polling" "lgFlights l = (\<lambda>_. None)" "gwHosts (lgGw l) = set (configHosts cfg)"
    "compileConfig (suPlatform su) (suParseURL su) cfg = Built (mapMux rtService (gwMux (lgGw l)))"
    "\<exists>src. loadConfig (suDecoder su) src = Inr cfg"
    using assms by (simp_all add: newly_live_def)
  then show ?thesis by (simp add: pr served_inv_def accepted_def hostsOf_def reloading_def)
qed

lemma closeStep_keeps:
  "closeStep (cp, g) = (cp', g') \<Longrightarrow> gwMux g' = gwMux g \<and> gwHosts g' = gwHosts g \<and> gwPlugins g' = gwPlugins g"
  by (cases cp) auto

lemma served_inv_step:
  assumes "gw_step su a l l'" "served_inv su l"
  shows "served_inv su l'"
  using assms
proof (induction rule: gw_step.induct)
  case (loaded l src cfg s m pr pl s')
  have "compileConfig (suPlatform su) (suParseURL su) cfg = Built (mapMux rtService m)"
    using buildMux_compiles [OF loaded(4), of "suParseURL su" "suOptions su" cfg] loaded(3) by simp
  then show ?case using loaded(1,2,5) by (auto simp: served_inv_def accepted_def hostsOf_def)
next
  case (reload l pc g inst)
  then show ?case by (cases "lgWatch l") (auto simp: served_inv_def reloading_def storeHosts_def hostsOf_def)
next
  case (closing l pc g)
  then show ?case using closeStep_keeps [OF closing(1)] by (auto simp: served_inv_def hostsOf_def)
next
  case (arrived k l)
  then have "last (lgInstalled l) \<in> set (lgInstalled l)" "gwMux (lgGw l) = bdMux (last (lgInstalled l))" by (auto simp: served_inv_def)
  then show ?case using arrived by (auto simp: served_inv_def hostsOf_def)
qed (auto simp: served_inv_def hostsOf_def reloading_def)

lemma served_inv_run: "gw_run P su l l1 \<Longrightarrow> served_inv su l \<Longrightarrow> served_inv su l1"
  by (induction rule: gw_run.induct) (auto intro: served_inv_step)

section \<open>Generations in a swap\<close>

text \<open>Replacing generation \<open>x\<close> by \<open>y\<close>: start \<open>y\<close>, swap the cancel functions, cancel \<open>x\<close>.\<close>

datatype swap = Steady | Started nat | Swapped "nat option"

fun swap_ok :: "swap \<Rightarrow> 'g \<Rightarrow> 'g \<Rightarrow> nat option \<Rightarrow> 'g generations \<Rightarrow> bool" where
  "swap_ok Steady x y cur gs \<longleftrightarrow> gens_ok cur gs \<and> liveGens gs = [x]"
| "swap_ok (Started i) x y cur gs \<longleftrightarrow> (\<exists>olds. gs = olds @ [(y, False)] \<and> i = length olds \<and> gens_ok cur olds \<and> liveGens olds = [x])"
| "swap_ok (Swapped old) x y cur gs \<longleftrightarrow>
     (\<exists>olds. gs = olds @ [(y, False)] \<and> cur = Some (length olds) \<and> gens_ok old olds \<and> liveGens olds = [x])"

lemma swap_start: "swap_ok Steady x y cur gs \<Longrightarrow> swap_ok (Started (length gs)) x z cur (gs @ [(z, False)])"
  by simp

lemma swap_swap: "swap_ok (Started i) x y cur gs \<Longrightarrow> swap_ok (Swapped cur) x y (Some i) gs"
  by auto

lemma swap_cancel:
  assumes "swap_ok (Swapped old) x y cur gs"
  shows "swap_ok Steady y z cur (cancelCur old gs)"
proof -
  obtain olds where o: "gs = olds @ [(y, False)]" "cur = Some (length olds)" "gens_ok old olds" "liveGens olds = [x]"
    using assms by auto
  have "startGen y old olds = (cur, cancelCur old gs)" using o(1,2) by (simp add: startGen_def)
  then show ?thesis using startGen_ok [OF o(3)] by simp
qed

lemma swap_live: "swap_ok sw x y cur gs \<Longrightarrow> liveGens gs = (if sw = Steady then [x] else [x, y])"
  by (cases sw) (auto simp: liveGens_def)

fun proberSwap :: "watch_pc \<Rightarrow> swap" where
  "proberSwap (SwapProbers b i) = Started i"
| "proberSwap (CancelProbers b old) = Swapped old"
| "proberSwap _ = Steady"

fun flusherSwap :: "watch_pc \<Rightarrow> swap" where
  "flusherSwap (SwapFlusher b i) = Started i"
| "flusherSwap (CancelFlusher b old) = Swapped old"
| "flusherSwap _ = Steady"

text \<open>How far the reload under way has got.\<close>

fun probersPending :: "watch_pc \<Rightarrow> bool" where
  "probersPending (StoreHosts b) = True"
| "probersPending (SpawnProbers b) = True"
| "probersPending (SwapProbers b i) = True"
| "probersPending (CancelProbers b old) = True"
| "probersPending _ = False"

fun pluginsPending :: "watch_pc \<Rightarrow> bool" where
  "pluginsPending (StorePlugins b) = True"
| "pluginsPending pc = probersPending pc"

fun flusherPending :: "watch_pc \<Rightarrow> bool" where
  "flusherPending (SpawnFlusher b) = True"
| "flusherPending (SwapFlusher b i) = True"
| "flusherPending (CancelFlusher b old) = True"
| "flusherPending pc = pluginsPending pc"

definition proberGens :: "watch_pc \<Rightarrow> built \<Rightarrow> gateway \<Rightarrow> bool" where
  "proberGens pc b g \<longleftrightarrow>
     (\<exists>x. swap_ok (proberSwap pc) x (bdProbers b) (gwProberCancel g) (gwProbers g) \<and> (\<not> probersPending pc \<longrightarrow> x = bdProbers b))"

definition flusherGens :: "watch_pc \<Rightarrow> built \<Rightarrow> gateway \<Rightarrow> bool" where
  "flusherGens pc b g \<longleftrightarrow>
     (\<exists>x. swap_ok (flusherSwap pc) x (bdPlugins b) (gwFlusherCancel g) (gwFlushers g) \<and> (\<not> flusherPending pc \<longrightarrow> x = bdPlugins b))"

lemma proberGens_step:
  assumes "proberGens pc b' g" "reloadStep (pc, g) = (pc', g')" "building pc = Some b" "\<not> storingMux pc \<longrightarrow> b' = b"
  shows "proberGens pc' b g'"
proof (cases pc)
  case (CancelProbers c old)
  then obtain x where "swap_ok (Swapped old) x (bdProbers b) (gwProberCancel g) (gwProbers g)"
    using assms by (auto simp: proberGens_def)
  from swap_cancel [OF this] show ?thesis using CancelProbers assms by (auto simp: proberGens_def)
qed (use assms in \<open>auto simp: proberGens_def storeHosts_def\<close>)

lemma flusherGens_step:
  assumes "flusherGens pc b' g" "reloadStep (pc, g) = (pc', g')" "building pc = Some b" "\<not> storingMux pc \<longrightarrow> b' = b"
  shows "flusherGens pc' b g'"
proof (cases pc)
  case (CancelFlusher c old)
  then obtain x where "swap_ok (Swapped old) x (bdPlugins b) (gwFlusherCancel g) (gwFlushers g)"
    using assms by (auto simp: flusherGens_def)
  from swap_cancel [OF this] show ?thesis using CancelFlusher assms by (auto simp: flusherGens_def)
qed (use assms in \<open>auto simp: flusherGens_def storeHosts_def\<close>)

definition gens_inv :: "live_gateway \<Rightarrow> bool" where
  "gens_inv l \<longleftrightarrow> (let b = last (lgInstalled l) in
     proberGens (lgWatch l) b (lgGw l) \<and> flusherGens (lgWatch l) b (lgGw l) \<and>
     (\<not> pluginsPending (lgWatch l) \<longrightarrow> gwPlugins (lgGw l) = bdPlugins b))"

lemma gens_inv_start:
  assumes "newly_live su cfg l"
  shows "gens_inv l"
proof -
  obtain pr where pr: "lgInstalled l = [\<lparr>bdConfig = cfg, bdMux = gwMux (lgGw l), bdProbers = pr, bdPlugins = gwPlugins (lgGw l)\<rparr>]"
    "liveGens (gwProbers (lgGw l)) = [pr]"
    using assms by (auto simp: newly_live_def)
  have "lgWatch l = Polling" "gens_ok (gwProberCancel (lgGw l)) (gwProbers (lgGw l))"
    "gens_ok (gwFlusherCancel (lgGw l)) (gwFlushers (lgGw l))" "liveGens (gwFlushers (lgGw l)) = [gwPlugins (lgGw l)]"
    using assms by (simp_all add: newly_live_def gateway_inv_def)
  then show ?thesis using pr by (simp add: gens_inv_def proberGens_def flusherGens_def)
qed

lemma reload_gens:
  assumes "reloading (lgWatch l)" "served_inv su l" "gens_inv l" "reloadStep (lgWatch l, lgGw l) = (pc, g)"
    "inst = (case lgWatch l of StoreMux b \<Rightarrow> [b] | _ \<Rightarrow> [])"
  shows "gens_inv (l\<lparr>lgWatch := pc, lgGw := g, lgInstalled := lgInstalled l @ inst\<rparr>)"
proof -
  have "building (lgWatch l) \<noteq> None" using assms(1) by (cases "lgWatch l") (auto simp: reloading_def)
  then obtain b where b: "building (lgWatch l) = Some b" by blast
  have old: "\<not> storingMux (lgWatch l) \<longrightarrow> last (lgInstalled l) = b" and new: "last (lgInstalled l @ inst) = b"
    using assms(1,2,5) b by (cases "lgWatch l"; auto simp: served_inv_def)+
  have "\<not> pluginsPending pc \<longrightarrow> gwPlugins g = bdPlugins b"
    using assms(1,3,4) b old by (cases "lgWatch l") (auto simp: gens_inv_def reloading_def storeHosts_def)
  moreover have "proberGens pc b g" "flusherGens pc b g"
    using proberGens_step [OF _ assms(4) b old] flusherGens_step [OF _ assms(4) b old] assms(3) by (simp_all add: gens_inv_def Let_def)
  ultimately show ?thesis using new by (simp add: gens_inv_def)
qed

lemma gens_inv_run:
  assumes "gw_run (\<lambda>l. lgClose l = Open) su l0 l" "newly_live su cfg l0"
  shows "gens_inv l \<and> served_inv su l"
  using assms
proof (induction rule: gw_run.induct)
  case (stay l)
  then show ?case using gens_inv_start served_inv_start by blast
next
  case (go l l1 a l2)
  then have inv: "gens_inv l1" "served_inv su l1" and opened: "lgClose l1 = Open" using gw_run_end by blast+
  have "gens_inv l2"
    using go.hyps(2)
  proof (cases rule: gw_step.cases)
    case (reload pc g inst)
    then show ?thesis using reload_gens inv by blast
  next
    case (closing pc g)
    then show ?thesis using go.hyps(3) opened by auto
  qed (use inv in \<open>auto simp: gens_inv_def proberGens_def flusherGens_def\<close>)
  then show ?case using served_inv_step [OF go.hyps(2) inv(2)] by blast
qed

section \<open>Closing between reloads\<close>

fun probersStopped :: "close_pc \<Rightarrow> bool" where
  "probersStopped Open = False"
| "probersStopped LoadProbers = False"
| "probersStopped (StopProbers cur) = False"
| "probersStopped _ = True"

fun flushersStopped :: "close_pc \<Rightarrow> bool" where
  "flushersStopped LoadFlusher = False"
| "flushersStopped (StopFlusher cur) = False"
| "flushersStopped cp = probersStopped cp"

fun flushing :: "close_pc \<Rightarrow> plugin list option" where
  "flushing (FlushPlugins ps) = Some ps"
| "flushing (StopTracing ps) = Some ps"
| "flushing (Closed ps) = Some ps"
| "flushing _ = None"

definition close_state :: "close_pc \<Rightarrow> built \<Rightarrow> gateway \<Rightarrow> bool" where
  "close_state cp b g \<longleftrightarrow>
     gens_ok (gwProberCancel g) (gwProbers g) \<and> gens_ok (gwFlusherCancel g) (gwFlushers g) \<and>
     (probersStopped cp \<longrightarrow> liveGens (gwProbers g) = []) \<and> (flushersStopped cp \<longrightarrow> liveGens (gwFlushers g) = []) \<and>
     (\<forall>cur. cp = StopProbers cur \<longrightarrow> cur = gwProberCancel g) \<and> (\<forall>cur. cp = StopFlusher cur \<longrightarrow> cur = gwFlusherCancel g) \<and>
     pred_option ((=) (gwPlugins g)) (flushing cp) \<and> gwPlugins g = bdPlugins b"

lemma close_state_step:
  assumes "close_state cp b g" "closeStep (cp, g) = (cp', g')"
  shows "close_state cp' b g'"
proof -
  have p: "gens_ok (gwProberCancel g) (gwProbers g)" and f: "gens_ok (gwFlusherCancel g) (gwFlushers g)"
    using assms(1) by (simp_all add: close_state_def)
  show ?thesis using assms cancelCur_ok [OF p] cancelCur_ok [OF f] by (cases cp) (auto simp: close_state_def)
qed

definition close_inv :: "live_gateway \<Rightarrow> bool" where
  "close_inv l \<longleftrightarrow> close_state (lgClose l) (last (lgInstalled l)) (lgGw l)"

definition quiet :: "live_gateway \<Rightarrow> bool" where
  "quiet l \<longleftrightarrow> lgClose l \<noteq> Open \<longrightarrow> \<not> reloading (lgWatch l)"

lemma close_inv_open:
  assumes "gens_inv l" "\<not> reloading (lgWatch l)" "lgClose l = Open"
  shows "close_inv l"
  using assms
  by (cases "lgWatch l") (auto simp: gens_inv_def proberGens_def flusherGens_def close_inv_def close_state_def reloading_def Let_def)

lemma quiet_run:
  assumes "gw_run quiet su l0 l" "newly_live su cfg l0"
  shows "if lgClose l = Open then gens_inv l \<and> served_inv su l else close_inv l"
  using assms
proof (induction rule: gw_run.induct)
  case (stay l)
  then have "lgClose l = Open" by (simp add: newly_live_def)
  then show ?case using gens_inv_start [OF stay.prems] served_inv_start [OF stay.prems] by simp
next
  case (go l l1 a l2)
  note inv = go.IH [OF go.prems]
  have quiet: "quiet l1" "quiet l2" using gw_run_end go by blast+
  from go.hyps(2) show ?case
  proof (cases rule: gw_step.cases)
    case (loaded src cfg s m pr pl s')
    then have "lgClose l1 = Open" using quiet(2) by (auto simp: quiet_def reloading_def)
    then show ?thesis using inv loaded served_inv_step [OF go.hyps(2)] by (auto simp: gens_inv_def proberGens_def flusherGens_def)
  next
    case (reload pc g inst)
    then have "lgClose l1 = Open" using quiet(1) by (auto simp: quiet_def)
    then show ?thesis using inv reload served_inv_step [OF go.hyps(2)] reload_gens by auto
  next
    case (closing pc g)
    then have "lgClose l2 \<noteq> Open" by (cases "lgClose l1") auto
    then have "\<not> reloading (lgWatch l1)" using quiet(2) closing by (auto simp: quiet_def)
    then have "close_inv l1" using inv close_inv_open by (cases "lgClose l1 = Open") auto
    then show ?thesis using close_state_step closing \<open>lgClose l2 \<noteq> Open\<close> by (auto simp: close_inv_def)
  qed (use inv served_inv_step [OF go.hyps(2)] in \<open>auto simp: gens_inv_def proberGens_def flusherGens_def close_inv_def\<close>)
qed

section \<open>Uninterrupted runs\<close>

lemma run_closing:
  assumes "gw_run anyTime su l0 l"
  shows "gw_run anyTime su l0 (l\<lparr>lgClose := fst ((closeStep ^^ n) (lgClose l, lgGw l)), lgGw := snd ((closeStep ^^ n) (lgClose l, lgGw l))\<rparr>)"
proof (induction n)
  case (Suc n)
  let ?l = "l\<lparr>lgClose := fst ((closeStep ^^ n) (lgClose l, lgGw l)), lgGw := snd ((closeStep ^^ n) (lgClose l, lgGw l))\<rparr>"
  obtain pc g where pc: "closeStep ((closeStep ^^ n) (lgClose l, lgGw l)) = (pc, g)"
    by (cases "closeStep ((closeStep ^^ n) (lgClose l, lgGw l))")
  then have "gw_step su Closing ?l (?l\<lparr>lgClose := pc, lgGw := g\<rparr>)" by (intro gw_step.closing) simp
  with Suc have "gw_run anyTime su l0 (?l\<lparr>lgClose := pc, lgGw := g\<rparr>)" using gw_run.go by blast
  then show ?case using pc by simp
qed (use assms in simp)

lemma run_reloading:
  assumes "gw_run anyTime su l0 l" "\<And>m. m < n \<Longrightarrow> reloading (fst ((reloadStep ^^ m) (lgWatch l, lgGw l)))"
    and "\<And>m. m < n \<Longrightarrow> \<not> storingMux (fst ((reloadStep ^^ m) (lgWatch l, lgGw l)))"
  shows "gw_run anyTime su l0 (l\<lparr>lgWatch := fst ((reloadStep ^^ n) (lgWatch l, lgGw l)), lgGw := snd ((reloadStep ^^ n) (lgWatch l, lgGw l))\<rparr>)"
  using assms(2,3)
proof (induction n)
  case 0
  then show ?case using assms(1) by simp
next
  case (Suc n)
  let ?l = "l\<lparr>lgWatch := fst ((reloadStep ^^ n) (lgWatch l, lgGw l)), lgGw := snd ((reloadStep ^^ n) (lgWatch l, lgGw l))\<rparr>"
  obtain pc g where pc: "reloadStep ((reloadStep ^^ n) (lgWatch l, lgGw l)) = (pc, g)"
    by (cases "reloadStep ((reloadStep ^^ n) (lgWatch l, lgGw l))")
  have "reloading (lgWatch ?l)" "\<not> storingMux (lgWatch ?l)" using Suc.prems by simp_all
  then have "gw_step su Watching ?l (?l\<lparr>lgWatch := pc, lgGw := g, lgInstalled := lgInstalled ?l @ []\<rparr>)"
    using pc by (intro gw_step.reload) (auto split: watch_pc.splits)
  moreover have "gw_run anyTime su l0 ?l" using Suc by simp
  ultimately have "gw_run anyTime su l0 (?l\<lparr>lgWatch := pc, lgGw := g, lgInstalled := lgInstalled ?l @ []\<rparr>)" using gw_run.go by blast
  then show ?case using pc by simp
qed

lemma reload_uninterrupted:
  "(reloadStep ^^ 9) (StoreMux b, g) = (Polling, install (bdConfig b) (bdMux b) (bdProbers b) (bdPlugins b) g)"
  by (simp add: eval_nat_numeral install_def startLogFlusher_def startProbers_def startGen_def storeHosts_def)

lemma close_uninterrupted: "(closeStep ^^ 8) (Open, g) = (Closed (gwPlugins g), fst (gatewayClose (g, s)))"
  by (simp add: eval_nat_numeral gatewayClose_def Let_def)

lemma stopped_forever:
  assumes "gw_run anyTime su l l'" "lgClose l = Closed ps" "lgWatch l = Returned"
  shows "lgGw l' = lgGw l \<and> lgClose l' = Closed ps \<and> lgWatch l' = Returned"
  using assms
proof (induction rule: gw_run.induct)
  case (go l l1 a l2)
  then show ?case by (auto elim!: gw_step.cases simp: reloading_def)
qed simp

text \<open>The process the sequential model starts is such a gateway.\<close>

lemma started_is_newly_live:
  assumes "started su ne nr file stat opts s st" "sugar_ok (suPlatform su) s"
  shows "\<exists>cfg pr. newly_live su cfg \<lparr>lgGw = gw st, lgWatch = Polling, lgClose = Open, lgFlights = (\<lambda>_. None),
    lgInstalled = [\<lparr>bdConfig = cfg, bdMux = gwMux (gw st), bdProbers = pr, bdPlugins = gwPlugins (gw st)\<rparr>]\<rparr>"
proof -
  note st = started_inv [OF assms]
  then have inv: "gateway_inv (suOptions su) (gw st)" by (simp add: process_inv_def)
  then obtain pr where "liveGens (gwProbers (gw st)) = [pr]"
    using st by (auto simp: gateway_inv_def length_Suc_conv)
  moreover obtain cfg where "loadConfig (suDecoder su) file = Inr cfg"
    "compileConfig (suPlatform su) (suParseURL su) cfg = Built (mapMux rtService (gwMux (gw st)))" "gwHosts (gw st) = set (configHosts cfg)"
    using st by (auto simp: servedTable_def)
  ultimately show ?thesis using inv st by (intro exI [of _ cfg] exI [of _ pr]) (auto simp: newly_live_def)
qed

section \<open>Properties\<close>

text \<open>
  C9: However reloads, requests and a shutdown interleave, down to their atomic operations, every request
  is routed by the whole table of one accepted configuration; the hosts on record are those of the
  table being served, or of the one before between the two stores of a reload.
\<close>

theorem requests_see_whole_tables:
  assumes "newly_live su cfg l0" "gw_run anyTime su l0 l"
  shows "(\<forall>b \<in> set (lgInstalled l). (\<exists>src. loadConfig (suDecoder su) src = Inr (bdConfig b)) \<and>
      compileConfig (suPlatform su) (suParseURL su) (bdConfig b) = Built (mapMux rtService (bdMux b))) \<and>
    lgInstalled l \<noteq> [] \<and> gwMux (lgGw l) = bdMux (last (lgInstalled l)) \<and>
    gwHosts (lgGw l) = set (configHosts (bdConfig (if storingHosts (lgWatch l) then last (butlast (lgInstalled l)) else last (lgInstalled l)))) \<and>
    (\<forall>k m. lgFlights l k = Some m \<longrightarrow> (\<exists>b \<in> set (lgInstalled l). m = bdMux b))"
  using served_inv_run [OF assms(2) served_inv_start [OF assms(1)]]
  unfolding served_inv_def accepted_def hostsOf_def by blast

text \<open>
  C15: Hot reload never leaks a generation and never leaves one out: until the gateway is closed there are
  at most two generations of probers and of log flushers, two only while a reload swaps them, and
  between reloads exactly the one of the configuration being served.
\<close>

theorem reload_swaps_generations:
  assumes "newly_live su cfg l0" "gw_run (\<lambda>l. lgClose l = Open) su l0 l"
  shows "length (liveGens (gwProbers (lgGw l))) \<in> {1, 2} \<and> length (liveGens (gwFlushers (lgGw l))) \<in> {1, 2} \<and>
    (\<not> reloading (lgWatch l) \<longrightarrow> (let b = last (lgInstalled l) in liveGens (gwProbers (lgGw l)) = [bdProbers b] \<and>
       liveGens (gwFlushers (lgGw l)) = [bdPlugins b] \<and> gwPlugins (lgGw l) = bdPlugins b))"
proof -
  have inv: "gens_inv l" using gens_inv_run [OF assms(2,1)] by blast
  obtain x where x: "swap_ok (proberSwap (lgWatch l)) x (bdProbers (last (lgInstalled l))) (gwProberCancel (lgGw l)) (gwProbers (lgGw l))"
    "\<not> probersPending (lgWatch l) \<longrightarrow> x = bdProbers (last (lgInstalled l))"
    using inv by (auto simp: gens_inv_def proberGens_def Let_def)
  obtain y where y: "swap_ok (flusherSwap (lgWatch l)) y (bdPlugins (last (lgInstalled l))) (gwFlusherCancel (lgGw l)) (gwFlushers (lgGw l))"
    "\<not> flusherPending (lgWatch l) \<longrightarrow> y = bdPlugins (last (lgInstalled l))"
    using inv by (auto simp: gens_inv_def flusherGens_def Let_def)
  have "\<not> reloading (lgWatch l) \<Longrightarrow> \<not> probersPending (lgWatch l) \<and> \<not> flusherPending (lgWatch l) \<and> \<not> pluginsPending (lgWatch l) \<and>
      proberSwap (lgWatch l) = Steady \<and> flusherSwap (lgWatch l) = Steady"
    by (cases "lgWatch l") (auto simp: reloading_def)
  then show ?thesis using swap_live [OF x(1)] swap_live [OF y(1)] x(2) y(2) inv by (auto simp: gens_inv_def Let_def)
qed

text \<open>
  C16: A shutdown that no reload overlaps stops everything: when \<open>Close\<close> has returned and no reload was
  under way at any moment since it began, no prober and no log flusher is left, and the plugins that
  got the final flush are those of the configuration being served.
\<close>

theorem quiet_close_stops_all:
  assumes "newly_live su cfg l0" "gw_run quiet su l0 l" "lgClose l = Closed ps"
  shows "liveGens (gwProbers (lgGw l)) = [] \<and> liveGens (gwFlushers (lgGw l)) = [] \<and> ps = bdPlugins (last (lgInstalled l))"
  using quiet_run [OF assms(2,1)] assms(3) by (auto simp: close_inv_def close_state_def)

text \<open>
  Cut into its atomic operations, a reload or a shutdown that nothing interrupts does what the
  sequential model says: \<open>install\<close> after nine steps, \<open>gatewayClose\<close> after eight.
\<close>

lemma steps_refine_gateway:
  "(reloadStep ^^ 9) (StoreMux b, g) = (Polling, install (bdConfig b) (bdMux b) (bdProbers b) (bdPlugins b) g) \<and>
   (closeStep ^^ 8) (Open, g) = (Closed (gwPlugins g), fst (gatewayClose (g, s)))"
  by (rule conjI [OF reload_uninterrupted close_uninterrupted])

text \<open>
  C34: \<open>Close\<close> does not wait for the watcher: when it begins while a reload has built its mux and
  not yet stored it, there is a run in which \<open>Close\<close> returns, having flushed the plugins of the old
  configuration, the watcher returns, and the new configuration's probers and log flusher are left
  running, never to be cancelled.
\<close>

theorem close_races_reload:
  assumes "newly_live su cfg l0" "gw_run (\<lambda>l. lgClose l = Open) su l0 l" "lgWatch l = StoreMux b"
  shows "\<exists>l'. gw_run anyTime su l l' \<and> lgClose l' = Closed (gwPlugins (lgGw l)) \<and> lgWatch l' = Returned \<and>
    (\<forall>l''. gw_run anyTime su l' l'' \<longrightarrow> liveGens (gwProbers (lgGw l'')) = [bdProbers b] \<and> liveGens (gwFlushers (lgGw l'')) = [bdPlugins b])"
proof -
  have opened: "lgClose l = Open" using gw_run_end [OF assms(2)] .
  have inv: "gens_inv l" using gens_inv_run [OF assms(2,1)] by blast
  let ?g = "lgGw l" and ?gw = "fst (gatewayClose (lgGw l, undefined :: metrics_world))"
  have p: "gens_ok (gwProberCancel ?g) (gwProbers ?g)" and f: "gens_ok (gwFlusherCancel ?g) (gwFlushers ?g)"
    using inv assms(3) by (simp_all add: gens_inv_def proberGens_def flusherGens_def Let_def)
  then have ok: "gens_ok (gwProberCancel ?gw) (gwProbers ?gw)" "gens_ok (gwFlusherCancel ?gw) (gwFlushers ?gw)"
    using cancelCur_ok [OF p] cancelCur_ok [OF f] by (simp_all add: gatewayClose_def Let_def)
  have unwatched: "\<not> gwWatching ?gw" by (simp add: gatewayClose_def Let_def)
  define g2 where "g2 = install (bdConfig b) (bdMux b) (bdProbers b) (bdPlugins b) ?gw"
  have live: "liveGens (gwProbers g2) = [bdProbers b]" "liveGens (gwFlushers g2) = [bdPlugins b]" "\<not> gwWatching g2"
    using install_gens [OF ok g2_def] unwatched by (simp_all add: g2_def)
  define l1 where "l1 = l\<lparr>lgClose := Closed (gwPlugins ?g), lgGw := ?gw\<rparr>"
  have 1: "gw_run anyTime su l l1"
    using run_closing [OF gw_run.stay [where P = anyTime and l = l and su = su], of 8] close_uninterrupted [of ?g "undefined :: metrics_world"] opened by (simp add: l1_def)
  define l2 where "l2 = l1\<lparr>lgWatch := StoreHosts b, lgGw := ?gw\<lparr>gwMux := bdMux b\<rparr>, lgInstalled := lgInstalled l @ [b]\<rparr>"
  have "gw_step su Watching l1 (l1\<lparr>lgWatch := StoreHosts b, lgGw := ?gw\<lparr>gwMux := bdMux b\<rparr>, lgInstalled := lgInstalled l1 @ [b]\<rparr>)"
    using assms(3) by (intro gw_step.reload) (simp_all add: l1_def reloading_def)
  then have 2: "gw_run anyTime su l l2" using gw_run.go [OF 1] by (simp add: l1_def l2_def)
  have steps: "(reloadStep ^^ 8) (StoreHosts b, ?gw\<lparr>gwMux := bdMux b\<rparr>) = (Polling, g2)"
    using reload_uninterrupted [of b ?gw] funpow_Suc_right [of 8 reloadStep] by (simp add: g2_def)
  have "gw_run anyTime su l (l2\<lparr>lgWatch := fst ((reloadStep ^^ 8) (lgWatch l2, lgGw l2)), lgGw := snd ((reloadStep ^^ 8) (lgWatch l2, lgGw l2))\<rparr>)"
  proof (rule run_reloading [OF 2])
    fix m :: nat
    assume "m < 8"
    then have m: "m \<in> {0, 1, 2, 3, 4, 5, 6, 7}" by auto
    show "reloading (fst ((reloadStep ^^ m) (lgWatch l2, lgGw l2)))" "\<not> storingMux (fst ((reloadStep ^^ m) (lgWatch l2, lgGw l2)))"
      using m by (auto simp: l2_def eval_nat_numeral reloading_def)
  qed
  then have 3: "gw_run anyTime su l (l2\<lparr>lgWatch := Polling, lgGw := g2\<rparr>)" using steps by (simp add: l2_def)
  define l' where "l' = l2\<lparr>lgWatch := Polling, lgGw := g2, lgWatch := Returned\<rparr>"
  have "gw_step su Watching (l2\<lparr>lgWatch := Polling, lgGw := g2\<rparr>) ((l2\<lparr>lgWatch := Polling, lgGw := g2\<rparr>)\<lparr>lgWatch := Returned\<rparr>)"
    using live(3) by (intro gw_step.returned) simp_all
  then have 4: "gw_run anyTime su l l'" using gw_run.go [OF 3] by (simp add: l'_def)
  have "lgClose l' = Closed (gwPlugins ?g)" "lgWatch l' = Returned" "lgGw l' = g2" by (simp_all add: l'_def l2_def l1_def)
  then show ?thesis using 4 live stopped_forever by metis
qed

section \<open>Witnesses\<close>

definition demo_built :: built where
  "demo_built = \<lparr>bdConfig = demo_config, bdMux = [(demo_pattern, demo_route)], bdProbers = [], bdPlugins = [RequestSizeLimiting 1, HttpLog 0]\<rparr>"

definition demo_live :: live_gateway where
  "demo_live = \<lparr>lgGw = demo_gateway, lgWatch = Polling, lgClose = Open, lgFlights = (\<lambda>_. None), lgInstalled = [demo_built]\<rparr>"

lemma demo_newly_live: "newly_live demo_deps demo_config demo_live"
proof -
  have "gateway_inv (suOptions demo_deps) demo_gateway" using demo_inv(1) by (simp add: process_inv_def demo_process_def)
  moreover have "liveGens (gwProbers demo_gateway) = [[]]" "gwMux demo_gateway = [(demo_pattern, demo_route)]"
    "gwPlugins demo_gateway = [RequestSizeLimiting 1, HttpLog 0]" "gwHosts demo_gateway = set (configHosts demo_config)" "gwWatching demo_gateway"
    by (simp_all add: demo_gateway_def install_def startLogFlusher_def startProbers_def startGen_def cancelCur_def emptyGateway_def liveGens_def
        storeHosts_def)
  moreover have "mapMux rtService [(demo_pattern, demo_route)] = [(demo_pattern, demo_log_service)]"
    by (simp add: mapMux_def demo_route_def)
  ultimately show ?thesis
    using demo_loads(1) demo_compiles by (auto simp: newly_live_def demo_live_def demo_built_def demo_deps_def)
qed

text \<open>The same file is read again.\<close>

definition demo_reloading :: live_gateway where
  "demo_reloading = demo_live\<lparr>lgWatch := StoreMux demo_built\<rparr>"

lemma demo_reload_run: "gw_run (\<lambda>l. lgClose l = Open) demo_deps demo_live demo_reloading"
proof -
  have "gw_step demo_deps Watching demo_live demo_reloading"
    unfolding demo_reloading_def demo_built_def
  proof (rule gw_step.loaded)
    show "lgWatch demo_live = Polling" by (simp add: demo_live_def)
    show "loadConfig (suDecoder demo_deps) (Inr ''one'') = Inr demo_config" using demo_loads(1) by (simp add: demo_deps_def)
    show "buildMux (suPlatform demo_deps) (suParseURL demo_deps) (suOptions demo_deps) demo_config demo_metrics_world =
        (Built [(demo_pattern, demo_route)], ([], [RequestSizeLimiting 1, HttpLog 0], demo_gw_world))"
      using demo_build by (simp add: demo_deps_def)
    show "sugar_ok (suPlatform demo_deps) demo_metrics_world" using demo_sugar by (simp add: demo_deps_def)
  qed
  then show ?thesis
    using gw_run.go [OF gw_run.stay, of "\<lambda>l. lgClose l = Open" demo_live demo_deps Watching demo_reloading]
    by (simp add: demo_live_def demo_reloading_def)
qed

lemma gw_run_any: "gw_run P su l l' \<Longrightarrow> gw_run anyTime su l l'"
  by (induction rule: gw_run.induct) (auto intro: gw_run.intros)

theorem requests_see_whole_tables_witness:
  "gwMux (lgGw demo_reloading) = [(demo_pattern, demo_route)] \<and> gwHosts (lgGw demo_reloading) = set (configHosts demo_config)"
  using requests_see_whole_tables [OF demo_newly_live gw_run_any [OF demo_reload_run]]
  by (simp add: demo_reloading_def demo_live_def demo_built_def)

theorem reload_swaps_generations_witness: "length (liveGens (gwProbers (lgGw demo_reloading))) \<in> {1, 2}"
  using reload_swaps_generations [OF demo_newly_live demo_reload_run] by blast

theorem quiet_close_stops_all_witness:
  "liveGens (gwFlushers (snd ((closeStep ^^ 8) (Open, demo_gateway)))) = []"
proof -
  let ?P = "quiet" and ?l = "\<lambda>n. demo_live\<lparr>lgClose := fst ((closeStep ^^ n) (Open, demo_gateway)), lgGw := snd ((closeStep ^^ n) (Open, demo_gateway))\<rparr>"
  have "gw_run quiet demo_deps demo_live (?l n)" for n
  proof (induction n)
    case 0
    have "?l 0 = demo_live" by (simp add: demo_live_def)
    moreover have "quiet demo_live" by (simp add: quiet_def demo_live_def)
    ultimately show ?case using gw_run.stay by metis
  next
    case (Suc n)
    have "gw_step demo_deps Closing (?l n) (?l (Suc n))"
      using gw_step.closing [of "?l n" "fst ((closeStep ^^ Suc n) (Open, demo_gateway))" "snd ((closeStep ^^ Suc n) (Open, demo_gateway))"]
      by simp
    moreover have "quiet (?l (Suc n))" by (simp add: quiet_def demo_live_def reloading_def)
    ultimately show ?case using gw_run.go [OF Suc] by blast
  qed
  moreover have "lgClose (?l 8) = Closed (gwPlugins demo_gateway)" using close_uninterrupted [of demo_gateway "undefined :: metrics_world"] by simp
  ultimately show ?thesis using quiet_close_stops_all [OF demo_newly_live] by fastforce
qed

theorem close_races_reload_witness:
  "\<exists>l'. gw_run anyTime demo_deps demo_reloading l' \<and> lgWatch l' = Returned \<and>
    liveGens (gwFlushers (lgGw l')) = [[RequestSizeLimiting 1, HttpLog 0]]"
proof -
  have "lgWatch demo_reloading = StoreMux demo_built" by (simp add: demo_reloading_def)
  from close_races_reload [OF demo_newly_live demo_reload_run this] obtain l' where
    "gw_run anyTime demo_deps demo_reloading l'" "lgWatch l' = Returned"
    "\<forall>l''. gw_run anyTime demo_deps l' l'' \<longrightarrow> liveGens (gwFlushers (lgGw l'')) = [bdPlugins demo_built]" by blast
  then show ?thesis using gw_run.stay [of anyTime l' demo_deps] by (intro exI [of _ l']) (simp add: demo_built_def)
qed

end
