(* ===== verification/Plugin_Types.thy ===== *)
theory Plugin_Types
  imports Gateway_Build
begin

text \<open>
  The types of plugin configurations. A configuration map comes out of the YAML decoder without
  types, and each constructor checks what it reads. Here is what those checks come to as a typing
  judgement on YAML values and a schema per plugin, and what holds of every instance that was built.
\<close>

section \<open>Types of configuration values\<close>

datatype ty = TString | TNumber | TList ty | TMap ty | TNullable ty

inductive has_type :: "yaml \<Rightarrow> ty \<Rightarrow> bool" where
  string: "has_type (YString s) TString"
| int: "has_type (YInt n) TNumber"
| int64: "has_type (YInt64 n) TNumber"
| float: "has_type (YFloat x) TNumber"
| list: "(\<And>v. v \<in> set vs \<Longrightarrow> has_type v t) \<Longrightarrow> has_type (YList vs) (TList t)"
| map: "(\<And>k v. (k, v) \<in> set m \<Longrightarrow> has_type v t) \<Longrightarrow> has_type (YMap m) (TMap t)"
| null: "has_type YNull (TNullable t)"
| present: "has_type v t \<Longrightarrow> has_type v (TNullable t)"

inductive_simps has_type_simps [simp]:
  "has_type v TString" "has_type v TNumber" "has_type v (TList t)" "has_type v (TMap t)" "has_type v (TNullable t)"

fun intOf :: "yaml \<Rightarrow> int" where
  "intOf (YInt n) = n" | "intOf (YInt64 n) = n" | "intOf (YFloat x) = f64ToInt x" | "intOf _ = 0"

fun floatOf :: "yaml \<Rightarrow> f64" where
  "floatOf (YInt n) = intToF64 n" | "floatOf (YInt64 n) = intToF64 n" | "floatOf (YFloat x) = x" | "floatOf _ = 0"

fun stringOf :: "yaml \<Rightarrow> string" where
  "stringOf (YString s) = s" | "stringOf _ = []"

fun itemsOf :: "yaml \<Rightarrow> yaml list" where
  "itemsOf (YList vs) = vs" | "itemsOf _ = []"

fun fieldsOf :: "yaml \<Rightarrow> cfgmap" where
  "fieldsOf (YMap m) = m" | "fieldsOf _ = []"

definition optional :: "cfgmap \<Rightarrow> string \<Rightarrow> (yaml \<Rightarrow> bool) \<Rightarrow> bool" where
  "optional cfg key ok \<longleftrightarrow> (case map_of cfg key of None \<Rightarrow> True | Some v \<Rightarrow> ok v)"

definition required :: "cfgmap \<Rightarrow> string \<Rightarrow> (yaml \<Rightarrow> bool) \<Rightarrow> bool" where
  "required cfg key ok \<longleftrightarrow> (case map_of cfg key of None \<Rightarrow> False | Some v \<Rightarrow> ok v)"

abbreviation strings :: "yaml \<Rightarrow> bool" where
  "strings v \<equiv> has_type v (TNullable (TList TString))"

abbreviation stringFields :: "yaml \<Rightarrow> bool" where
  "stringFields v \<equiv> has_type v (TNullable (TMap TString))"

text \<open>A rule of \<open>response_headers\<close>.\<close>

definition wt_rule :: "yaml \<Rightarrow> bool" where
  "wt_rule v \<longleftrightarrow> (\<exists>m. v = YMap m \<and> required m ''content_type'' (\<lambda>c. has_type c TString \<and> stringOf c \<noteq> []) \<and>
     required m ''headers'' (\<lambda>h. has_type h (TMap TString) \<and> fieldsOf h \<noteq> []))"

text \<open>
  The schema of each plugin. A \<open>mode\<close> or \<open>allow_credentials\<close> of another type is read as if it were
  not there, so neither has a type here.
\<close>

definition wt_plugin :: "platform \<Rightarrow> string \<Rightarrow> cfgmap \<Rightarrow> bool" where
  "wt_plugin pf name cfg \<longleftrightarrow>
     name = ''add_header'' \<and> optional cfg ''headers'' stringFields \<or>
     name = ''http_log'' \<or>
     name = ''request_size_limiting'' \<and> required cfg ''max_bytes'' (\<lambda>v. has_type v TNumber \<and> 0 < intOf v) \<or>
     name = ''jwt_auth'' \<and> required cfg ''secret_env'' (\<lambda>v. has_type v TString \<and> stringOf v \<noteq> [] \<and> osGetenv pf (stringOf v) \<noteq> []) \<or>
     name = ''cors'' \<and> required cfg ''allowed_origins'' (\<lambda>v. has_type v (TList TString) \<and> itemsOf v \<noteq> [] \<and>
         (map_of cfg ''allow_credentials'' = Some (YBool True) \<longrightarrow> YString ''*'' \<notin> set (itemsOf v))) \<and>
       optional cfg ''allowed_methods'' strings \<and> optional cfg ''allowed_headers'' strings \<and>
       optional cfg ''max_age'' (\<lambda>v. has_type v TNumber) \<or>
     name = ''response_headers'' \<and> optional cfg ''headers'' stringFields \<and>
       optional cfg ''rules'' (\<lambda>v. v = YNull \<or> (\<exists>rs. v = YList rs \<and> (\<forall>r \<in> set rs. wt_rule r))) \<or>
     name = ''rate_limiting'' \<and> required cfg ''requests_per_second'' (\<lambda>v. has_type v TNumber \<and> \<not> floatOf v \<le> 0) \<and>
       optional cfg ''burst'' (\<lambda>v. has_type v TNumber \<and> \<not> floatOf v < 1) \<and>
       (cfgString cfg ''mode'' \<in> {[], ''memory''} \<or> cfgString cfg ''mode'' = ''distributed'' \<and> errorOf (sugarOutcome pf) = None)"

text \<open>What a built instance is like.\<close>

fun plugin_wf :: "plugin \<Rightarrow> bool" where
  "plugin_wf (RequestSizeLimiting n) \<longleftrightarrow> 0 < n"
| "plugin_wf (JwtAuth secret) \<longleftrightarrow> secret \<noteq> []"
| "plugin_wf (Cors p) \<longleftrightarrow> allowedOrigins p \<noteq> [] \<and> \<not> (allowCredentials p \<and> ''*'' \<in> set (allowedOrigins p))"
| "plugin_wf (ResponseHeaders p) \<longleftrightarrow> (\<forall>r \<in> set (rhRules p). contentType r \<noteq> [] \<and> ruleHeaders r \<noteq> [])"
| "plugin_wf (RateLimiting p) \<longleftrightarrow> \<not> rlRequestsPerSecond p \<le> 0 \<and> (rlBurst p = rlRequestsPerSecond p \<or> \<not> rlBurst p < 1)"
| "plugin_wf (AddHeader hs) \<longleftrightarrow> True"
| "plugin_wf (HttpLog i) \<longleftrightarrow> True"

section \<open>What the readers accept\<close>

lemma errorOf_None_iff: "errorOf x = None \<longleftrightarrow> (\<exists>y. x = Inr y)"
  by (cases x) auto

lemma errorOf_bindE: "errorOf (bindE x f) = None \<longleftrightarrow> (\<exists>y. x = Inr y \<and> errorOf (f y) = None)"
  by (cases x) auto

lemma errorOf_bindE_Inr: "errorOf (bindE x (\<lambda>y. Inr (f y))) = None \<longleftrightarrow> errorOf x = None"
  by (cases x) auto

lemma mapE_total: "errorOf (mapE f xs) = None \<longleftrightarrow> (\<forall>x \<in> set xs. errorOf (f x) = None)"
proof (induction xs)
  case (Cons x xs)
  then show ?case by (cases "f x"; cases "mapE f xs") auto
qed simp

lemma mapE_in: "mapE f xs = Inr ys \<Longrightarrow> y \<in> set ys \<Longrightarrow> \<exists>x \<in> set xs. f x = Inr y"
proof (induction xs arbitrary: ys)
  case (Cons x xs)
  then show ?case by (auto simp: bindE_Inr_iff)
qed simp

lemma mapE_empty: "mapE f xs = Inr ys \<Longrightarrow> ys = [] \<longleftrightarrow> xs = []"
  by (auto simp: mapE_Inr_iff)

lemma entryString_iff: "entryString e v = Inr s \<longleftrightarrow> v = YString s"
  by (cases v) (auto simp: entryString_def)

lemma entryString_ok: "errorOf (entryString e v) = None \<longleftrightarrow> has_type v TString"
  by (auto simp: errorOf_None_iff entryString_iff)

lemma toInt64_iff: "toInt64 f v = Inr n \<longleftrightarrow> has_type v TNumber \<and> n = intOf v"
  by (cases v) (auto simp: toInt64_def)

lemma toFloat64_iff: "toFloat64 f v = Inr x \<longleftrightarrow> has_type v TNumber \<and> x = floatOf v"
  by (cases v) (auto simp: toFloat64_def)

lemma stringMap_ok: "errorOf (stringMap raw f) = None \<longleftrightarrow> (case raw of None \<Rightarrow> True | Some v \<Rightarrow> stringFields v)"
proof (cases raw)
  case (Some v)
  then show ?thesis
    by (cases v) (auto simp: stringMap_def mapE_total errorOf_bindE entryString_iff)
qed (simp add: stringMap_def)

lemma stringMap_nonempty:
  "(\<exists>hs. stringMap raw f = Inr hs \<and> hs \<noteq> []) \<longleftrightarrow> (case raw of None \<Rightarrow> False | Some v \<Rightarrow> has_type v (TMap TString) \<and> fieldsOf v \<noteq> [])"
proof (cases raw)
  case (Some v)
  show ?thesis
  proof (cases v)
    case (YMap m)
    have "(\<exists>hs. stringMap raw f = Inr hs \<and> hs \<noteq> []) \<longleftrightarrow> errorOf (stringMap raw f) = None \<and> m \<noteq> []"
      using Some YMap by (auto simp: stringMap_def errorOf_None_iff dest: mapE_empty)
    then show ?thesis using stringMap_ok [of raw f] Some YMap by simp
  qed (use Some in \<open>simp_all add: stringMap_def\<close>)
qed (simp add: stringMap_def)

lemma toStringSlice_ok: "errorOf (toStringSlice cfg key) = None \<longleftrightarrow> optional cfg key strings"
proof (cases "map_of cfg key")
  case (Some v)
  then show ?thesis by (cases v) (auto simp: toStringSlice_def optional_def mapE_total entryString_ok)
qed (simp add: toStringSlice_def optional_def)

lemma mapE_entryString: "mapE (entryString e) vs = Inr ss \<longleftrightarrow> vs = map YString ss"
  by (auto simp: mapE_Inr_iff entryString_iff list_all2_conv_all_nth list_eq_iff_nth_eq)

lemma toStringSlice_nonempty:
  "toStringSlice cfg key = Inr ss \<and> ss \<noteq> [] \<longleftrightarrow> ss \<noteq> [] \<and> map_of cfg key = Some (YList (map YString ss))"
proof (cases "map_of cfg key")
  case (Some v)
  then show ?thesis by (cases v) (auto simp: toStringSlice_def mapE_entryString)
qed (simp add: toStringSlice_def)

lemma cfgString_nonempty: "cfgString cfg key \<noteq> [] \<longleftrightarrow> required cfg key (\<lambda>v. has_type v TString \<and> stringOf v \<noteq> [])"
  by (auto simp: cfgString_def required_def split: option.splits yaml.splits)

section \<open>What the constructors accept\<close>

lemma addHeader_ok: "errorOf (newAddHeader cfg) = None \<longleftrightarrow> optional cfg ''headers'' stringFields"
proof -
  have "newAddHeader cfg = stringMap (map_of cfg ''headers'') ''headers''"
    by (simp add: newAddHeader_def stringMap_def split: option.splits yaml.splits)
  then show ?thesis by (simp only: stringMap_ok optional_def)
qed

lemma sizeLimit_ok:
  "newRequestSizeLimiting cfg = Inr n \<longleftrightarrow> required cfg ''max_bytes'' (\<lambda>v. has_type v TNumber \<and> 0 < intOf v \<and> n = intOf v)"
  by (auto simp: newRequestSizeLimiting_def required_def bindE_Inr_iff toInt64_iff split: option.splits simp del: has_type_simps)

lemma jwt_ok:
  "newJWTAuth getenv cfg = Inr secret \<longleftrightarrow> required cfg ''secret_env''
     (\<lambda>v. has_type v TString \<and> stringOf v \<noteq> [] \<and> getenv (stringOf v) \<noteq> [] \<and> secret = getenv (stringOf v))"
  by (auto simp: newJWTAuth_def required_def cfgString_def Let_def split: option.splits yaml.splits)

lemma rule_ok: "errorOf (newResponseHeaderRule i v) = None \<longleftrightarrow> wt_rule v"
proof (cases v)
  case (YMap m)
  have "errorOf (newResponseHeaderRule i v) = None \<longleftrightarrow> cfgString m ''content_type'' \<noteq> [] \<and>
      (\<exists>hs. stringMap (map_of m ''headers'') ''rules.headers'' = Inr hs \<and> hs \<noteq> [])"
    using YMap by (auto simp: newResponseHeaderRule_def errorOf_bindE Let_def split: if_splits)
  then show ?thesis
    using YMap cfgString_nonempty [of m "''content_type''"] stringMap_nonempty [of "map_of m ''headers''" "''rules.headers''"]
    by (auto simp: wt_rule_def required_def split: option.splits)
qed (simp_all add: newResponseHeaderRule_def wt_rule_def)

lemma rule_wf: "newResponseHeaderRule i v = Inr r \<Longrightarrow> contentType r \<noteq> [] \<and> ruleHeaders r \<noteq> []"
  by (auto simp: newResponseHeaderRule_def bindE_Inr_iff toLower_def Let_def split: yaml.splits if_splits)

lemma responseHeaders_ok:
  "errorOf (newResponseHeaders cfg) = None \<longleftrightarrow> optional cfg ''headers'' stringFields \<and>
     optional cfg ''rules'' (\<lambda>v. v = YNull \<or> (\<exists>rs. v = YList rs \<and> (\<forall>r \<in> set rs. wt_rule r)))"
proof -
  have rules: "(\<forall>x \<in> set (enumerate 0 rs). errorOf (case x of (i, item) \<Rightarrow> newResponseHeaderRule i item) = None) \<longleftrightarrow>
      (\<forall>r \<in> set rs. wt_rule r)" for rs
  proof -
    have "snd ` set (enumerate 0 rs) = set rs" by (metis map_snd_enumerate set_map)
    moreover have "(\<forall>x \<in> set (enumerate 0 rs). errorOf (case x of (i, item) \<Rightarrow> newResponseHeaderRule i item) = None) \<longleftrightarrow>
        (\<forall>r \<in> snd ` set (enumerate 0 rs). wt_rule r)"
      by (simp add: rule_ok split_beta)
    ultimately show ?thesis by simp
  qed
  have body: "errorOf (case map_of cfg ''rules'' of
         None \<Rightarrow> Inr \<lparr>rhHeaders = headers, rhRules = []\<rparr>
       | Some YNull \<Rightarrow> Inr \<lparr>rhHeaders = headers, rhRules = []\<rparr>
       | Some (YList items) \<Rightarrow>
           bindE (mapE (\<lambda>(i, item). newResponseHeaderRule i item) (enumerate 0 items))
             (\<lambda>rules. Inr \<lparr>rhHeaders = headers, rhRules = rules\<rparr>)
       | Some _ \<Rightarrow> Inl (NotAList ''rules'')) = None \<longleftrightarrow>
     optional cfg ''rules'' (\<lambda>v. v = YNull \<or> (\<exists>rs. v = YList rs \<and> (\<forall>r \<in> set rs. wt_rule r)))" for headers
  proof (cases "map_of cfg ''rules''")
    case (Some v)
    show ?thesis
    proof (cases v)
      case (YList rs)
      have "errorOf (mapE (\<lambda>(i, item). newResponseHeaderRule i item) (enumerate 0 rs)) = None \<longleftrightarrow> (\<forall>r \<in> set rs. wt_rule r)"
        using rules [of rs] by (simp only: mapE_total)
      then show ?thesis using Some YList by (simp add: optional_def errorOf_bindE_Inr)
    qed (use Some in \<open>simp_all add: optional_def\<close>)
  qed (simp add: optional_def)
  have "errorOf (newResponseHeaders cfg) = None \<longleftrightarrow> errorOf (stringMap (map_of cfg ''headers'') ''headers'') = None \<and>
     optional cfg ''rules'' (\<lambda>v. v = YNull \<or> (\<exists>rs. v = YList rs \<and> (\<forall>r \<in> set rs. wt_rule r)))"
    unfolding newResponseHeaders_def errorOf_bindE body by (auto simp: errorOf_None_iff)
  then show ?thesis unfolding stringMap_ok optional_def [of cfg "''headers''"] .
qed

lemma responseHeaders_wf:
  assumes "newResponseHeaders cfg = Inr p"
  shows "plugin_wf (ResponseHeaders p)"
proof -
  have "contentType r \<noteq> [] \<and> ruleHeaders r \<noteq> []"
    if "mapE (\<lambda>(i, item). newResponseHeaderRule i item) xs = Inr rs" "r \<in> set rs" for xs rs r
    using mapE_in [OF that] rule_wf by (auto split: prod.splits)
  then show ?thesis using assms
    unfolding newResponseHeaders_def bindE_Inr_iff
    by (elim exE conjE; cases "map_of cfg ''rules''")
      (auto simp: bindE_Inr_iff simp del: has_type_simps split: yaml.split_asm)
qed

lemma cors_ok:
  "errorOf (newCORS cfg) = None \<longleftrightarrow> wt_plugin pf ''cors'' cfg"
proof -
  let ?cred = "case map_of cfg ''allow_credentials'' of Some (YBool b) \<Rightarrow> b | _ \<Rightarrow> False"
  have cred: "?cred \<longleftrightarrow> map_of cfg ''allow_credentials'' = Some (YBool True)" by (auto split: option.splits yaml.splits)
  have age: "errorOf (case map_of cfg ''max_age'' of None \<Rightarrow> Inr []
      | Some raw \<Rightarrow> bindE (toInt64 ''max_age'' raw) (\<lambda>seconds. Inr (itoa seconds))) = None \<longleftrightarrow> optional cfg ''max_age'' (\<lambda>v. has_type v TNumber)"
    by (auto simp: optional_def errorOf_bindE toInt64_iff simp del: has_type_simps split: option.splits)
  have orig: "required cfg ''allowed_origins'' (\<lambda>v. has_type v (TList TString) \<and> itemsOf v \<noteq> [] \<and> (cr \<longrightarrow> YString ''*'' \<notin> set (itemsOf v)))
      \<longleftrightarrow> (\<exists>ss. toStringSlice cfg ''allowed_origins'' = Inr ss \<and> ss \<noteq> [] \<and> (cr \<longrightarrow> ''*'' \<notin> set ss))" for cr
  proof
    assume "required cfg ''allowed_origins'' (\<lambda>v. has_type v (TList TString) \<and> itemsOf v \<noteq> [] \<and> (cr \<longrightarrow> YString ''*'' \<notin> set (itemsOf v)))"
    then obtain vs where vs: "map_of cfg ''allowed_origins'' = Some (YList vs)" "\<forall>v \<in> set vs. \<exists>s. v = YString s" "vs \<noteq> []"
      "cr \<longrightarrow> YString ''*'' \<notin> set vs"
      by (auto simp: required_def split: option.splits)
    have "map YString (map stringOf vs) = vs" using vs(2) by (auto intro!: map_idI)
    then have "toStringSlice cfg ''allowed_origins'' = Inr (map stringOf vs) \<and> map stringOf vs \<noteq> []"
      using vs(1,3) by (subst toStringSlice_nonempty) simp
    moreover have "cr \<longrightarrow> ''*'' \<notin> set (map stringOf vs)" using vs(2,4) by auto
    ultimately show "\<exists>ss. toStringSlice cfg ''allowed_origins'' = Inr ss \<and> ss \<noteq> [] \<and> (cr \<longrightarrow> ''*'' \<notin> set ss)" by blast
  next
    assume "\<exists>ss. toStringSlice cfg ''allowed_origins'' = Inr ss \<and> ss \<noteq> [] \<and> (cr \<longrightarrow> ''*'' \<notin> set ss)"
    then obtain ss where "ss \<noteq> []" "cr \<longrightarrow> ''*'' \<notin> set ss" "map_of cfg ''allowed_origins'' = Some (YList (map YString ss))"
      using toStringSlice_nonempty by blast
    then show "required cfg ''allowed_origins'' (\<lambda>v. has_type v (TList TString) \<and> itemsOf v \<noteq> [] \<and> (cr \<longrightarrow> YString ''*'' \<notin> set (itemsOf v)))"
      by (auto simp: required_def)
  qed
  have "errorOf (newCORS cfg) = None \<longleftrightarrow> (\<exists>ss. toStringSlice cfg ''allowed_origins'' = Inr ss \<and> ss \<noteq> [] \<and> (?cred \<longrightarrow> ''*'' \<notin> set ss)) \<and>
      errorOf (toStringSlice cfg ''allowed_methods'') = None \<and> errorOf (toStringSlice cfg ''allowed_headers'') = None \<and>
      errorOf (case map_of cfg ''max_age'' of None \<Rightarrow> Inr []
        | Some raw \<Rightarrow> bindE (toInt64 ''max_age'' raw) (\<lambda>seconds. Inr (itoa seconds))) = None"
    unfolding newCORS_def Let_def
    by (cases "toStringSlice cfg ''allowed_origins''"; cases "toStringSlice cfg ''allowed_methods''"; cases "toStringSlice cfg ''allowed_headers''")
      (simp_all add: errorOf_bindE errorOf_None_iff [of "case x of None \<Rightarrow> y | Some z \<Rightarrow> h z" for x y h])
  then show ?thesis
    unfolding age cred toStringSlice_ok orig [symmetric] by (simp add: wt_plugin_def del: has_type_simps)
qed

lemma cors_wf:
  assumes "newCORS cfg = Inr p"
  shows "plugin_wf (Cors p)"
  using assms by (auto simp: newCORS_def bindE_Inr_iff Let_def split: if_splits)

lemma rateAndBurst_iff:
  "rateAndBurst cfg = Inr (rps, burst) \<longleftrightarrow>
     required cfg ''requests_per_second'' (\<lambda>v. has_type v TNumber \<and> \<not> floatOf v \<le> 0 \<and> rps = floatOf v) \<and>
     (case map_of cfg ''burst'' of None \<Rightarrow> burst = rps | Some b \<Rightarrow> has_type b TNumber \<and> \<not> floatOf b < 1 \<and> burst = floatOf b)"
  by (auto simp: rateAndBurst_def required_def bindE_Inr_iff toFloat64_iff simp del: has_type_simps f64_ops split: option.splits)

lemma rate_ok:
  "errorOf (rateAndBurst cfg) = None \<longleftrightarrow> required cfg ''requests_per_second'' (\<lambda>v. has_type v TNumber \<and> \<not> floatOf v \<le> 0) \<and>
     optional cfg ''burst'' (\<lambda>v. has_type v TNumber \<and> \<not> floatOf v < 1)"
  by (auto simp: errorOf_None_iff rateAndBurst_iff required_def optional_def simp del: has_type_simps f64_ops split: option.splits)

text \<open>The check of a plugin declaration is its type check.\<close>

lemma pluginCheck_typed: "pluginCheck pf pc = None \<longleftrightarrow> wt_plugin pf (pcName pc) (pcConfig pc)"
proof -
  let ?cfg = "pcConfig pc"
  have size: "errorOf (newRequestSizeLimiting ?cfg) = None \<longleftrightarrow> required ?cfg ''max_bytes'' (\<lambda>v. has_type v TNumber \<and> 0 < intOf v)"
    by (simp add: errorOf_None_iff sizeLimit_ok required_def del: has_type_simps split: option.splits)
  have jwt: "errorOf (newJWTAuth (osGetenv pf) ?cfg) = None \<longleftrightarrow> required ?cfg ''secret_env''
      (\<lambda>v. has_type v TString \<and> stringOf v \<noteq> [] \<and> osGetenv pf (stringOf v) \<noteq> [])"
    by (simp add: errorOf_None_iff jwt_ok required_def del: has_type_simps split: option.splits)
  have rate: "rateLimitingCheck pf ?cfg = None \<longleftrightarrow> errorOf (rateAndBurst ?cfg) = None \<and>
      (cfgString ?cfg ''mode'' \<in> {[], ''memory''} \<or> cfgString ?cfg ''mode'' = ''distributed'' \<and> errorOf (sugarOutcome pf) = None)"
    by (cases "rateAndBurst ?cfg") (auto simp: rateLimitingCheck_def Let_def)
  have cors: "errorOf (newCORS ?cfg) = None \<longleftrightarrow> wt_plugin pf ''cors'' ?cfg" by (rule cors_ok)
  show ?thesis
    unfolding pluginCheck_def Let_def
    by (simp add: wt_plugin_def size jwt rate rate_ok addHeader_ok responseHeaders_ok cors del: has_type_simps insert_iff)
qed

lemma rate_wf:
  assumes "fst (newRateLimiting pf cfg inst s) = Inr p"
  shows "plugin_wf (RateLimiting p)"
proof -
  obtain rps burst where r: "rateAndBurst cfg = Inr (rps, burst)"
    using assms by (cases "rateAndBurst cfg") (auto simp: newRateLimiting_def)
  then have "rlRequestsPerSecond p = rps" "rlBurst p = burst"
    using assms by (auto simp: newRateLimiting_def Let_def split: if_splits sum.splits prod.splits)
  then show ?thesis
    using r by (auto simp: rateAndBurst_iff required_def simp del: has_type_simps f64_ops split: option.splits)
qed

lemma built_wf:
  assumes "fst (buildPlugin pf name cfg inst s) = Inr p"
  shows "plugin_wf p \<and> pluginName p = name"
proof -
  have lift: "\<exists>x. res = Inr x \<and> p = c x" if "fst (lift c res s') = Inr p" for c res and s' :: "'a log_world_scheme"
    using that by (cases res) (auto simp: lift_def)
  show ?thesis
    using assms
    by (auto simp: buildPlugin_def case_prod_unfold Let_def jwt_ok sizeLimit_ok required_def
        dest!: lift rate_wf cors_wf responseHeaders_wf simp del: has_type_simps plugin_wf.simps(3-5)
        split: if_split_asm option.splits)
qed

section \<open>Rates that are not numbers\<close>

lemma nan_arith [simp]: "fadd x NaN = NaN" "fadd NaN x = NaN" "fmul x NaN = NaN" "fsub NaN x = NaN" "\<not> flt NaN x" "\<not> flt x NaN"
  by (cases x; simp add: fsub_def)+


section \<open>Properties\<close>

text \<open>
  C17: Plugin configurations are typed. A configuration builds an instance exactly when it has the type
  its plugin's schema asks for, value by value, and the instance that is built has the name it was
  asked for under and is well formed: a size limit is positive, a secret is there, a wildcard origin never
  goes with credentials, a header rule has a content type and headers, a rate is not zero or below, and a
  burst is not below one unless it was left out and is then the rate. (Whether SugarDB can be
  started, which the type of a distributed limiter asks for, is assumed not to change over time: the code
  keeps the outcome of the first attempt.)
\<close>

theorem buildPlugin_typed:
  assumes "sugar_ok pf s"
  shows "case fst (buildPlugin pf name cfg inst s) of
      Inr p \<Rightarrow> wt_plugin pf name cfg \<and> plugin_wf p \<and> pluginName p = name
    | Inl e \<Rightarrow> \<not> wt_plugin pf name cfg"
proof -
  have "errorOf (fst (buildPlugin pf name cfg inst s)) = None \<longleftrightarrow> wt_plugin pf name cfg"
    using buildPlugin_check [OF assms, of "\<lparr>pcName = name, pcConfig = cfg\<rparr>" inst]
      pluginCheck_typed [of pf "\<lparr>pcName = name, pcConfig = cfg\<rparr>"] by simp
  then show ?thesis
    using built_wf [of pf name cfg inst s] by (auto split: sum.splits)
qed


section \<open>Witnesses\<close>

theorem buildPlugin_typed_witness:
  "\<forall>pf. wt_plugin pf ''cors'' demo_cors_config \<and> plugin_wf (Cors demo_cors)"
proof
  fix pf :: platform
  have "sugar_ok pf demo_lb_world" by (simp add: sugar_ok_def demo_lb_world_def)
  moreover have "fst (buildPlugin pf ''cors'' demo_cors_config [] demo_lb_world) = Inr (Cors demo_cors)"
    by (simp add: buildPlugin_def demo_cors_built lift_def)
  ultimately show "wt_plugin pf ''cors'' demo_cors_config \<and> plugin_wf (Cors demo_cors)"
    using buildPlugin_typed [of pf demo_lb_world "''cors''" demo_cors_config "[]"] by (simp only: sum.case)
qed

end
