(* ===== verification/Limiter_Races.thy ===== *)
theory Limiter_Races
  imports Rate_Limiting
begin

text \<open>
  The in-memory store of the \<open>rate_limiting\<close> plugin under concurrent requests. The store's calls
  exclude each other by a mutex, but a request reads the clock before it asks for the mutex, so the
  time stamps of the calls may go backwards. The analysis of the token bucket is carried out for such
  sequences: a potential that a call never raises by more than its rounding and that an admission
  lowers by one. The requests are then an inductive step relation.
\<close>

section \<open>A refill after time of either sign\<close>

lemma refill_close:
  assumes "moderate R B" "tokens v = Fin x" "- 3000000 \<le> x" "x \<le> B" "- (10 ^ 9) \<le> now - lastSeen v"
  shows "\<exists>t. refill (Fin R) (Fin B) now v = Fin t \<and> t \<le> B \<and>
    t \<le> x + earned R (lastSeen v) now + 3 / 10 ^ 9 \<and>
    min B (x + min (earned R (lastSeen v) now) (2 * R)) \<le> t + 3 / 10 ^ 9"
proof -
  let ?d = "time_sub now (lastSeen v)" and ?e = "earned R (lastSeen v) now"
  define z where "z = R * (of_int ?d / 10 ^ 9)"
  have R: "0 < R" "R \<le> 1000000" and B: "1 \<le> B" "B \<le> 1000000" using assms(1) by (simp_all add: moderate_def)
  have d: "- (10 ^ 9) \<le> ?d" "?d \<le> max_i64" "?d \<le> now - lastSeen v" using assms(5) by (auto simp: time_sub_def)
  have rat_d: "(of_int a :: rat) \<le> of_int b" if "a \<le> b" for a b using that by simp
  obtain p where p: "fmul (durationSeconds ?d) (Fin R) = Fin p" "\<bar>p - z\<bar> \<le> \<bar>z\<bar> * (5 * halfUlp) + 10 ^ 7 * eta"
  proof -
    have "\<bar>?d\<bar> \<le> max_i64" using d(1,2) by (simp add: abs_le_iff)
    then show thesis using product_close [OF R, of ?d] that unfolding z_def by blast
  qed
  have low: "- R \<le> z" and z_e: "z \<le> ?e"
    using rat_d [OF d(1)] rat_d [OF d(3)] R by (simp_all add: z_def earned_def divide_le_eq le_divide_eq flip: mult_minus_right)
  have "z \<le> R * 9223372037" using rat_d [OF d(2)] R by (simp add: z_def)
  then have "\<bar>z\<bar> \<le> 10 ^ 16" using low R by auto
  then have p16: "\<bar>p\<bar> \<le> 10 ^ 17" using p(2) eta_small by (simp add: halfUlp_def)
  define w where "w = rnd (x + p)"
  have w: "\<bar>w - (x + p)\<bar> \<le> \<bar>x + p\<bar> * halfUlp + eta" unfolding w_def by (rule rnd_rel_error)
  have "fadd (tokens v) (Fin p) = Fin w"
    using p16 assms(3,4) B by (simp add: assms(2) w_def mkF64_close)
  then have r: "refill (Fin R) (Fin B) now v = Fin (min B w)" using p(1) by (simp add: refill_def Let_def)
  have up: "min B w \<le> x + ?e + 3 / 10 ^ 9"
  proof (cases "B \<le> x + ?e")
    case False
    then have "\<bar>z\<bar> \<le> 4000001" using z_e low assms(3) B R by auto
    then have "\<bar>p - z\<bar> \<le> 23 / 10 ^ 10" using p(2) eta_small by (simp add: halfUlp_def)
    moreover have "p \<le> z + 1" "z - 1 \<le> p" using calculation abs_ge_self [of "p - z"] abs_ge_minus_self [of "p - z"] by simp_all
    then have "\<bar>x + p\<bar> \<le> 4000002" using False z_e low assms(3) R B by (intro abs_leI) linarith+
    then have "\<bar>w - (x + p)\<bar> \<le> 6 / 10 ^ 10" using w eta_small by (simp add: halfUlp_def)
    ultimately have "w \<le> x + ?e + 3 / 10 ^ 9"
      using z_e abs_ge_self [of "p - z"] abs_ge_self [of "w - (x + p)"] by simp
    then show ?thesis by simp
  qed auto
  have down: "min B (x + min ?e (2 * R)) \<le> min B w + 3 / 10 ^ 9"
  proof (cases "10000000 < x + p")
    case True
    have "x + p - w \<le> \<bar>x + p\<bar> * halfUlp + eta" using abs_le_D2 [OF w] by simp
    also have "\<bar>x + p\<bar> * halfUlp \<le> (x + p) * (1 / 2)"
      using True by (intro mult_mono) (simp_all add: halfUlp_def)
    also have "eta \<le> 1" using eta_small by simp
    finally have "B \<le> w" using True B by (simp add: field_simps)
    then show ?thesis by simp
  next
    case False
    have near: "min ?e (2 * R) \<le> p + 13 / 10 ^ 10"
    proof (cases "?d = now - lastSeen v \<and> z \<le> 2 * R")
      case True
      then have "\<bar>z\<bar> \<le> 2000000" using low R by auto
      then have "\<bar>p - z\<bar> \<le> 12 / 10 ^ 10" using p(2) eta_small by (simp add: halfUlp_def)
      moreover have "?e = z" using True by (simp add: z_def earned_def)
      ultimately show ?thesis using abs_ge_minus_self [of "p - z"] by (simp add: min_le_iff_disj)
    next
      case False
      have "2 * R \<le> z"
      proof (cases "?d = now - lastSeen v")
        case False
        then have "?d = max_i64" using assms(5) by (auto simp: time_sub_def)
        then show ?thesis using R by (simp add: z_def)
      qed (use False in simp)
      then have "2 * R - 2 * R * (5 * halfUlp) - 10 ^ 7 * eta \<le> p"
        using p(2) R abs_ge_minus_self [of "p - z"] by (simp add: halfUlp_def)
      moreover have "2 * R * (5 * halfUlp) \<le> 12 / 10 ^ 10" using R by (simp add: halfUlp_def)
      ultimately show ?thesis using eta_small by auto
    qed
    moreover have "- 1000001 \<le> min ?e (2 * R)" using low z_e R by auto
    then have "\<bar>x + p\<bar> \<le> 10000000" using False near assms(3) by auto
    then have "\<bar>w - (x + p)\<bar> \<le> 12 / 10 ^ 10" using w eta_small by (simp add: halfUlp_def)
    ultimately have "x + min ?e (2 * R) \<le> w + 3 / 10 ^ 9"
      using abs_ge_minus_self [of "w - (x + p)"] by simp
    then show ?thesis by auto
  qed
  show ?thesis using r up down by auto
qed

section \<open>Accounting with stamps out of order\<close>

lemma earned_mono: "0 \<le> R \<Longrightarrow> b \<le> b' \<Longrightarrow> earned R a b \<le> earned R a b'"
  using earned_split [of R a b' b] earned_nonneg [of R b b'] by simp

lemma earned_antimono: "0 \<le> R \<Longrightarrow> a \<le> a' \<Longrightarrow> earned R a' b \<le> earned R a b"
  using earned_split [of R a b a'] earned_nonneg [of R a a'] by simp

lemma earned_up_to:
  assumes "0 \<le> R" "b - a \<le> d"
  shows "earned R a b \<le> R * (of_int d / 10 ^ 9)"
proof -
  have "(of_int (b - a) :: rat) \<le> of_int d" using assms(2) by (simp only: of_int_le_iff)
  then show ?thesis unfolding earned_def using assms(1) by (intro mult_left_mono divide_right_mono) simp_all
qed

text \<open>
  A bucket last charged with the stamp \<open>lastSeen\<close>, while the latest stamp it was charged with is
  \<open>h\<close>, at most \<open>d\<close> later. Its tokens may have gone below zero, but what they earn up to \<open>h\<close> makes
  up for it, save for the rounding \<open>e\<close>.
\<close>

definition bucket_ok :: "rat \<Rightarrow> rat \<Rightarrow> duration \<Rightarrow> rat \<Rightarrow> instant \<Rightarrow> visitor \<Rightarrow> bool" where
  "bucket_ok R B d e h v \<longleftrightarrow> (\<exists>x. tokens v = Fin x \<and> x \<le> B \<and> lastSeen v \<le> h \<and> h \<le> lastSeen v + d \<and>
     0 \<le> x + earned R (lastSeen v) h + e)"

lemma bucket_ok_mono: "bucket_ok R B d e h v \<Longrightarrow> e \<le> e' \<Longrightarrow> bucket_ok R B d e' h v"
  by (force simp: bucket_ok_def)

text \<open>What a bucket may still grant up to \<open>T\<close>, to calls with stamps from \<open>lo\<close> on.\<close>

definition pot :: "rat \<Rightarrow> rat \<Rightarrow> instant \<Rightarrow> instant \<Rightarrow> instant \<Rightarrow> visitor option \<Rightarrow> rat" where
  "pot R B T lo h vo = min (B + earned R lo T)
     (case vo of None \<Rightarrow> B + earned R lo T
      | Some v \<Rightarrow> (case tokens v of Fin x \<Rightarrow> max (x + earned R (lastSeen v) T) (earned R h T) | _ \<Rightarrow> B + earned R lo T))"

lemma pot_le: "pot R B T lo h vo \<le> B + earned R lo T"
  by (simp add: pot_def)

lemma pot_None: "pot R B T lo h None = B + earned R lo T"
  by (simp add: pot_def)

lemma pot_nonneg:
  assumes "moderate R B" "lo \<le> T" "h \<le> T"
  shows "0 \<le> pot R B T lo h vo"
  using assms earned_nonneg [of R lo T] earned_nonneg [of R h T]
  by (auto simp: pot_def moderate_def le_max_iff_disj split: option.splits f64.splits)

lemma pot_lo: "0 \<le> R \<Longrightarrow> lo \<le> lo' \<Longrightarrow> pot R B T lo' h vo \<le> pot R B T lo h vo"
  using earned_antimono [of R lo lo' T] by (auto simp: pot_def min_le_iff_disj split: option.splits f64.splits)

lemma refused_slack:
  fixes c :: rat
  assumes "a \<le> a' + e" "b \<le> b'" "0 \<le> e"
  shows "min c (max a b) \<le> min c (max a' b') + e"
  using assms by (simp add: min_def max_def)

lemma granted_slack:
  fixes c :: rat
  assumes "1 + a \<le> c + e" "1 + b \<le> c + e" "1 + a \<le> a' + e" "1 + b \<le> a' + e"
  shows "1 + min c (max a b) \<le> min c (max a' b') + e"
  using assms by (simp add: min_def max_def)

text \<open>
  The range of the analysis: stamps at most a second out of order, and a bucket that refills in the
  ten minutes after which it is dropped, less twice that disorder.
\<close>

definition skew_ok :: "rat \<Rightarrow> rat \<Rightarrow> duration \<Rightarrow> bool" where
  "skew_ok R B d \<longleftrightarrow> moderate R B \<and> 0 \<le> d \<and> d \<le> 10 ^ 9 \<and> B \<le> R * (600 - 2 * (of_int d / 10 ^ 9))"

lemma skew_okD:
  assumes "skew_ok R B d"
  shows "moderate R B" "0 \<le> d" "d \<le> 10 ^ 9" "B \<le> R * (600 - 2 * (of_int d / 10 ^ 9))" "0 \<le> R"
    "R \<le> 1000000" "1 \<le> B" "B \<le> 1000000"
  using assms by (simp_all add: skew_ok_def moderate_def)

lemma swept:
  assumes "bucket_ok R B d e h v" "stale now v" "lo \<le> now" "skew_ok R B d"
  shows "B + earned R (max lo (now - d)) T \<le> pot R B T lo h (Some v)"
proof -
  note m = skew_okD(1) [OF assms(4)] and d = skew_okD(2,3) [OF assms(4)] and R0 = skew_okD(5) [OF assms(4)]
    and B = skew_okD(7,8) [OF assms(4)]
  let ?lo = "max lo (now - d)"
  obtain x where x: "tokens v = Fin x" "h \<le> lastSeen v + d" using assms(1) by (auto simp: bucket_ok_def)
  have "lastSeen v + 600000000000 \<le> now" using assms(2) by (auto simp: stale_def time_sub_def)
  then have "600000000000 - 2 * d \<le> ?lo - h" using x(2) by simp
  then have "(of_int (600000000000 - 2 * d) :: rat) \<le> of_int (?lo - h)" by (simp only: of_int_le_iff)
  then have "600 - 2 * (of_int d / 10 ^ 9) \<le> (of_int (?lo - h) / 10 ^ 9 :: rat)" by (simp add: field_simps)
  then have "R * (600 - 2 * (of_int d / 10 ^ 9)) \<le> earned R h ?lo"
    unfolding earned_def using R0 by (intro mult_left_mono) simp_all
  then have "B + earned R ?lo T \<le> earned R h T" using skew_okD(4) [OF assms(4)] earned_split [of R h T ?lo] by simp
  moreover have "earned R ?lo T \<le> earned R lo T" using R0 by (intro earned_antimono) simp_all
  ultimately show ?thesis using x(1) by (simp add: pot_def)
qed

text \<open>One refill: the bound above and the one below.\<close>

lemma refill_skewed:
  assumes "bucket_ok R B d e h v" "tokens v = Fin x" "h - d \<le> now" "0 \<le> e" "e \<le> 400000" "skew_ok R B d"
  obtains t where "refill (Fin R) (Fin B) now v = Fin t" "t \<le> B" "t \<le> x + earned R (lastSeen v) now + 3 / 10 ^ 9"
    "0 \<le> t + earned R now (max h now) + (e + 3 / 10 ^ 9)"
proof -
  note m = skew_okD(1) [OF assms(6)] and d = skew_okD(2,3) [OF assms(6)] and R0 = skew_okD(5) [OF assms(6)]
    and B = skew_okD(7,8) [OF assms(6)]
  let ?l = "lastSeen v"
  have x: "x \<le> B" "?l \<le> h" "h \<le> ?l + d" "0 \<le> x + earned R ?l h + e"
    using assms(1,2) by (auto simp: bucket_ok_def)
  have eh: "earned R ?l h \<le> R"
    using earned_up_to [of R h ?l "10 ^ 9"] R0 x(3) d by simp
  have "- 3000000 \<le> x" "- (10 ^ 9) \<le> now - ?l"
    using x eh skew_okD(6) [OF assms(6)] assms(3-5) d by auto
  from refill_close [OF m assms(2) this(1) x(1) this(2)]
  obtain t where t: "refill (Fin R) (Fin B) now v = Fin t" "t \<le> B" "t \<le> x + earned R ?l now + 3 / 10 ^ 9"
    "min B (x + min (earned R ?l now) (2 * R)) \<le> t + 3 / 10 ^ 9" by blast
  have "0 \<le> t + earned R now (max h now) + (e + 3 / 10 ^ 9)"
  proof (cases "h \<le> now")
    case True
    then have "earned R ?l h \<le> min (earned R ?l now) (2 * R)"
      using earned_mono [of R h now ?l] eh R0 by simp
    then have "- e \<le> min B (x + min (earned R ?l now) (2 * R))"
      using x(4) B assms(4) unfolding min.bounded_iff by linarith
    then have "- e \<le> t + 3 / 10 ^ 9" using t(4) by (rule order_trans)
    moreover have "earned R now now = 0" by (simp add: earned_def)
    ultimately show ?thesis using True by (simp add: max_absorb2)
  next
    case False
    then have n: "earned R ?l now \<le> earned R ?l h" "0 \<le> earned R now h"
      using earned_mono [of R now h ?l] earned_nonneg [of R now h] R0 by simp_all
    then have "min (earned R ?l now) (2 * R) = earned R ?l now" using eh R0 by simp
    then have "min B (x + earned R ?l now) \<le> t + 3 / 10 ^ 9" using t(4) by simp
    moreover have "- e \<le> min B (x + earned R ?l now) + earned R now h"
      using x(4) B assms(4) n earned_split [of R ?l h now] by (simp add: min_def)
    ultimately show ?thesis using False by (simp add: max_absorb1)
  qed
  then show thesis using that t by blast
qed


text \<open>One call by the client of the bucket, and one by another client.\<close>

lemma own_call:
  assumes "pred_option (bucket_ok R B d e h) (visitors s k)"
    and "h - d \<le> now" "lo \<le> now" "now \<le> T" "h \<le> T" "0 \<le> e" "e \<le> 400000"
    and call: "memAllow k (Fin R) (Fin B) now s = (a, s')" and params: "skew_ok R B d"
  shows "\<exists>h'. (h' = h \<or> h' = now) \<and>
    (pred_option (bucket_ok R B d (e + 4 / 10 ^ 9) h') (visitors s' k)) \<and>
    of_bool a + pot R B T (max lo (now - d)) h' (visitors s' k) \<le> pot R B T lo h (visitors s k) + 4 / 10 ^ 9"
proof -
  note m = skew_okD(1) [OF params] and d = skew_okD(2,3) [OF params] and R0 = skew_okD(5) [OF params]
    and B = skew_okD(7,8) [OF params]
  let ?c = "countCall now s" and ?lo = "max lo (now - d)"
  have lo: "?lo \<le> now" using assms(3) d by simp
  have pot_c: "pot R B T ?lo h (visitors ?c k) \<le> pot R B T lo h (visitors s k)"
    using countCall_visitors [of now s k] swept [OF _ _ assms(3) params, of e h _ T] assms(1) pot_lo [OF R0, of lo ?lo]
    by (auto simp: pot_None)
  have ok_c: "pred_option (bucket_ok R B d e h) (visitors ?c k)"
    using countCall_visitors [of now s k] assms(1) by auto
  have cap: "B + earned R now T \<le> B + earned R ?lo T" using earned_antimono [OF R0 lo] by simp
  show ?thesis
  proof (cases "visitors ?c k")
    case None
    obtain y where y: "fsub (Fin B) fone = Fin y" "0 \<le> y" "y \<le> B" "y \<le> B - 1 + 2 / 10 ^ 10"
      using fsub_one B by blast
    have "visitors s' k = Some \<lparr>tokens = Fin y, lastSeen = now\<rparr>" "a"
      using call y(1) memAllow_new [OF None, of "Fin R" "Fin B"] by auto
    moreover have "bucket_ok R B d (e + 4 / 10 ^ 9) now \<lparr>tokens = Fin y, lastSeen = now\<rparr>"
      using y d assms(6) by (simp add: bucket_ok_def earned_def)
    moreover have "1 + pot R B T ?lo now (Some \<lparr>tokens = Fin y, lastSeen = now\<rparr>) \<le> pot R B T ?lo h None + 4 / 10 ^ 9"
      using y B cap by (simp add: pot_def min_def max_def)
    ultimately show ?thesis using pot_c None by (intro exI [of _ now]) simp
  next
    case (Some v)
    then have v: "bucket_ok R B d e h v" using ok_c by simp
    then obtain x where x: "tokens v = Fin x" by (auto simp: bucket_ok_def)
    obtain t where t: "refill (Fin R) (Fin B) now v = Fin t" "t \<le> B" "t \<le> x + earned R (lastSeen v) now + 3 / 10 ^ 9"
      "0 \<le> t + earned R now (max h now) + (e + 3 / 10 ^ 9)"
      using refill_skewed [OF v x assms(2,6,7) params] .
    let ?h = "max h now"
    have h: "now \<le> ?h" "?h \<le> now + d" "?h = h \<or> ?h = now" "h \<le> ?h" using assms(2) d by auto
    have e: "earned R (lastSeen v) T = earned R (lastSeen v) now + earned R now T" by (rule earned_split)
    have hT: "earned R ?h T \<le> earned R h T" "earned R ?h T \<le> earned R now T" using R0 h by (intro earned_antimono; simp)+
    have p: "pot R B T ?lo h (Some v) = min (B + earned R ?lo T) (max (x + earned R (lastSeen v) T) (earned R h T))"
      using x by (simp add: pot_def)
    have q: "pot R B T ?lo ?h (Some \<lparr>tokens = Fin y, lastSeen = now\<rparr>) =
        min (B + earned R ?lo T) (max (y + earned R now T) (earned R ?h T))" for y
      by (simp add: pot_def)
    show ?thesis
    proof (cases "t < 1")
      case True
      then have "visitors s' k = Some \<lparr>tokens = Fin t, lastSeen = now\<rparr>" "\<not> a"
        using call t(1) memAllow_refuse [OF Some, of "Fin R" "Fin B"] by auto
      moreover have "bucket_ok R B d (e + 4 / 10 ^ 9) ?h \<lparr>tokens = Fin t, lastSeen = now\<rparr>"
        using t h by (simp add: bucket_ok_def)
      moreover have "pot R B T ?lo ?h (Some \<lparr>tokens = Fin t, lastSeen = now\<rparr>) \<le> pot R B T ?lo h (Some v) + 4 / 10 ^ 9"
        unfolding p q by (rule refused_slack) (use t(3) e hT in simp_all)
      ultimately show ?thesis using pot_c Some h(3) by (intro exI [of _ ?h]) simp
    next
      case False
      then obtain y where y: "fsub (Fin t) fone = Fin y" "0 \<le> y" "y \<le> t" "y \<le> t - 1 + 2 / 10 ^ 10"
        using fsub_one [of t] t B by auto
      then have "visitors s' k = Some \<lparr>tokens = Fin y, lastSeen = now\<rparr>" "a"
        using False call t(1) memAllow_grant [OF Some, of "Fin R" "Fin B"] by auto
      moreover have "bucket_ok R B d (e + 4 / 10 ^ 9) ?h \<lparr>tokens = Fin y, lastSeen = now\<rparr>"
        using t y h assms(6) earned_nonneg [OF R0 h(1)] by (simp add: bucket_ok_def)
      moreover have "1 + pot R B T ?lo ?h (Some \<lparr>tokens = Fin y, lastSeen = now\<rparr>) \<le> pot R B T ?lo h (Some v) + 4 / 10 ^ 9"
        unfolding p q by (rule granted_slack) (use t(2,3) y False e hT cap in simp_all)
      ultimately show ?thesis using pot_c Some h(3) by (intro exI [of _ ?h]) simp
    qed
  qed
qed

lemma other_call:
  assumes "pred_option (bucket_ok R B d e h) (visitors s k)"
    and "lo \<le> now" "k0 \<noteq> k" "memAllow k0 (Fin R) (Fin B) now s = (a, s')" "skew_ok R B d"
  shows "pred_option (bucket_ok R B d e h) (visitors s' k)"
    "pot R B T (max lo (now - d)) h (visitors s' k) \<le> pot R B T lo h (visitors s k)"
proof -
  note m = skew_okD(1) [OF assms(5)] and d = skew_okD(2,3) [OF assms(5)] and R0 = skew_okD(5) [OF assms(5)]
    and B = skew_okD(7,8) [OF assms(5)]
  have v: "visitors s' k = visitors s k \<or> (\<exists>u. visitors s k = Some u \<and> stale now u \<and> visitors s' k = None)"
    using memAllow_other [of k k0 "Fin R" "Fin B" now s] assms(3,4) by (auto simp: mem_forgets_def)
  show "pred_option (bucket_ok R B d e h) (visitors s' k)"
    using v assms(1) by auto
  show "pot R B T (max lo (now - d)) h (visitors s' k) \<le> pot R B T lo h (visitors s k)"
    using v swept [OF _ _ assms(2,5), of e h _ T] assms(1) pot_lo [OF R0, of lo "max lo (now - d)"]
    by (auto simp: pot_None)
qed

section \<open>Runs with stamps out of order\<close>

text \<open>No stamp lies more than \<open>d\<close> before one that was served earlier.\<close>

definition skewed :: "duration \<Rightarrow> (string \<times> instant) list \<Rightarrow> bool" where
  "skewed d = sorted_wrt (\<lambda>c c'. snd c - d \<le> snd c')"

lemma run_skewed:
  assumes params: "skew_ok R B d" and "lo \<le> T" "h \<le> T" "0 \<le> e"
    and "pred_option (bucket_ok R B d e h) (visitors s k)"
    and "skewed d cs" "\<forall>c \<in> set cs. h - d \<le> snd c \<and> lo \<le> snd c \<and> snd c \<le> T"
    and "e + of_nat (length cs) * (4 / 10 ^ 9) \<le> 400000"
    and "runStore memAllow (Fin R) (Fin B) cs s = (oks, s')"
  shows "of_nat (granted k cs oks) \<le> pot R B T lo h (visitors s k) + of_nat (length cs) * (4 / 10 ^ 9) \<and>
    (\<exists>h' \<in> insert h (snd ` set cs).
      pred_option (bucket_ok R B d (e + of_nat (length cs) * (4 / 10 ^ 9)) h') (visitors s' k))"
  using assms(2-9)
proof (induction cs arbitrary: lo h e s oks)
  case Nil
  then show ?case using pot_nonneg [OF skew_okD(1) [OF params]] by auto
next
  case (Cons c cs)
  obtain k0 now where c: "c = (k0, now)" by (cases c)
  obtain a s1 oks1 where run: "memAllow k0 (Fin R) (Fin B) now s = (a, s1)"
    "runStore memAllow (Fin R) (Fin B) cs s1 = (oks1, s')" "oks = a # oks1"
    using Cons.prems(8) by (auto simp: c Let_def split: prod.splits)
  let ?lo = "max lo (now - d)" and ?e = "e + 4 / 10 ^ 9"
  have t: "h - d \<le> now" "lo \<le> now" "now \<le> T" using Cons.prems(6) by (auto simp: c)
  have e: "0 \<le> e" "e \<le> 400000" using Cons.prems(3,7) by (auto simp: algebra_simps intro: order_trans [rotated])
  obtain h1 where h1: "h1 = h \<or> h1 = now" "pred_option (bucket_ok R B d ?e h1) (visitors s1 k)"
    "of_bool (k0 = k \<and> a) + pot R B T ?lo h1 (visitors s1 k) \<le> pot R B T lo h (visitors s k) + 4 / 10 ^ 9"
  proof (cases "k0 = k")
    case True
    then show thesis
      using that own_call [OF Cons.prems(4) t Cons.prems(2) e _ params] run(1) by simp blast
  next
    case False
    have "pred_option (bucket_ok R B d ?e h) (visitors s1 k)"
      using other_call(1) [OF Cons.prems(4) t(2) False run(1) params]
      by (rule option.pred_mono_strong) (erule bucket_ok_mono, rule add_increasing2, simp_all)
    then show thesis
      using that [of h] other_call(2) [OF Cons.prems(4) t(2) False run(1) params, of T] False by simp
  qed
  have "of_nat (granted k cs oks1) \<le> pot R B T ?lo h1 (visitors s1 k) + of_nat (length cs) * (4 / 10 ^ 9) \<and>
    (\<exists>h' \<in> insert h1 (snd ` set cs). pred_option (bucket_ok R B d (?e + of_nat (length cs) * (4 / 10 ^ 9)) h') (visitors s' k))"
  proof (rule Cons.IH [OF _ _ _ h1(2) _ _ _ run(2)])
    show "\<forall>c \<in> set cs. h1 - d \<le> snd c \<and> ?lo \<le> snd c \<and> snd c \<le> T" "skewed d cs"
      using Cons.prems(5,6) h1(1) by (auto simp: c skewed_def)
    show "?e + of_nat (length cs) * (4 / 10 ^ 9) \<le> 400000" using Cons.prems(7) by (simp add: algebra_simps add_divide_distrib)
  qed (use t h1(1) Cons.prems(2) e skew_okD(2) [OF params] in auto)
  then show ?case
    using h1(1,3) by (auto simp: c run(3) algebra_simps add_divide_distrib)
qed

lemma window_skewed:
  assumes params: "skew_ok R B d" and "skewed d (before @ window)" "t0 \<le> T"
    and "\<forall>c \<in> set (before @ window). snd c \<le> T" "\<forall>c \<in> set window. t0 \<le> snd c"
    and "length (before @ window) \<le> 10 ^ 14"
    and run: "runStore memAllow (Fin R) (Fin B) before newMemoryStore = (oks, s)"
      "runStore memAllow (Fin R) (Fin B) window s = (decisions, s')"
  shows "of_nat (granted k window decisions) \<le> B + earned R t0 T + of_nat (length window) * (4 / 10 ^ 9)"
proof -
  define m where "m = Min (insert T (snd ` set (before @ window)))"
  let ?e = "0 + of_nat (length before) * (4 / 10 ^ 9) :: rat"
  have m: "m \<le> T" "\<forall>c \<in> set (before @ window). m \<le> snd c" by (simp_all add: m_def)
  have d: "0 \<le> d" using params by (rule skew_okD)
  have "(of_nat (length (before @ window)) :: rat) \<le> of_nat (10 ^ 14)" using assms(6) by (simp only: of_nat_le_iff)
  then have len: "(of_nat (length before) + of_nat (length window) :: rat) \<le> 10 ^ 14" by simp
  have len1: "0 + of_nat (length before) * (4 / 10 ^ 9) \<le> (400000 :: rat)" using len by simp
  have len2: "?e + of_nat (length window) * (4 / 10 ^ 9) \<le> (400000 :: rat)" using len by simp
  have skew: "skewed d before" "skewed d window" "\<forall>c \<in> set before. \<forall>c' \<in> set window. snd c - d \<le> snd c'"
    using assms(2) by (auto simp: skewed_def sorted_wrt_append)
  have mid: "\<forall>c \<in> set before. m - d \<le> snd c \<and> m \<le> snd c \<and> snd c \<le> T"
  proof
    fix c assume "c \<in> set before"
    then have "m \<le> snd c" "snd c \<le> T" using m(2) assms(4) by simp_all
    then show "m - d \<le> snd c \<and> m \<le> snd c \<and> snd c \<le> T" using d by simp
  qed
  have start: "pred_option (bucket_ok R B d 0 m) (visitors newMemoryStore k)" by (simp add: newMemoryStore_def)
  have "\<exists>h \<in> insert m (snd ` set before). pred_option (bucket_ok R B d ?e h) (visitors s k)"
    using run_skewed [OF params m(1) m(1) order_refl start skew(1) mid len1 run(1)] by blast
  then obtain h where h: "h \<in> insert m (snd ` set before)" "pred_option (bucket_ok R B d ?e h) (visitors s k)" by blast
  have hT: "h \<le> T" using h(1) m(1) assms(4) by auto
  have "h - d \<le> snd c" if "c \<in> set window" for c
  proof (cases "h = m")
    case True
    then show ?thesis using m(2) d that by (auto intro: order_trans [of _ m])
  next
    case False
    then show ?thesis using h(1) skew(3) that by auto
  qed
  then have hw: "\<forall>c \<in> set window. h - d \<le> snd c \<and> t0 \<le> snd c \<and> snd c \<le> T" using assms(4,5) by simp
  have "of_nat (granted k window decisions) \<le> pot R B T t0 h (visitors s k) + of_nat (length window) * (4 / 10 ^ 9)"
    using run_skewed [OF params assms(3) hT _ h(2) skew(2) hw len2 run(2)] by simp
  then show ?thesis using pot_le [of R B T t0 h "visitors s k"] by linarith
qed

section \<open>Requests at the mutex\<close>

text \<open>
  A request reads the client's address and the clock, and only then takes the store's mutex: while it
  waits, others may be served with later stamps. \<open>waiting\<close> are the requests between the two, with
  what they read; \<open>served\<close> are the calls in the order in which they held the mutex.
\<close>

record admission =
  akey :: string
  stamp :: instant
  servedAt :: instant
  admitted :: bool

record limiter =
  lclock :: instant
  waiting :: "(string \<times> instant) list"
  lstore :: memoryStore
  served :: "admission list"

definition limiter_init :: "instant \<Rightarrow> limiter" where
  "limiter_init c = \<lparr>lclock = c, waiting = [], lstore = newMemoryStore, served = []\<rparr>"

text \<open>
  The two halves of \<^verbatim>\<open>p.store.allow(clientip.FromRequest(r), ..., p.now())\<close>: the arguments are
  evaluated, and later, in any order, a waiting request gets the mutex and is decided on.
\<close>

definition readClock :: "request \<Rightarrow> limiter \<Rightarrow> limiter" where
  "readClock r s = s\<lparr>waiting := waiting s @ [(fromRequest r, lclock s)]\<rparr>"

definition takeMutex :: "f64 \<Rightarrow> f64 \<Rightarrow> nat \<Rightarrow> limiter \<Rightarrow> limiter" where
  "takeMutex rps burst i s =
     (let (k, now) = waiting s ! i; (ok, st) = memAllow k rps burst now (lstore s)
      in s\<lparr>waiting := take i (waiting s) @ drop (Suc i) (waiting s), lstore := st,
           served := served s @ [\<lparr>akey = k, stamp = now, servedAt = lclock s, admitted = ok\<rparr>]\<rparr>)"

text \<open>Time passes, as long as no request has to wait for longer than \<open>d\<close>.\<close>

inductive limiter_step :: "f64 \<Rightarrow> f64 \<Rightarrow> duration \<Rightarrow> limiter \<Rightarrow> limiter \<Rightarrow> bool" for rps burst d where
  time_passes: "0 \<le> dt \<Longrightarrow> \<forall>c \<in> set (waiting s). lclock s + dt \<le> snd c + d \<Longrightarrow>
    limiter_step rps burst d s (s\<lparr>lclock := lclock s + dt\<rparr>)"
| reads_clock: "limiter_step rps burst d s (readClock r s)"
| takes_mutex: "i < length (waiting s) \<Longrightarrow> limiter_step rps burst d s (takeMutex rps burst i s)"

definition limiter_inv :: "f64 \<Rightarrow> f64 \<Rightarrow> duration \<Rightarrow> limiter \<Rightarrow> bool" where
  "limiter_inv rps burst d s \<longleftrightarrow>
     runStore memAllow rps burst (map (\<lambda>a. (akey a, stamp a)) (served s)) newMemoryStore = (map admitted (served s), lstore s) \<and>
     sorted (map servedAt (served s)) \<and>
     (\<forall>a \<in> set (served s). stamp a \<le> servedAt a \<and> servedAt a \<le> stamp a + d \<and> servedAt a \<le> lclock s) \<and>
     (\<forall>c \<in> set (waiting s). snd c \<le> lclock s \<and> lclock s \<le> snd c + d)"

lemma takeMutex_split:
  assumes "i < length (waiting s)"
  obtains xs k now ys ok st where "waiting s = xs @ (k, now) # ys" "memAllow k rps burst now (lstore s) = (ok, st)"
    "takeMutex rps burst i s = s\<lparr>waiting := xs @ ys, lstore := st,
       served := served s @ [\<lparr>akey = k, stamp = now, servedAt = lclock s, admitted = ok\<rparr>]\<rparr>"
proof -
  obtain k now where c: "waiting s ! i = (k, now)" by (metis surj_pair)
  obtain ok st where "memAllow k rps burst now (lstore s) = (ok, st)" by (metis surj_pair)
  then show thesis
    using that [of "take i (waiting s)" k now "drop (Suc i) (waiting s)"] id_take_nth_drop [OF assms] c
    by (simp add: takeMutex_def)
qed

lemma limiter_inv_step:
  assumes "limiter_step rps burst d s s'" "0 \<le> d" "limiter_inv rps burst d s"
  shows "limiter_inv rps burst d s'"
  using assms
proof cases
  case time_passes
  then show ?thesis using assms(3) by (fastforce simp: limiter_inv_def)
next
  case reads_clock
  then show ?thesis using assms(2,3) by (auto simp: limiter_inv_def readClock_def)
next
  case (takes_mutex i)
  then show ?thesis
    using assms(3) by (elim takeMutex_split [of i s rps burst]) (simp add: limiter_inv_def runStore_append sorted_append ball_Un)
qed

lemma limiter_inv_reachable:
  assumes "(limiter_step rps burst d)\<^sup>*\<^sup>* (limiter_init c) s" "0 \<le> d"
  shows "limiter_inv rps burst d s"
  using assms(1)
proof (induction rule: rtranclp_induct)
  case base
  show ?case by (simp add: limiter_init_def limiter_inv_def)
next
  case (step s s')
  then show ?case using limiter_inv_step assms(2) by blast
qed

lemma served_skewed:
  assumes "sorted (map servedAt xs)" "\<forall>a \<in> set xs. stamp a \<le> servedAt a \<and> servedAt a \<le> stamp a + d"
  shows "skewed d (map (\<lambda>a. (akey a, stamp a)) xs)"
  using assms by (induction xs) (fastforce simp: skewed_def)+

lemma sorted_window:
  assumes "sorted (map f xs)" "t1 \<le> t2"
  shows "xs = filter (\<lambda>a. f a < t1) xs @ filter (\<lambda>a. t1 \<le> f a \<and> f a \<le> t2) xs @ filter (\<lambda>a. (t2 :: 'b :: linorder) < f a) xs"
  using assms
proof (induction xs)
  case (Cons x xs)
  have low: "filter (\<lambda>a. f a < t1) xs = []" if "t1 \<le> f x"
    using Cons.prems(1) that by (auto simp: filter_empty_conv intro: order_trans)
  have mid: "filter (\<lambda>a. t1 \<le> f a \<and> f a \<le> t2) xs = []" if "t2 < f x"
    using Cons.prems(1) that by (fastforce simp: filter_empty_conv)
  have ih: "xs = filter (\<lambda>a. f a < t1) xs @ filter (\<lambda>a. t1 \<le> f a \<and> f a \<le> t2) xs @ filter (\<lambda>a. t2 < f a) xs"
    using Cons by simp
  consider "f x < t1" | "t1 \<le> f x" "f x \<le> t2" | "t2 < f x" by fastforce
  then show ?case
  proof cases
    case 1
    then have "\<not> t1 \<le> f x" "\<not> t2 < f x" using Cons.prems(2) by auto
    then show ?thesis using 1 ih by simp
  next
    case 2
    then have "\<not> f x < t1" "\<not> t2 < f x" by auto
    then show ?thesis using 2 ih low by simp
  next
    case 3
    then have "t1 \<le> f x" "\<not> f x < t1" using Cons.prems(2) by auto
    then show ?thesis using 3 ih low mid by simp
  qed
qed simp

lemma length_runStore: "length (fst (runStore allow rps burst cs s)) = length cs"
  by (induction allow rps burst cs s rule: runStore.induct) (auto simp: Let_def split: prod.splits)

text \<open>A run over a list in three parts, with the decisions of each.\<close>

lemma runStore_parts:
  assumes "runStore allow rps burst (map c (xs @ ys @ zs)) s = (map f (xs @ ys @ zs), s')"
  obtains s1 s2 where "runStore allow rps burst (map c xs) s = (map f xs, s1)" "runStore allow rps burst (map c ys) s1 = (map f ys, s2)"
proof -
  let ?run = "runStore allow rps burst"
  obtain oks1 s1 oks2 s2 oks3 s3 where run: "?run (map c xs) s = (oks1, s1)" "?run (map c ys) s1 = (oks2, s2)" "?run (map c zs) s2 = (oks3, s3)"
    by (metis surj_pair)
  then have "oks1 @ oks2 @ oks3 = map f xs @ map f ys @ map f zs"
    using assms by (simp add: runStore_append)
  moreover have "length oks1 = length xs" "length oks2 = length ys"
    using length_runStore [of allow rps burst] run by (metis fst_conv length_map)+
  ultimately show thesis using that run by simp
qed

lemma granted_count:
  "granted k (map (\<lambda>a. (akey a, stamp a)) xs) (map admitted xs) = length (filter (\<lambda>a. akey a = k \<and> admitted a) xs)"
  by (induction xs) simp_all

section \<open>Properties\<close>

text \<open>
  C1: The in-memory rate limiter keeps its limit when requests run at the same time. Each reads the
  clock before it takes the store's mutex, so that stamps reach the store out of order; whatever the
  interleaving, and whatever was served before, the requests of one client admitted between two
  instants number at most the burst plus the rate times the time between them, lengthened by the
  longest wait for the mutex, plus four thousand-millionths of a request per call for rounding. This is
  for a rate of at most a million, a burst between one and a million that the rate refills in ten
  minutes less twice the longest wait, a wait of at most a second, and at most \<open>10^14\<close> calls; a bucket
  that refills more slowly is dropped by the sweep before it is full, and the client gets a new burst.
\<close>

theorem limiter_bounds_admissions:
  assumes "skew_ok R B d" "(limiter_step (Fin R) (Fin B) d)\<^sup>*\<^sup>* (limiter_init c) s"
    and "length (served s) \<le> 10 ^ 14" "t1 \<le> t2"
  defines "window \<equiv> filter (\<lambda>a. t1 \<le> servedAt a \<and> servedAt a \<le> t2) (served s)"
  shows "of_nat (length (filter (\<lambda>a. akey a = k \<and> admitted a) window)) \<le>
    B + R * (of_int (t2 - t1 + d) / 10 ^ 9) + of_nat (length window) * (4 / 10 ^ 9)"
proof -
  let ?cs = "map (\<lambda>a. (akey a, stamp a))" and ?run = "runStore memAllow (Fin R) (Fin B)"
  define before after where "before = filter (\<lambda>a. servedAt a < t1) (served s)" and "after = filter (\<lambda>a. t2 < servedAt a) (served s)"
  have d: "0 \<le> d" using assms(1) by (rule skew_okD)
  note inv = limiter_inv_reachable [OF assms(2) d, unfolded limiter_inv_def]
  have parts: "served s = before @ window @ after"
    unfolding before_def window_def after_def using inv assms(4) by (intro sorted_window) simp_all
  obtain s1 s2 where run: "?run (?cs before) newMemoryStore = (map admitted before, s1)" "?run (?cs window) s1 = (map admitted window, s2)"
    by (rule runStore_parts [of memAllow "Fin R" "Fin B" "\<lambda>a. (akey a, stamp a)" before window after newMemoryStore admitted "lstore s"])
      (use inv parts in simp)
  have "of_nat (granted k (?cs window) (map admitted window)) \<le> B + earned R (t1 - d) t2 + of_nat (length (?cs window)) * (4 / 10 ^ 9)"
  proof (rule window_skewed [OF assms(1) _ _ _ _ _ run])
    have "skewed d (?cs (served s))" using inv by (intro served_skewed) simp_all
    then have "skewed d ((?cs before @ ?cs window) @ ?cs after)" by (simp add: parts)
    then show "skewed d (?cs before @ ?cs window)" unfolding skewed_def by (subst (asm) sorted_wrt_append) blast
    have stamps: "stamp a \<le> t2" if "a \<in> set before \<or> a \<in> set window" for a
      using inv that assms(4) by (auto simp: before_def window_def intro: order_trans [of _ "servedAt a"])
    have late: "t1 - d \<le> stamp a" if "a \<in> set window" for a
    proof -
      have "t1 \<le> servedAt a" "servedAt a \<le> stamp a + d" using inv that by (auto simp: window_def)
      then show ?thesis by simp
    qed
    show "\<forall>c \<in> set (?cs before @ ?cs window). snd c \<le> t2" "\<forall>c \<in> set (?cs window). t1 - d \<le> snd c"
      using stamps late by auto
    show "length (?cs before @ ?cs window) \<le> 10 ^ 14" using assms(3) by (simp add: parts)
  qed (use assms(4) d in simp)
  moreover have "earned R (t1 - d) t2 = R * (of_int (t2 - t1 + d) / 10 ^ 9)" by (simp add: earned_def algebra_simps)
  ultimately show ?thesis by (simp add: granted_count)
qed

text \<open>A request that meets nobody else takes both steps at once: this is what the handler does.\<close>

lemma rateLimitingWrap_steps:
  fixes r :: request
  assumes "rlStore p = MemoryStore n" "lclock l = clock s" "lstore l = stores s n" "waiting l = []"
  defines "l' \<equiv> takeMutex (rlRequestsPerSecond p) (rlBurst p) 0 (readClock r l)"
  shows "waiting l' = []"
    "rateLimitingWrap p nxt w r s =
      (let s' = s\<lparr>stores := (stores s)(n := lstore l')\<rparr>
       in if admitted (last (served l')) then nxt w r s' else Done (httpError ''rate limit exceeded'' 429 w) s')"
  using assms by (auto simp: takeMutex_def readClock_def rateLimitingWrap_def storeAllow_def Let_def split: prod.splits)

section \<open>Witnesses\<close>

text \<open>The second of two requests gets the mutex first, ten milliseconds after the first read the clock.\<close>

definition demo_overtaken :: limiter where
  "demo_overtaken = takeMutex (Fin 10) (Fin 20) 0 (takeMutex (Fin 10) (Fin 20) 1 (readClock demo_request
     ((readClock demo_request (limiter_init 5))\<lparr>lclock := 10000005\<rparr>)))"

theorem limiter_bounds_admissions_witness:
  "(limiter_step (Fin 10) (Fin 20) 10000000)\<^sup>*\<^sup>* (limiter_init 5) demo_overtaken \<and>
    of_nat (length (filter (\<lambda>a. akey a = fromRequest demo_request \<and> admitted a)
      (filter (\<lambda>a. 0 \<le> servedAt a \<and> servedAt a \<le> 1000000000) (served demo_overtaken)))) \<le> (31 :: rat)"
proof -
  let ?window = "filter (\<lambda>a. 0 \<le> servedAt a \<and> servedAt a \<le> 1000000000) (served demo_overtaken)"
  let ?s1 = "readClock demo_request (limiter_init 5)"
  let ?s2 = "?s1\<lparr>lclock := 10000005\<rparr>"
  let ?s3 = "readClock demo_request ?s2"
  let ?s4 = "takeMutex (Fin 10) (Fin 20) 1 ?s3"
  have len: "length (waiting ?s3) = 2" "length (waiting ?s4) = 1" "length (served demo_overtaken) = 2"
    by (simp_all add: demo_overtaken_def readClock_def limiter_init_def takeMutex_def Let_def split: prod.splits)
  have "limiter_step (Fin 10) (Fin 20) 10000000 (limiter_init 5) ?s1" by (rule reads_clock)
  moreover have "limiter_step (Fin 10) (Fin 20) 10000000 ?s1 ?s2"
    using time_passes [of 10000000 ?s1 10000000] by (simp add: readClock_def limiter_init_def)
  moreover have "limiter_step (Fin 10) (Fin 20) 10000000 ?s2 ?s3" by (rule reads_clock)
  moreover have "limiter_step (Fin 10) (Fin 20) 10000000 ?s3 ?s4" by (rule takes_mutex) (simp add: len)
  moreover have "limiter_step (Fin 10) (Fin 20) 10000000 ?s4 demo_overtaken"
    unfolding demo_overtaken_def by (rule takes_mutex) (metis len(2) zero_less_one)
  ultimately have reach: "(limiter_step (Fin 10) (Fin 20) 10000000)\<^sup>*\<^sup>* (limiter_init 5) demo_overtaken"
    by (meson converse_rtranclp_into_rtranclp rtranclp.rtrancl_refl)
  have "skew_ok 10 20 10000000" by (simp add: skew_ok_def moderate_def)
  from limiter_bounds_admissions [OF this reach, of 0 1000000000 "fromRequest demo_request"]
  have "of_nat (length (filter (\<lambda>a. akey a = fromRequest demo_request \<and> admitted a) ?window)) \<le>
      20 + 10 * (of_int (1000000000 - 0 + 10000000) / 10 ^ 9) + of_nat (length ?window) * (4 / 10 ^ 9 :: rat)"
    by (simp add: len)
  moreover have "(of_nat (length ?window) :: rat) \<le> 2"
    using length_filter_le [of _ "served demo_overtaken"] len(3) by (metis of_nat_le_iff of_nat_numeral)
  ultimately have "of_nat (length (filter (\<lambda>a. akey a = fromRequest demo_request \<and> admitted a) ?window)) \<le> (31 :: rat)"
    by simp
  then show ?thesis using reach by blast
qed

end
