(* ===== verification/Service_Protection.thy ===== *)
theory Service_Protection
  imports Gateway_Lifecycle Limiter_Races
begin

text \<open>
  What two plugins do for the origins behind them, through the whole gateway: \<open>jwt_auth\<close> keeps
  requests without a valid token away from them, and \<open>rate_limiting\<close> bounds the calls one client can
  cause. The proofs compose the request id and client address middlewares, the mux, the metrics, the
  plugin chain, the load balancer and the retrying transport.
\<close>

text \<open>The attempts the transport of a service has for a request it may repeat.\<close>

definition attemptsOf :: "retryOptions \<Rightarrow> int" where
  "attemptsOf ro = max 1 (roMaxAttempts ro)"

text \<open>\<open>PreserveInbound\<close> changes nothing of a request but one header.\<close>

lemma preserved_request:
  obtains r1 where "(if p then preserveInbound h else h) w r s = h w r1 s" "reqMethod r1 = reqMethod r"
    "contentLength r1 = contentLength r" "upgradeType (reqHeader r1) = upgradeType (reqHeader r)"
    "extractToken r1 = extractToken r" "fromRequest r1 = fromRequest r"
proof (cases "p \<and> (\<exists>x xs. ctxInboundID r = Some (x # xs))")
  case True
  then obtain i where i: "p" "ctxInboundID r = Some i" "i \<noteq> []" by blast
  let ?r1 = "r\<lparr>reqHeader := hSet headerName i (reqHeader r)\<rparr>"
  show thesis
  proof (rule that [of ?r1])
    show "extractToken ?r1 = extractToken r" by (rule extractToken_id) simp_all
    show "fromRequest ?r1 = fromRequest r" by (rule fromRequest_cong) simp_all
  qed (use i in \<open>simp_all add: preserveInbound_def upgradeType_id\<close>)
next
  case False
  then have "(if p then preserveInbound h else h) w r s = h w r s"
    by (auto simp: preserveInbound_def Let_def neq_Nil_conv split: option.splits)
  then show thesis by (rule that) simp_all
qed

section \<open>Refusals\<close>

text \<open>
  The status of a refusal of the request \<open>r\<close> says who refused it: the token was not accepted, or one of
  the plugins \<open>ps\<close> before that check found the announced body too large, answered a preflight or found the
  client above its rate.
\<close>

definition refusal :: "plugin list \<Rightarrow> request \<Rightarrow> int \<Rightarrow> bool" where
  "refusal ps r st \<longleftrightarrow> st = 401 \<or> st = 413 \<and> (\<exists>n. RequestSizeLimiting n \<in> set ps \<and> n < contentLength r) \<or>
     st = 204 \<and> (\<exists>c. Cors c \<in> set ps) \<and> reqMethod r = ''OPTIONS'' \<or> st = 429 \<and> (\<exists>rl. RateLimiting rl \<in> set ps)"

lemma refusal_Cons: "refusal ps r st \<Longrightarrow> refusal (p # ps) r st"
  by (auto simp: refusal_def)

lemma refusal_cong: "reqMethod r' = reqMethod r \<Longrightarrow> contentLength r' = contentLength r \<Longrightarrow> refusal ps r' st = refusal ps r st"
  by (simp add: refusal_def)

text \<open>
  A handler refuses requests with the token \<open>tok\<close>: it answers them itself, with such a status, and
  what \<open>F\<close> reads of the world stays as it is.
\<close>

definition refuses :: "('w \<Rightarrow> 'b) \<Rightarrow> plugin list \<Rightarrow> string \<Rightarrow> 'w handler \<Rightarrow> bool" where
  "refuses F ps tok h \<longleftrightarrow> (\<forall>w r s. fresh w \<longrightarrow> extractToken r = tok \<longrightarrow>
     (\<exists>w' s'. h w r s = Done w' s' \<and> F s' = F s \<and> shape w' = shape w \<and> refusal ps r (sentStatus (base_of w'))))"

lemma refusesD:
  assumes "refuses F ps tok h" "fresh w" "extractToken r = tok"
  shows "\<exists>w' s'. h w r s = Done w' s' \<and> F s' = F s \<and> shape w' = shape w \<and> refusal ps r (sentStatus (base_of w'))"
  using assms unfolding refuses_def by blast

lemma refuses_request:
  assumes "refuses F ps tok h" "fresh w" "extractToken r' = tok" "reqMethod r' = reqMethod r" "contentLength r' = contentLength r"
  shows "\<exists>w' s'. h w r' s = Done w' s' \<and> F s' = F s \<and> shape w' = shape w \<and> refusal (p # ps) r (sentStatus (base_of w'))"
  using refusesD [OF assms(1-3), of s] refusal_cong [OF assms(4,5)] refusal_Cons by metis

text \<open>A plugin that does not write the header the token is read from.\<close>

fun keepsToken :: "plugin \<Rightarrow> bool" where
  "keepsToken (AddHeader hs) = list_all (\<lambda>(k, v). canonicalKey k \<noteq> ''Authorization'') hs"
| "keepsToken _ = True"

lemma extractToken_setAll:
  assumes "list_all (\<lambda>(k, v). canonicalKey k \<noteq> ''Authorization'') hs"
  shows "extractToken (r\<lparr>reqHeader := setAll hs (reqHeader r)\<rparr>) = extractToken r"
proof (rule extractToken_cong)
  have c: "canonicalKey ''Authorization'' = ''Authorization''" by code_simp
  have "hGet (setAll hs h) ''Authorization'' = hGet h ''Authorization''" for h
    using assms by (induction hs arbitrary: h) (auto simp: setAll_def hGet_hSet c)
  then show "hGet (reqHeader (r\<lparr>reqHeader := setAll hs (reqHeader r)\<rparr>)) ''Authorization'' = hGet (reqHeader r) ''Authorization''"
    by simp
qed simp

lemma jwt_refuses:
  assumes "\<forall>t kf. jwtParse t kf = Inr True \<longrightarrow> (\<exists>m key. kf m = Inr key \<and> signedWith t m key)"
    and "\<forall>alg. \<not> signedWith tok (SigningMethodHMAC alg) secret"
  shows "refuses F [] tok (jwtAuthWrap jwtParse secret h)"
proof -
  have no: "jwtParse tok (hmacKey secret) \<noteq> Inr True"
  proof
    assume "jwtParse tok (hmacKey secret) = Inr True"
    then obtain m key where "hmacKey secret m = Inr key" "signedWith tok m key" using assms(1) by blast
    then show False using assms(2) by (cases m) (auto simp: hmacKey_def)
  qed
  have "\<exists>msg. jwtAuthWrap jwtParse secret h w r s = Done (httpError msg 401 w) s" if "extractToken r = tok" for w r s
    using no that jwtAuthWrap_cases [of jwtParse secret h w r s] by blast
  then show ?thesis
    unfolding refuses_def refusal_def using httpError_sent(2) by fastforce
qed

lemma corsWrap_cases:
  obtains w1 where "fresh w1 \<longleftrightarrow> fresh w" "shape w1 = shape w"
    "corsWrap c h w r s = Done (writeHeader 204 w1) s \<and> isPreflight r \<or> corsWrap c h w r s = h w1 r s"
proof (cases "hGet (reqHeader r) ''Origin'' \<noteq> [] \<and> originAllowed c (hGet (reqHeader r) ''Origin'')")
  case True
  show thesis
    by (rule that [of "mapHeader (corsHeaders c (hGet (reqHeader r) ''Origin'') (isPreflight r)) w"])
      (use True in \<open>simp_all add: corsWrap_def Let_def\<close>)
next
  case False
  show thesis by (rule that [of w]) (use False in \<open>auto simp: corsWrap_def Let_def\<close>)
qed

lemma plugin_refuses:
  assumes allow: "\<And>ref k rps burst now s. F (snd (storeAllow ref k rps burst now s)) = F s"
    and log: "\<And>i f s. F (onLog i f s) = F s"
    and h: "refuses F ps tok h" and p: "keepsToken p"
  shows "refuses F (p # ps) tok (pluginWrap pf fmt p h)"
proof -
  have "\<exists>w' s'. pluginWrap pf fmt p h w r s = Done w' s' \<and> F s' = F s \<and> shape w' = shape w \<and>
      refusal (p # ps) r (sentStatus (base_of w'))" if fr: "fresh w" "extractToken r = tok" for w r s
  proof (cases p)
    case (AddHeader hs)
    then have "extractToken (r\<lparr>reqHeader := setAll hs (reqHeader r)\<rparr>) = tok" using extractToken_setAll [of hs r] p fr(2) by simp
    from refuses_request [OF h fr(1) this, of r s p] show ?thesis using AddHeader by (auto simp: addHeaderWrap_def)
  next
    case (HttpLog i)
    let ?s = "onLog i (logWrites (fmt (clock s)) (reqMethod r) (urlPath r) (fromContext r)) s"
    from refuses_request [OF h fr refl refl, of ?s p] show ?thesis using HttpLog log [of i _ s] by (auto simp: httpLogWrap_def)
  next
    case (RequestSizeLimiting n)
    have "extractToken (r\<lparr>reqBody := map_option (Limited n) (reqBody r)\<rparr>) = tok"
      using fr(2) extractToken_cong [of "r\<lparr>reqBody := map_option (Limited n) (reqBody r)\<rparr>" r] by simp
    from refuses_request [OF h fr(1) this, of r s p] show ?thesis
      using RequestSizeLimiting writeHeader_fresh_sent(2) [OF fr(1), of 413] by (auto simp: requestSizeLimitingWrap_def refusal_def)
  next
    case (JwtAuth sec)
    from refuses_request [OF h fr refl refl, of s p] show ?thesis
      using JwtAuth jwtAuthWrap_cases [of "jwtLib pf" sec h w r s] httpError_sent(2) [OF fr(1), of 401]
      by (fastforce simp: refusal_def)
  next
    case (Cors c)
    then obtain w1 where w1: "fresh w1" "shape w1 = shape w"
      "pluginWrap pf fmt p h w r s = Done (writeHeader 204 w1) s \<and> isPreflight r \<or> pluginWrap pf fmt p h w r s = h w1 r s"
      using fr(1) corsWrap_cases [of w c h r s] by auto
    from w1(3) show ?thesis
    proof (elim disjE conjE)
      assume "pluginWrap pf fmt p h w r s = h w1 r s"
      then show ?thesis using refuses_request [OF h w1(1) fr(2) refl refl, of s p] w1(2) by simp
    next
      assume "pluginWrap pf fmt p h w r s = Done (writeHeader 204 w1) s" "isPreflight r"
      then show ?thesis using writeHeader_fresh_sent(2) [OF w1(1), of 204] w1(2) Cors by (auto simp: refusal_def isPreflight_def)
    qed
  next
    case (ResponseHeaders q)
    have "fresh (ResponseHeadersWriter q False w)" using fr(1) by simp
    then obtain w1 s1 where out: "h (ResponseHeadersWriter q False w) r s = Done w1 s1" "F s1 = F s"
      "shape w1 = HeadersLayer q # shape w" "refusal (p # ps) r (sentStatus (base_of w1))"
      using refuses_request [OF h _ fr(2) refl refl, of "ResponseHeadersWriter q False w" s p] by auto
    then obtain a w2 where "w1 = ResponseHeadersWriter q a w2" by (cases w1) auto
    then show ?thesis using out ResponseHeaders by (simp add: responseHeadersWrap_def)
  next
    case (RateLimiting rl)
    obtain ok s1 where a: "storeAllow (rlStore rl) (fromRequest r) (rlRequestsPerSecond rl) (rlBurst rl) (clock s) s = (ok, s1)"
      by (metis surj_pair)
    have F: "F s1 = F s" using allow [of "rlStore rl" "fromRequest r" "rlRequestsPerSecond rl" "rlBurst rl" "clock s" s] a by simp
    show ?thesis
    proof (cases ok)
      case True
      then show ?thesis using refuses_request [OF h fr refl refl, of s1 p] a F RateLimiting by (simp add: rateLimitingWrap_def)
    next
      case False
      then show ?thesis using a F RateLimiting httpError_sent(2) [OF fr(1), of 429] by (auto simp: rateLimitingWrap_def refusal_def)
    qed
  qed
  then show ?thesis unfolding refuses_def by blast
qed

lemma pluginChain_Cons: "pluginChain pf fmt (p # ps) h = pluginWrap pf fmt p (pluginChain pf fmt ps h)"
  by (simp add: pluginChain_def)

lemma pluginChain_append: "pluginChain pf fmt (ps @ qs) h = pluginChain pf fmt ps (pluginChain pf fmt qs h)"
  by (induction ps) (simp_all add: pluginChain_def)

lemma chain_refuses:
  assumes "\<And>ref k rps burst now s. F (snd (storeAllow ref k rps burst now s)) = F s" "\<And>i f s. F (onLog i f s) = F s"
    and "refuses F [] tok h" "list_all keepsToken ps"
  shows "refuses F ps tok (pluginChain pf fmt ps h)"
  using assms(4)
proof (induction ps)
  case Nil
  then show ?case using assms(3) by (simp add: pluginChain_def)
next
  case (Cons p ps)
  then show ?case unfolding pluginChain_Cons by (intro plugin_refuses assms(1,2)) simp_all
qed

text \<open>What the origins and the load balancers see of a request: nothing.\<close>

definition backends :: "'a lb_world_scheme \<Rightarrow> request list \<times> (nat \<Rightarrow> originState) \<times> (nat \<Rightarrow> u64)" where
  "backends s = (netCalls s, origins s, counters s)"

lemma backends_keeps:
  "backends (snd (storeAllow ref k rps burst now s)) = backends s" "backends (onLog i f s) = backends s"
  by (cases ref; simp add: backends_def storeAllow_def onLog_def Let_def case_prod_unfold)+

lemma route_refuses:
  fixes s :: "'a metrics_world_scheme"
  assumes "refuses (backends :: 'a metrics_world_scheme \<Rightarrow> _) ps tok (pluginChain pf fmt (rtPlugins rt) (lbServeHTTP (rtProxy rt)))" "fresh w" "extractToken r = tok"
  shows "\<exists>w' s'. routeHandler pf fmt rt w r s = Done w' s' \<and> backends s' = backends s \<and> refusal ps r (sentStatus (base_of w'))"
proof -
  let ?h = "pluginChain pf fmt (rtPlugins rt) (lbServeHTTP (rtProxy rt))"
  obtain r1 where pr: "(if preserveRequestID (rtService rt) then preserveInbound ?h else ?h) (StatusWriter 200 w) r s =
      ?h (StatusWriter 200 w) r1 s" "extractToken r1 = tok" "reqMethod r1 = reqMethod r" "contentLength r1 = contentLength r" using assms(3) by (auto intro: preserved_request)
  have "fresh (StatusWriter 200 w)" using assms(2) by simp
  from refusesD [OF assms(1) this pr(2), of s] obtain w1 s1 where out: "?h (StatusWriter 200 w) r1 s = Done w1 s1"
    "backends s1 = backends s" "shape w1 = StatusLayer # shape w" "refusal ps r1 (sentStatus (base_of w1))" by auto
  then obtain st w2 where "w1 = StatusWriter st w2" by (cases w1) auto
  then show ?thesis using out pr(1) refusal_cong [OF pr(3,4)] by (simp add: routeHandler_def metricsWrap_def Let_def backends_def)
qed

lemma endSpan_counters: "counters (endSpan i s) = counters s" "stores (endSpan i s') = stores s'"
  by (simp_all add: endSpan_def)

text \<open>
  C5: A service behind \<open>jwt_auth\<close> is out of reach without a token of its secret. Through the whole
  gateway, a request for such a service whose token carries no HMAC signature under the configured
  secret is answered by the gateway and sends nothing to any origin, changes no origin's state and does
  not even take a turn of the load balancer. The answer is 401, unless the request was refused before:
  with 413 by a size limit its announced length exceeds, with 204 as an \<^verbatim>\<open>OPTIONS\<close> request by a
  \<open>cors\<close> plugin, with 429 by a rate limiter, each of them placed before \<open>jwt_auth\<close>, or with 400 by the mux
  when its path is \<^verbatim>\<open>*\<close>. The plugins before \<open>jwt_auth\<close> may be any that do not write the
  \<^verbatim>\<open>Authorization\<close> header, and the JWT library one that accepts a token only under a key
  the key function released.
\<close>

theorem jwt_protects_service:
  fixes s :: "'a metrics_world_scheme"
  assumes jwt_parse_contract: "\<forall>tok kf. jwtLib pf tok kf = Inr True \<longrightarrow> (\<exists>m key. kf m = Inr key \<and> signedWith tok m key)"
    and "dispatch (gwMux g) r = ToHandler rt" "rtPlugins rt = pre @ JwtAuth secret # post" "list_all keepsToken pre"
    and "\<forall>alg. \<not> signedWith (extractToken r) (SigningMethodHMAC alg) secret" "fresh (Base b)"
  shows "\<exists>w' s'. gatewayServe pf fmt us sdk g (Base b) r s = Done w' s' \<and>
    netCalls s' = netCalls s \<and> origins s' = origins s \<and> counters s' = counters s \<and>
    (let st = sentStatus (base_of w') in
       st = 401 \<or> st = 413 \<and> (\<exists>n. RequestSizeLimiting n \<in> set pre \<and> n < contentLength r) \<or>
       st = 204 \<and> (\<exists>c. Cors c \<in> set pre) \<and> reqMethod r = ''OPTIONS'' \<or>
       st = 429 \<and> (\<exists>rl. RateLimiting rl \<in> set pre) \<or> st = 400 \<and> urlPath r = ''*'')"
proof -
  let ?w = "mapHeader (hSet headerName (assignedID g r s)) (Base b)"
  obtain r' s0 i where serve: "gatewayServe pf fmt us sdk g (Base b) r s =
      map_world (endSpan i) (muxServeHTTP us (routeHandler pf fmt) (gwMux g) ?w r' s0)"
    and r': "dispatch (gwMux g) r' = dispatch (gwMux g) r" "extractToken r' = extractToken r" "urlPath r' = urlPath r"
      "reqMethod r' = reqMethod r" "contentLength r' = contentLength r"
    and s0: "backends s0 = backends s"
    using gatewayServe_mux [of pf fmt us sdk g "Base b" r s] unfolding backends_def by metis
  have fw: "fresh ?w" using assms(6) by (simp only: fresh_mapHeader)
  have "refuses (backends :: 'a metrics_world_scheme \<Rightarrow> _) [] (extractToken r) (pluginWrap pf fmt (JwtAuth secret) h)" for h
    unfolding pluginWrap.simps by (rule jwt_refuses [OF assms(1,5)])
  note front = this
  have "refuses (backends :: 'a metrics_world_scheme \<Rightarrow> _) pre (extractToken r) (pluginChain pf fmt (rtPlugins rt) (lbServeHTTP (rtProxy rt)))"
    unfolding assms(3) pluginChain_append pluginChain_Cons
    by (intro chain_refuses backends_keeps assms(4) front)
  from route_refuses [OF this fw r'(2), of s0] obtain w' s' where route:
    "routeHandler pf fmt rt ?w r' s0 = Done w' s'" "backends s' = backends s0" "refusal pre r' (sentStatus (base_of w'))" by blast
  have "\<exists>w' s'. gatewayServe pf fmt us sdk g (Base b) r s = Done w' s' \<and> backends s' = backends s \<and>
      (refusal pre r (sentStatus (base_of w')) \<or> sentStatus (base_of w') = 400 \<and> urlPath r = ''*'')"
  proof (cases "urlPath r = ''*''")
    case True
    have "fresh (mapHeader f ?w)" for f using fw by (simp only: fresh_mapHeader)
    then show ?thesis
      using True serve r'(3) s0 writeHeader_fresh_sent(2) [of "mapHeader (hSet ''Connection'' ''close'') ?w" 400]
      by (auto simp: muxServeHTTP_def backends_def endSpan_counters)
  next
    case False
    then show ?thesis
      using serve r'(1,3) assms(2) s0 route refusal_cong [OF r'(4,5)]
      by (auto simp: muxServeHTTP_def backends_def endSpan_counters)
  qed
  then show ?thesis unfolding backends_def refusal_def Let_def by auto
qed

section \<open>Load on the origins\<close>

definition spends :: "nat \<Rightarrow> nat \<Rightarrow> 'a plugin_world_scheme handler \<Rightarrow> bool" where
  "spends m n h \<longleftrightarrow> (\<forall>w r s. stores (world_of (h w r s)) n = stores s n \<and> clock s \<le> clock (world_of (h w r s)) \<and>
     (\<exists>sent. netCalls (world_of (h w r s)) = netCalls s @ sent \<and> length sent \<le> m))"

lemma serveOrigin_sends:
  "\<exists>sent. netCalls (world_of (serveOrigin lb o' w r s)) = netCalls s @ sent \<and> length sent \<le> nat (attemptsOf (lbRetry lb))"
proof -
  let ?rp = "originProxy (lbName lb) (lbRetry lb) (rrTarget o') (rrState o')"
  let ?out = "outgoing r (proxyDirector (rrTarget o') (if contentLength r = 0 then r\<lparr>reqBody := None\<rparr> else r))"
  obtain k q where "netCalls (snd (proxyTransport (lbRetry lb) ?out s)) = netCalls s @ replicate k q" "k \<le> max 1 (nat (roMaxAttempts (lbRetry lb)))"
    using transport_sends by blast
  moreover have "max 1 (nat (roMaxAttempts (lbRetry lb))) = nat (attemptsOf (lbRetry lb))" by (simp add: attemptsOf_def)
  ultimately show ?thesis
    using rpServe_sends [OF originProxy_quiet, of "lbName lb" "lbRetry lb" "rrTarget o'" "rrState o'" w r s]
    by (auto simp: serveOrigin_def)
qed

lemma lb_spends: "spends (nat (attemptsOf (lbRetry lb))) n (lbServeHTTP lb)"
proof -
  have "clock s \<le> clock (world_of (lbServeHTTP lb w r s)) \<and>
      (\<exists>sent. netCalls (world_of (lbServeHTTP lb w r s)) = netCalls s @ sent \<and> length sent \<le> nat (attemptsOf (lbRetry lb)))"
    for w r and s :: "'a lb_world_scheme"
  proof -
    obtain start s1 where adv: "advance lb s = (start, s1)" by (cases "advance lb s")
    then have s1: "clock s1 = clock s" "netCalls s1 = netCalls s" by (auto simp: advance_def Let_def)
    have "clock s1 \<le> clock (world_of (serveOrigin lb o' w r s1))" for o'
      using serveOrigin_touches [of o' s1 lb w r] touches_clock by blast
    then show ?thesis
      using serveOrigin_sends [of lb _ w r s1] adv s1 by (auto simp: lbServeHTTP_def Let_def split: option.splits)
  qed
  then show ?thesis by (simp add: spends_def lbServe_more)
qed

text \<open>A plugin that does not use the store \<open>n\<close> answers without touching it, or passes the request on.\<close>

definition avoids :: "nat \<Rightarrow> plugin \<Rightarrow> bool" where
  "avoids n p \<longleftrightarrow> (case p of RateLimiting rl \<Rightarrow> rlStore rl \<noteq> MemoryStore n | _ \<Rightarrow> True)"

definition passes :: "nat \<Rightarrow> 'a plugin_world_scheme handler \<Rightarrow> request \<Rightarrow> 'a plugin_world_scheme \<Rightarrow> 'a plugin_world_scheme \<Rightarrow> bool" where
  "passes n h r s s' \<longleftrightarrow> (\<exists>w1 r1 s1. (s' = s1 \<or> s' = world_of (h w1 r1 s1)) \<and> fromRequest r1 = fromRequest r \<and>
     clock s1 = clock s \<and> stores s1 n = stores s n \<and> netCalls s1 = netCalls s)"

lemma passes_stop: "clock s1 = clock s \<and> stores s1 n = stores s n \<and> netCalls s1 = netCalls s \<Longrightarrow> passes n h r s s1"
  unfolding passes_def by blast

lemma passes_on:
  "fromRequest r1 = fromRequest r \<Longrightarrow> clock s1 = clock s \<and> stores s1 n = stores s n \<and> netCalls s1 = netCalls s \<Longrightarrow>
    passes n h r s (world_of (h w1 r1 s1))"
  unfolding passes_def by blast

lemma plugin_passes:
  assumes "avoids n p"
  shows "passes n h r s (world_of (pluginWrap pf fmt p h w r s))"
proof (cases p)
  case (AddHeader hs)
  have "fromRequest (r\<lparr>reqHeader := setAll hs (reqHeader r)\<rparr>) = fromRequest r" by (rule fromRequest_cong) simp_all
  then show ?thesis using AddHeader by (simp add: addHeaderWrap_def passes_on)
next
  case (HttpLog i)
  have "clock (onLog i f s) = clock s \<and> stores (onLog i f s) n = stores s n \<and> netCalls (onLog i f s) = netCalls s" for f
    by (simp add: onLog_def Let_def case_prod_unfold)
  then show ?thesis using HttpLog by (simp add: httpLogWrap_def passes_on)
next
  case (RequestSizeLimiting k)
  have "fromRequest (r\<lparr>reqBody := map_option (Limited k) (reqBody r)\<rparr>) = fromRequest r" by (rule fromRequest_cong) simp_all
  then show ?thesis using RequestSizeLimiting by (simp add: requestSizeLimitingWrap_def passes_on passes_stop)
next
  case (JwtAuth secret)
  then show ?thesis using jwtAuthWrap_cases [of "jwtLib pf" secret h w r s] by (auto intro: passes_on passes_stop)
next
  case (Cors c)
  obtain w1 where "corsWrap c h w r s = Done (writeHeader 204 w1) s \<or> corsWrap c h w r s = h w1 r s"
    using corsWrap_cases [of w c h r s] by auto
  then show ?thesis using Cors by (auto intro: passes_on passes_stop)
next
  case (ResponseHeaders q)
  then show ?thesis by (simp add: responseHeadersWrap_def passes_on)
next
  case (RateLimiting rl)
  obtain ok s1 where a: "storeAllow (rlStore rl) (fromRequest r) (rlRequestsPerSecond rl) (rlBurst rl) (clock s) s = (ok, s1)"
    by (metis surj_pair)
  have "clock s1 = clock s \<and> stores s1 n = stores s n \<and> netCalls s1 = netCalls s"
    using a assms RateLimiting by (cases "rlStore rl") (auto simp: avoids_def storeAllow_def Let_def split: prod.splits)
  then show ?thesis using a RateLimiting by (auto simp: rateLimitingWrap_def intro: passes_on passes_stop)
qed

lemma chain_spends:
  assumes "spends m n h" "list_all (avoids n) ps"
  shows "spends m n (pluginChain pf fmt ps h)"
  using assms(2)
proof (induction ps)
  case Nil
  then show ?case using assms(1) by (simp add: pluginChain_def)
next
  case (Cons p ps)
  then have h: "spends m n (pluginChain pf fmt ps h)" and p: "avoids n p" by simp_all
  show ?case
    unfolding pluginChain_Cons spends_def
  proof (intro allI)
    fix w r s
    from plugin_passes [OF p, of "pluginChain pf fmt ps h" r s pf fmt w] h
    show "stores (world_of (pluginWrap pf fmt p (pluginChain pf fmt ps h) w r s)) n = stores s n \<and>
        clock s \<le> clock (world_of (pluginWrap pf fmt p (pluginChain pf fmt ps h) w r s)) \<and>
        (\<exists>sent. netCalls (world_of (pluginWrap pf fmt p (pluginChain pf fmt ps h) w r s)) = netCalls s @ sent \<and> length sent \<le> m)"
      unfolding passes_def spends_def by (metis append_Nil2 le0 list.size(3) order_refl)
  qed
qed

text \<open>
  What a rate limited handler does with a request: perhaps it refuses it before the limiter sees it;
  else the store decides, and only an admitted request costs calls to the network.
\<close>

definition meets_limiter :: "nat \<Rightarrow> nat \<Rightarrow> f64 \<Rightarrow> f64 \<Rightarrow> string \<Rightarrow> 'a plugin_world_scheme \<Rightarrow> 'a plugin_world_scheme \<Rightarrow> bool" where
  "meets_limiter m n rps burst k s s' \<longleftrightarrow> clock s \<le> clock s' \<and> (\<exists>sent. netCalls s' = netCalls s @ sent \<and>
     (stores s' n = stores s n \<and> sent = [] \<or>
      (\<exists>ok. memAllow k rps burst (clock s) (stores s n) = (ok, stores s' n) \<and> length sent \<le> (if ok then m else 0))))"

definition limited :: "nat \<Rightarrow> nat \<Rightarrow> f64 \<Rightarrow> f64 \<Rightarrow> 'a plugin_world_scheme handler \<Rightarrow> bool" where
  "limited m n rps burst h \<longleftrightarrow> (\<forall>w r s. meets_limiter m n rps burst (fromRequest r) s (world_of (h w r s)))"

lemma limiter_limited:
  assumes "rlStore p = MemoryStore n" "spends m n h"
  shows "limited m n (rlRequestsPerSecond p) (rlBurst p) (rateLimitingWrap p h)"
  unfolding limited_def
proof (intro allI)
  fix w r and s :: "'a plugin_world_scheme"
  obtain ok st where a: "memAllow (fromRequest r) (rlRequestsPerSecond p) (rlBurst p) (clock s) (stores s n) = (ok, st)"
    by (metis surj_pair)
  let ?s = "s\<lparr>stores := (stores s)(n := st)\<rparr>"
  have "rateLimitingWrap p h w r s = (if ok then h w r ?s else Done (httpError ''rate limit exceeded'' 429 w) ?s)"
    using assms(1) a by (simp add: rateLimitingWrap_def storeAllow_def)
  moreover obtain sent where "netCalls (world_of (h w r ?s)) = netCalls s @ sent" "length sent \<le> m"
    "stores (world_of (h w r ?s)) n = st" "clock s \<le> clock (world_of (h w r ?s))"
    using assms(2) [unfolded spends_def, rule_format, of w r ?s] by auto
  ultimately show "meets_limiter m n (rlRequestsPerSecond p) (rlBurst p) (fromRequest r) s (world_of (rateLimitingWrap p h w r s))"
    using a by (auto simp: meets_limiter_def)
qed

lemma meets_limiter_stop:
  "clock s' = clock s \<Longrightarrow> stores s' n = stores s n \<Longrightarrow> netCalls s' = netCalls s \<Longrightarrow> meets_limiter m n rps burst k s s'"
  by (simp add: meets_limiter_def)

lemma meets_limiter_cong:
  "meets_limiter m n rps burst k s1 s' \<Longrightarrow> clock s1 = clock s \<Longrightarrow> stores s1 n = stores s n \<Longrightarrow> netCalls s1 = netCalls s \<Longrightarrow>
    meets_limiter m n rps burst k s s'"
  by (simp add: meets_limiter_def)

lemma chain_limited:
  assumes "limited m n rps burst h" "list_all (avoids n) ps"
  shows "limited m n rps burst (pluginChain pf fmt ps h)"
  using assms(2)
proof (induction ps)
  case Nil
  then show ?case using assms(1) by (simp add: pluginChain_def)
next
  case (Cons p ps)
  then have h: "limited m n rps burst (pluginChain pf fmt ps h)" and p: "avoids n p" by simp_all
  show ?case
    unfolding pluginChain_Cons limited_def
  proof (intro allI)
    fix w r s
    from plugin_passes [OF p, of "pluginChain pf fmt ps h" r s pf fmt w]
    show "meets_limiter m n rps burst (fromRequest r) s (world_of (pluginWrap pf fmt p (pluginChain pf fmt ps h) w r s))"
      unfolding passes_def using h [unfolded limited_def] meets_limiter_stop meets_limiter_cong by metis
  qed
qed

definition clientKey :: "gateway \<Rightarrow> request \<Rightarrow> string" where
  "clientKey g r = fromRequest (r\<lparr>ctxClientIP := Some (resolve (Some (gwProxies g)) r)\<rparr>)"

text \<open>A service with one in-memory limiter of its own.\<close>

definition limitedRoute :: "route \<Rightarrow> nat \<Rightarrow> rateLimiting \<Rightarrow> bool" where
  "limitedRoute rt n p \<longleftrightarrow> rlStore p = MemoryStore n \<and>
     (\<exists>pre post. rtPlugins rt = pre @ RateLimiting p # post \<and> list_all (avoids n) pre \<and> list_all (avoids n) post)"

lemma routeHandler_world:
  fixes s :: "'a metrics_world_scheme"
  obtains w1 r1 where "fromRequest r1 = fromRequest r"
    "clock (world_of (routeHandler pf fmt rt w r s)) = clock (world_of (pluginChain pf fmt (rtPlugins rt) (lbServeHTTP (rtProxy rt)) w1 r1 s))"
    "stores (world_of (routeHandler pf fmt rt w r s)) = stores (world_of (pluginChain pf fmt (rtPlugins rt) (lbServeHTTP (rtProxy rt)) w1 r1 s))"
    "netCalls (world_of (routeHandler pf fmt rt w r s)) = netCalls (world_of (pluginChain pf fmt (rtPlugins rt) (lbServeHTTP (rtProxy rt)) w1 r1 s))"
proof -
  let ?h = "pluginChain pf fmt (rtPlugins rt) (lbServeHTTP (rtProxy rt))"
  obtain r1 where pr: "(if preserveRequestID (rtService rt) then preserveInbound ?h else ?h) (StatusWriter 200 w) r s =
      ?h (StatusWriter 200 w) r1 s" "fromRequest r1 = fromRequest r" by (rule preserved_request)
  show thesis
    by (rule that [OF pr(2), of "StatusWriter 200 w"])
      (use pr(1) in \<open>auto simp: routeHandler_def metricsWrap_def Let_def split: hres.splits\<close>)
qed

lemma gateway_meets_limiter:
  fixes s :: "'a metrics_world_scheme"
  assumes "dispatch (gwMux g) r = ToHandler rt" "limitedRoute rt n p"
  shows "meets_limiter (nat (attemptsOf (lbRetry (rtProxy rt)))) n (rlRequestsPerSecond p) (rlBurst p) (clientKey g r)
    s (world_of (gatewayServe pf fmt us sdk g w r s))"
proof -
  let ?w = "mapHeader (hSet headerName (assignedID g r s)) w"
  let ?meets = "meets_limiter (nat (attemptsOf (lbRetry (rtProxy rt)))) n (rlRequestsPerSecond p) (rlBurst p)"
  obtain pre post where ps: "rlStore p = MemoryStore n" "rtPlugins rt = pre @ RateLimiting p # post"
    "list_all (avoids n) pre" "list_all (avoids n) post" using assms(2) by (auto simp: limitedRoute_def)
  obtain r' s0 i where serve: "gatewayServe pf fmt us sdk g w r s =
      map_world (endSpan i) (muxServeHTTP us (routeHandler pf fmt) (gwMux g) ?w r' s0)"
    and r': "dispatch (gwMux g) r' = dispatch (gwMux g) r" "fromRequest r' = clientKey g r"
    and s0: "netCalls s0 = netCalls s" "clock s0 = clock s" "stores s0 = stores s"
    using gatewayServe_mux [of pf fmt us sdk g w r s] unfolding clientKey_def by metis
  let ?h = "pluginChain pf fmt (rtPlugins rt) (lbServeHTTP (rtProxy rt)) :: 'a metrics_world_scheme handler"
  have h: "limited (nat (attemptsOf (lbRetry (rtProxy rt)))) n (rlRequestsPerSecond p) (rlBurst p) ?h"
    unfolding ps(2) pluginChain_append pluginChain_Cons pluginWrap.simps
    by (intro chain_limited limiter_limited chain_spends lb_spends ps)
  obtain w1 r1 where r1: "fromRequest r1 = fromRequest r'"
    "clock (world_of (routeHandler pf fmt rt ?w r' s0)) = clock (world_of (?h w1 r1 s0))"
    "stores (world_of (routeHandler pf fmt rt ?w r' s0)) = stores (world_of (?h w1 r1 s0))"
    "netCalls (world_of (routeHandler pf fmt rt ?w r' s0)) = netCalls (world_of (?h w1 r1 s0))"
    by (rule routeHandler_world)
  have "?meets (clientKey g r) s0 (world_of (?h w1 r1 s0))" using h r1(1) r'(2) unfolding limited_def by metis
  then have "?meets (clientKey g r) s (world_of (routeHandler pf fmt rt ?w r' s0))"
    using r1 s0 by (simp add: meets_limiter_def)
  then have "?meets (clientKey g r) s (endSpan i (world_of (routeHandler pf fmt rt ?w r' s0)))"
    by (simp add: meets_limiter_def endSpan_counters)
  moreover have "?meets (clientKey g r) s (endSpan i s0)"
    using s0 by (intro meets_limiter_stop) (simp_all add: endSpan_counters)
  moreover have "world_of (map_world (endSpan i) x) = endSpan i (world_of x)" for x by (cases x) simp_all
  ultimately show ?thesis using serve r'(1) assms(1) by (simp add: muxServeHTTP_def)
qed

text \<open>
  The life of a route: requests it serves, each recorded with its client, its instant and the calls
  it made to the network, and in between anything that leaves the limiter's store alone.
\<close>

record visit =
  vClient :: string
  vAt :: instant
  vCalls :: nat

inductive traffic ::
  "platform \<Rightarrow> (instant \<Rightarrow> string) \<Rightarrow> (string \<Rightarrow> request \<Rightarrow> string) \<Rightarrow> (string \<Rightarrow> nat \<Rightarrow> string option) \<Rightarrow> gateway \<Rightarrow> route \<Rightarrow> nat \<Rightarrow>
   'a metrics_world_scheme \<Rightarrow> visit list \<Rightarrow> 'a metrics_world_scheme \<Rightarrow> bool"
  for pf fmt us sdk g rt n s where
  start: "traffic pf fmt us sdk g rt n s [] s"
| meanwhile: "traffic pf fmt us sdk g rt n s vs s1 \<Longrightarrow> stores s2 n = stores s1 n \<Longrightarrow> clock s1 \<le> clock s2 \<Longrightarrow>
    traffic pf fmt us sdk g rt n s vs s2"
| visits: "traffic pf fmt us sdk g rt n s vs s1 \<Longrightarrow> dispatch (gwMux g) r = ToHandler rt \<Longrightarrow>
    s2 = world_of (gatewayServe pf fmt us sdk g w r s1) \<Longrightarrow>
    traffic pf fmt us sdk g rt n s
      (vs @ [\<lparr>vClient = clientKey g r, vAt = clock s1, vCalls = length (netCalls s2) - length (netCalls s1)\<rparr>]) s2"

text \<open>Some of the visits met the limiter, and only those it admitted called the network.\<close>

definition accounted :: "nat \<Rightarrow> f64 \<Rightarrow> f64 \<Rightarrow> visit list \<Rightarrow> admission list \<Rightarrow> memoryStore \<Rightarrow> instant \<Rightarrow> bool" where
  "accounted m rps burst vs as st t \<longleftrightarrow>
     runStore memAllow rps burst (map (\<lambda>a. (akey a, stamp a)) as) newMemoryStore = (map admitted as, st) \<and>
     sorted (map stamp as) \<and> (\<forall>a \<in> set as. stamp a \<le> t) \<and>
     (\<forall>P. sum_list (map vCalls (filter (\<lambda>v. P (vClient v) (vAt v)) vs)) \<le>
       m * length (filter (\<lambda>a. P (akey a) (stamp a) \<and> admitted a) as)) \<and>
     (\<forall>P. length (filter (\<lambda>a. P (akey a) (stamp a)) as) \<le> length (filter (\<lambda>v. P (vClient v) (vAt v)) vs))"

lemma accounted_calls:
  "accounted m rps burst vs as st t \<Longrightarrow> sum_list (map vCalls (filter (\<lambda>v. P (vClient v) (vAt v)) vs)) \<le>
    m * length (filter (\<lambda>a. P (akey a) (stamp a) \<and> admitted a) as)"
  by (simp add: accounted_def)

lemma accounted_count:
  "accounted m rps burst vs as st t \<Longrightarrow>
    length (filter (\<lambda>a. P (akey a) (stamp a)) as) \<le> length (filter (\<lambda>v. P (vClient v) (vAt v)) vs)"
  by (simp add: accounted_def)

lemma accounted_visit:
  assumes a: "accounted m rps burst vs as (stores s1 n) (clock s1)" and "meets_limiter m n rps burst k s1 s2"
  defines "v \<equiv> \<lparr>vClient = k, vAt = clock s1, vCalls = length (netCalls s2) - length (netCalls s1)\<rparr>"
  shows "\<exists>as. accounted m rps burst (vs @ [v]) as (stores s2 n) (clock s2)"
proof -
  obtain sent where s2: "clock s1 \<le> clock s2" "netCalls s2 = netCalls s1 @ sent"
    and or: "stores s2 n = stores s1 n \<and> sent = [] \<or>
      (\<exists>ok. memAllow k rps burst (clock s1) (stores s1 n) = (ok, stores s2 n) \<and> length sent \<le> (if ok then m else 0))"
    using assms(2) by (auto simp: meets_limiter_def)
  have v: "vClient v = k" "vAt v = clock s1" "vCalls v = length sent" by (simp_all add: v_def s2(2))
  have late: "\<forall>a \<in> set as. stamp a \<le> clock s2" using a s2(1) by (auto simp: accounted_def)
  from or consider (before) "stores s2 n = stores s1 n" "sent = []"
    | (met) ok where "memAllow k rps burst (clock s1) (stores s1 n) = (ok, stores s2 n)" "length sent \<le> (if ok then m else 0)"
    by blast
  then show ?thesis
  proof cases
    case before
    then have "accounted m rps burst (vs @ [v]) as (stores s2 n) (clock s2)"
      using a late v by (auto simp: accounted_def intro: le_SucI)
    then show ?thesis by blast
  next
    case met
    let ?as = "as @ [\<lparr>akey = k, stamp = clock s1, servedAt = clock s1, admitted = ok\<rparr>]"
    have "sum_list (map vCalls (filter (\<lambda>v. P (vClient v) (vAt v)) (vs @ [v]))) \<le>
        m * length (filter (\<lambda>a. P (akey a) (stamp a) \<and> admitted a) ?as)" for P
    proof -
      show ?thesis using accounted_calls [OF a, of P] met(2) v by (cases ok) simp_all
    qed
    moreover have "length (filter (\<lambda>a. P (akey a) (stamp a)) ?as) \<le> length (filter (\<lambda>v. P (vClient v) (vAt v)) (vs @ [v]))" for P
      using a v by (simp add: accounted_def)
    moreover have "runStore memAllow rps burst (map (\<lambda>a. (akey a, stamp a)) ?as) newMemoryStore = (map admitted ?as, stores s2 n)"
      using a met(1) by (simp add: accounted_def runStore_append)
    moreover have "sorted (map stamp ?as)" "\<forall>a \<in> set ?as. stamp a \<le> clock s2"
      using a late s2(1) by (auto simp: accounted_def sorted_append)
    ultimately have "accounted m rps burst (vs @ [v]) ?as (stores s2 n) (clock s2)" unfolding accounted_def by blast
    then show ?thesis by blast
  qed
qed

lemma accounted_later: "accounted m rps burst vs as st t \<Longrightarrow> t \<le> t' \<Longrightarrow> accounted m rps burst vs as st t'"
  by (auto simp: accounted_def)

lemma traffic_accounted:
  assumes "traffic pf fmt us sdk g rt n s vs s'" "stores s n = newMemoryStore" "limitedRoute rt n p"
  shows "\<exists>as. accounted (nat (attemptsOf (lbRetry (rtProxy rt)))) (rlRequestsPerSecond p) (rlBurst p) vs as (stores s' n) (clock s')"
  using assms(1)
proof (induction rule: traffic.induct)
  case start
  show ?case by (rule exI [of _ "[]"]) (simp add: accounted_def assms(2))
next
  case (meanwhile vs s1 s2)
  then show ?case using accounted_later by metis
next
  case (visits vs s1 r s2 w)
  then obtain as where "accounted (nat (attemptsOf (lbRetry (rtProxy rt)))) (rlRequestsPerSecond p) (rlBurst p) vs as (stores s1 n) (clock s1)"
    by blast
  from accounted_visit [OF this] gateway_meets_limiter [OF visits(2) assms(3), where pf = pf and fmt = fmt and us = us and sdk = sdk and w = w and s = s1] visits(3)
  show ?case by blast
qed

text \<open>The limiter's bound for the calls of a window.\<close>

lemma accounted_window:
  assumes a: "accounted m (Fin R) (Fin B) vs as st t" and m: "moderate R B" "B \<le> 600 * R" and "t1 \<le> t2"
  defines "win \<equiv> filter (\<lambda>a. t1 \<le> stamp a \<and> stamp a \<le> t2) as"
  shows "of_nat (length (filter (\<lambda>a. akey a = k \<and> admitted a) win)) \<le>
    B + R * (of_int (t2 - t1) / 10 ^ 9) + of_nat (length win) * (2 / 10 ^ 9)"
proof (cases "map (\<lambda>a. (akey a, stamp a)) win")
  case Nil
  have "0 \<le> earned R t1 t2" using m(1) assms(4) by (intro earned_nonneg) (simp_all add: moderate_def)
  then show ?thesis using Nil m(1) by (simp add: moderate_def earned_def)
next
  case (Cons c rest)
  let ?cs = "map (\<lambda>a. (akey a, stamp a))" and ?run = "runStore memAllow (Fin R) (Fin B)"
  define before after where "before = filter (\<lambda>a. stamp a < t1) as" and "after = filter (\<lambda>a. t2 < stamp a) as"
  have parts: "as = before @ win @ after"
    unfolding before_def win_def after_def using a assms(4) by (intro sorted_window) (simp_all add: accounted_def)
  have all: "?run (?cs (before @ win @ after)) newMemoryStore = (map admitted (before @ win @ after), st)"
    "sorted (map stamp (before @ win @ after))"
    using a parts by (simp_all add: accounted_def)
  obtain s1 s2 where run: "?run (?cs before) newMemoryStore = (map admitted before, s1)" "?run (?cs win) s1 = (map admitted win, s2)"
    by (rule runStore_parts [OF all(1)])
  obtain k1 ta where c: "c = (k1, ta)" by (cases c)
  have "map snd (?cs before @ (k1, ta) # rest) = map stamp (before @ win)"
    using Cons c by (metis (no_types, lifting) comp_apply map_append map_map map_cong snd_conv)
  then have "sorted (map snd (?cs before @ (k1, ta) # rest))" using all(2) by (simp only: map_append sorted_append set_append) blast
  from rate_limit_over_window [OF m this run(1), of "map admitted win" s2 k] run(2) Cons c
  have "of_nat (granted k (?cs win) (map admitted win)) \<le>
      B + R * (of_int (lastTime ta rest - ta) / 10 ^ 9) + of_nat (Suc (length rest)) * (2 / 10 ^ 9)"
    by simp
  moreover have "R * (of_int (lastTime ta rest - ta) / 10 ^ 9) \<le> R * (of_int (t2 - t1) / 10 ^ 9)"
  proof -
    have in_win: "\<forall>c \<in> set (c # rest). t1 \<le> snd c \<and> snd c \<le> t2" unfolding Cons [symmetric] by (auto simp: win_def)
    then have "lastTime ta rest \<le> t2" "t1 \<le> ta" using c by (auto intro!: lastTime_le)
    then have "(of_int (lastTime ta rest - ta) :: rat) \<le> of_int (t2 - t1)" by (simp only: of_int_le_iff)
    then show ?thesis using m(1) by (intro mult_left_mono divide_right_mono) (simp_all add: moderate_def)
  qed
  moreover have "length win = Suc (length rest)" using Cons by (metis length_Cons length_map)
  ultimately show ?thesis by (simp add: granted_count)
qed

text \<open>
  C6: A rate limit bounds the load on the origins. A service whose plugins hold one in-memory
  \<open>rate_limiting\<close>, among any others, serves requests of any clients, one after the other from the time
  the limiter was built, while anything else happens that leaves the limiter's store alone; whatever
  headers they send, the requests of one client (by its resolved address) that arrive between two
  instants make at most as many calls to the network as the burst plus the rate times that time allows
  requests, times the attempts the retrying transport has, up to the rounding of two thousand-millionths
  of a request for each that arrives. Rate and burst are at most a million, the burst is at least one,
  and at most what the rate refills in ten minutes: a slower bucket is dropped before it is full again.
\<close>

theorem limiter_protects_origins:
  assumes "traffic pf fmt us sdk g rt n s vs s'" "stores s n = newMemoryStore" "limitedRoute rt n p"
    and "rlRequestsPerSecond p = Fin R" "rlBurst p = Fin B" "moderate R B" "B \<le> 600 * R" "t1 \<le> t2"
  defines "window \<equiv> filter (\<lambda>v. t1 \<le> vAt v \<and> vAt v \<le> t2) vs"
  shows "of_nat (sum_list (map vCalls (filter (\<lambda>v. vClient v = k) window))) \<le>
    of_int (attemptsOf (lbRetry (rtProxy rt))) *
      (B + R * (of_int (t2 - t1) / 10 ^ 9) + of_nat (length window) * (2 / 10 ^ 9))"
proof -
  let ?m = "nat (attemptsOf (lbRetry (rtProxy rt)))"
  obtain as where as: "accounted ?m (Fin R) (Fin B) vs as (stores s' n) (clock s')"
    using traffic_accounted [OF assms(1-3)] assms(4,5) by auto
  let ?in = "\<lambda>t. t1 \<le> t \<and> t \<le> t2"
  let ?win = "filter (\<lambda>a. ?in (stamp a)) as" and ?adm = "\<lambda>a. akey a = k \<and> admitted a"
  have "sum_list (map vCalls (filter (\<lambda>v. vClient v = k) window)) \<le> ?m * length (filter ?adm ?win)"
    using accounted_calls [OF as, of "\<lambda>c t. c = k \<and> ?in t"]
    by (simp add: window_def conj_commute conj_left_commute)
  then have "(of_nat (sum_list (map vCalls (filter (\<lambda>v. vClient v = k) window))) :: rat) \<le> of_nat (?m * length (filter ?adm ?win))"
    by (simp only: of_nat_le_iff)
  also have "\<dots> = of_nat ?m * of_nat (length (filter ?adm ?win))" by simp
  also have "\<dots> \<le> of_nat ?m * (B + R * (of_int (t2 - t1) / 10 ^ 9) + of_nat (length window) * (2 / 10 ^ 9))"
  proof (rule mult_left_mono)
    have "length ?win \<le> length window" using accounted_count [OF as, of "\<lambda>c. ?in"] by (simp add: window_def)
    then have "(of_nat (length ?win) :: rat) * (2 / 10 ^ 9) \<le> of_nat (length window) * (2 / 10 ^ 9)"
      by (intro mult_right_mono) simp_all
    then show "of_nat (length (filter ?adm ?win)) \<le> B + R * (of_int (t2 - t1) / 10 ^ 9) + of_nat (length window) * (2 / 10 ^ 9)"
      using accounted_window [OF as assms(6-8), of k] by linarith
  qed simp
  also have "(of_nat ?m :: rat) = of_int (attemptsOf (lbRetry (rtProxy rt)))" by (simp add: attemptsOf_def)
  finally show ?thesis .
qed

section \<open>Witnesses\<close>

definition demo_locked_route :: route where
  "demo_locked_route = demo_route\<lparr>rtPlugins := [RequestSizeLimiting 1, AddHeader [(''X-Via'', ''dealer'')], JwtAuth ''other'']\<rparr>"

definition demo_locked_gateway :: gateway where
  "demo_locked_gateway = demo_gateway\<lparr>gwMux := [(demo_pattern, demo_locked_route)]\<rparr>"

definition demo_shop_request :: request where
  "demo_shop_request = demo_request\<lparr>urlPath := ''/shop/x'', contentLength := 0\<rparr>"

definition demo_token_request :: request where
  "demo_token_request = demo_shop_request\<lparr>urlQuery := [''token'' \<mapsto> [''good'']]\<rparr>"

theorem jwt_protects_service_witness:
  "\<exists>w' s'. gatewayServe demo_platform (\<lambda>_. []) (\<lambda>p r. p) (\<lambda>_ _. None) demo_locked_gateway demo_writer demo_token_request demo_gw_world = Done w' s' \<and>
    sentStatus (base_of w') = 401 \<and> netCalls s' = []"
proof -
  let ?signed = "\<lambda>tok m key. tok = ''good'' \<and> m = SigningMethodHMAC ''HS256'' \<and> key = ''secret''"
  have "\<forall>tok kf. jwtLib demo_platform tok kf = Inr True \<longrightarrow> (\<exists>m key. kf m = Inr key \<and> ?signed tok m key)"
    by (auto simp: demo_platform_def demo_jwt_def split: sum.splits)
  moreover have "dispatch (gwMux demo_locked_gateway) demo_token_request = ToHandler demo_locked_route"
    unfolding demo_locked_gateway_def by simp code_simp
  moreover have "rtPlugins demo_locked_route = [RequestSizeLimiting 1, AddHeader [(''X-Via'', ''dealer'')]] @ JwtAuth ''other'' # []"
    by (simp add: demo_locked_route_def)
  moreover have "list_all keepsToken [RequestSizeLimiting 1, AddHeader [(''X-Via'', ''dealer'')]]" by code_simp
  moreover have "\<forall>alg. \<not> ?signed (extractToken demo_token_request) (SigningMethodHMAC alg) ''other''" by simp
  moreover have "fresh (Base (base_of demo_writer))" by (simp add: demo_writer_def fresh_def)
  moreover have "\<not> 1 < contentLength demo_token_request" "urlPath demo_token_request \<noteq> ''*''"
    by (simp_all add: demo_token_request_def demo_shop_request_def)
  ultimately have "\<exists>w' s'. gatewayServe demo_platform (\<lambda>_. []) (\<lambda>p r. p) (\<lambda>_ _. None) demo_locked_gateway (Base (base_of demo_writer))
      demo_token_request demo_gw_world = Done w' s' \<and> sentStatus (base_of w') = 401 \<and> netCalls s' = netCalls demo_gw_world"
    using jwt_protects_service [where signedWith = ?signed and pf = demo_platform and fmt = "\<lambda>_. []" and us = "\<lambda>p r. p"
        and sdk = "\<lambda>_ _. None" and g = demo_locked_gateway and b = "base_of demo_writer" and s = demo_gw_world
        and secret = "''other''" and pre = "[RequestSizeLimiting 1, AddHeader [(''X-Via'', ''dealer'')]]" and post = "[]"
        and rt = demo_locked_route and r = demo_token_request]
    by (auto simp: Let_def)
  moreover have "netCalls demo_gw_world = []" by (simp add: demo_gw_world_def demo_metrics_world_def)
  moreover have "demo_writer = Base (base_of demo_writer)" by (simp add: demo_writer_def)
  ultimately show ?thesis by metis
qed

definition demo_limiter :: rateLimiting where
  "demo_limiter = \<lparr>rlRequestsPerSecond = Fin 10, rlBurst = Fin 20, rlStore = MemoryStore 0\<rparr>"

definition demo_limited_route :: route where
  "demo_limited_route = demo_route\<lparr>rtPlugins := [RequestSizeLimiting 1, RateLimiting demo_limiter]\<rparr>"

definition demo_limited_gateway :: gateway where
  "demo_limited_gateway = demo_gateway\<lparr>gwMux := [(demo_pattern, demo_limited_route)]\<rparr>"

theorem limiter_protects_origins_witness:
  "\<exists>vs s'. length vs = 2 \<and> traffic demo_platform (\<lambda>_. []) (\<lambda>p r. p) (\<lambda>_ _. None) demo_limited_gateway demo_limited_route 0 demo_gw_world vs s' \<and>
    of_nat (sum_list (map vCalls (filter (\<lambda>v. vClient v = clientKey demo_limited_gateway demo_shop_request)
      (filter (\<lambda>v. 0 \<le> vAt v \<and> vAt v \<le> 1000000000) vs)))) \<le> (31 :: rat)"
proof -
  let ?traffic = "traffic demo_platform (\<lambda>_. []) (\<lambda>p r. p) (\<lambda>_ _. None) demo_limited_gateway demo_limited_route 0 demo_gw_world"
  have d: "dispatch (gwMux demo_limited_gateway) demo_shop_request = ToHandler demo_limited_route"
    unfolding demo_limited_gateway_def by simp code_simp
  obtain v1 s1 where "?traffic [v1] s1" using visits [OF start d refl] by force
  from visits [OF this d refl, of demo_writer] obtain v2 s2 where run: "?traffic [v1, v2] s2" by force
  have route: "limitedRoute demo_limited_route 0 demo_limiter"
    unfolding limitedRoute_def
    by (intro conjI exI [of _ "[RequestSizeLimiting 1]"] exI [of _ "[]"])
      (simp_all add: demo_limited_route_def demo_limiter_def avoids_def)
  have store: "stores demo_gw_world 0 = newMemoryStore" by (simp add: demo_gw_world_def demo_metrics_world_def)
  let ?w = "filter (\<lambda>v. 0 \<le> vAt v \<and> vAt v \<le> 1000000000) [v1, v2]"
  have one: "attemptsOf (lbRetry (rtProxy demo_limited_route)) = 1"
    by (simp add: demo_limited_route_def demo_route_def attemptsOf_def)
  have p: "rlRequestsPerSecond demo_limiter = Fin 10" "rlBurst demo_limiter = Fin 20" "moderate 10 20" "(20 :: rat) \<le> 600 * 10" "(0 :: int) \<le> 1000000000"
    by (simp_all add: demo_limiter_def moderate_def)
  let ?calls = "of_nat (sum_list (map vCalls (filter (\<lambda>v. vClient v = clientKey demo_limited_gateway demo_shop_request) ?w))) :: rat"
  have "?calls \<le> of_int 1 * (20 + 10 * (of_int (1000000000 - 0) / 10 ^ 9) + of_nat (length ?w) * (2 / 10 ^ 9))"
    using limiter_protects_origins [OF run store route p] unfolding one .
  also have "\<dots> \<le> 20 + 10 * (of_int (1000000000 - 0) / 10 ^ 9) + 2 * (2 / 10 ^ 9)"
  proof -
    have "(of_nat (length ?w) :: rat) \<le> 2" by simp
    then show ?thesis by simp
  qed
  also have "\<dots> \<le> 31" by simp
  finally have "?calls \<le> 31" .
  then show ?thesis using run by (intro exI [of _ "[v1, v2]"] exI [of _ s2]) simp
qed

end
