(* ===== verification/Spec2Isabelle.thy ===== *)
theory Spec2Isabelle
  imports Load_Test Dealer_Main Origin_Locks Reload_Steps Plugin_Types Service_Protection
begin

text \<open>
  \<^bold>\<open>Dealer, an API gateway.\<close> This library models the gateway under \<^verbatim>\<open>src/gateway\<close>,
  its command under \<^verbatim>\<open>src/cmd/dealer\<close>, the project information under
  \<^verbatim>\<open>src/config\<close> and the tools under \<^verbatim>\<open>src/loadtest\<close>, and proves what makes them correct.

  \<^bold>\<open>The program.\<close> \<^verbatim>\<open>main\<close> reads settings from the environment and calls
  \<^verbatim>\<open>gateway.New\<close>, which loads a YAML file of services, compiles it into a routing table and
  starts a watcher that recompiles the file when it changes. A request passes the client address,
  request id and span middlewares, is routed by host, method and path, is recorded by the metrics,
  passes the service's plugins (a body limit first) and reaches a load balancer. That one picks an
  origin by round robin, by the origin's cooldown, circuit breaker and probe state, and hands the
  request to a reverse proxy over a retrying transport. Probers and log flushers run beside the
  requests, one generation of them per configuration.

  \<^bold>\<open>Theories and sources.\<close> Each theory opens with what it holds; \<open>\<dots>\<close> stands for
  \<^verbatim>\<open>gateway/internal\<close>.

  \<^item> \<^verbatim>\<open>Prelude\<close>: instants and durations, 64-bit wrap-around, strings, error results.
  \<^item> \<^verbatim>\<open>Float64\<close>, \<^verbatim>\<open>Durations\<close>: IEEE double arithmetic, \<^verbatim>\<open>time.ParseDuration\<close>.
  \<^item> \<^verbatim>\<open>Http\<close>, \<^verbatim>\<open>Response_Writer\<close>: headers, bodies, requests, the network as an oracle, and
    response writers with the wrappers of the metrics and of \<open>response_headers\<close>. The locale
    \<open>middleware\<close> is the contract every plugin and middleware keeps.
  \<^item> \<^verbatim>\<open>Net_Addr\<close>, \<^verbatim>\<open>Client_IP\<close>: \<^verbatim>\<open>net/netip\<close> and \<^verbatim>\<open>\<dots>/clientip\<close>.
  \<^item> \<^verbatim>\<open>Config\<close>: \<^verbatim>\<open>\<dots>/config\<close>, types, validation and the watcher. \<^verbatim>\<open>Polling\<close> has the
    locale \<open>polled_resource\<close>, kept by the watcher and by the certificate reloader.
  \<^item> \<^verbatim>\<open>Plugins\<close>, \<^verbatim>\<open>Rate_Limiting\<close>, \<^verbatim>\<open>Http_Log\<close>, \<^verbatim>\<open>Registry\<close>: \<^verbatim>\<open>\<dots>/plugin\<close>. The locale
    \<open>token_store\<close> is the contract of the two rate limiting stores. \<^verbatim>\<open>Plugin_Types\<close> states
    what the constructors accept as a typing judgement on the untyped configuration.
    \<^verbatim>\<open>Limiter_Races\<close> lets any number of requests wait for the mutex of a store with the
    clock readings they have already taken.
  \<^item> \<^verbatim>\<open>Tracing\<close>, \<^verbatim>\<open>Metrics\<close>: \<^verbatim>\<open>\<dots>/tracing\<close>, \<^verbatim>\<open>\<dots>/metrics\<close>.
  \<^item> \<^verbatim>\<open>Origin\<close>, \<^verbatim>\<open>Retry\<close>, \<^verbatim>\<open>Reverse_Proxy\<close>, \<^verbatim>\<open>Load_Balancer\<close>: \<^verbatim>\<open>\<dots>/proxy\<close>; locales
    \<open>round_tripper\<close> and, extending it, \<open>reverse_proxy\<close>. \<^verbatim>\<open>Balancer_Steps\<close> cuts the load
    balancer into the steps between its atomic operations and lets any number of requests run at once;
    \<^verbatim>\<open>Origin_Locks\<close> cuts the calls it makes on an origin's state into locking, loads, stores and
    unlocking, and shows that they act as the single steps they are there.
  \<^item> \<^verbatim>\<open>Servemux\<close>, \<^verbatim>\<open>Router\<close>: \<^verbatim>\<open>http.ServeMux\<close> (patterns, conflicts, matching, redirects) and
    \<^verbatim>\<open>\<dots>/router\<close>.
  \<^item> \<^verbatim>\<open>Gateway\<close>, \<^verbatim>\<open>Gateway_Build\<close>, \<^verbatim>\<open>Gateway_Process\<close>, \<^verbatim>\<open>Gateway_Lifecycle\<close>:
    \<^verbatim>\<open>gateway/gateway.go\<close>; the model, the acceptance of a configuration as an abstract
    specification, the process as a sequence of events, and the properties of its runs.
    \<^verbatim>\<open>Reload_Steps\<close> takes a hot reload and \<^verbatim>\<open>Close\<close> apart into atomic operations that
    interleave with each other and with requests.
  \<^item> \<^verbatim>\<open>Certificates\<close>, \<^verbatim>\<open>Dealer_Main\<close>: \<^verbatim>\<open>cmd/dealer\<close> and its packages, and \<^verbatim>\<open>config\<close>.
    \<^verbatim>\<open>Service_Protection\<close>: what \<open>jwt_auth\<close> and \<open>rate_limiting\<close> do, through the whole gateway, for
    the origins behind them.
  \<^item> \<^verbatim>\<open>Load_Test\<close>: the tools under \<^verbatim>\<open>src/loadtest\<close>, a token minter and stub origins.

  \<^bold>\<open>State.\<close> The world a handler runs in is a record extended theory by theory: clock, network
  and random oracle (\<open>env\<close>), rate limiting stores (\<open>plugin_world\<close>), spans (\<open>trace_world\<close>), log
  buffers (\<open>log_world\<close>), origin states and counters (\<open>lb_world\<close>), samples (\<open>metrics_world\<close>). Objects
  the code shares by pointer are numbered. A handler takes a writer, a request and a world; it
  returns or panics. The theories of steps have states of their own, related to the sequential model by
  \<open>lone_request_is_handler\<close>, \<open>steps_refine_gateway\<close> and \<open>rateLimitingWrap_steps\<close>, and to each other by
  \<open>locked_sections_atomic\<close>. Errors are
  values of sum types, a \<^verbatim>\<open>log.Fatalf\<close> and a panic outside a handler too. Go's zero time is instant 0.

  \<^bold>\<open>What is shown.\<close> Client addresses cannot be spoofed; a token bucket admits no more than
  its burst and rate in any window, with the rounding of doubles and with concurrent requests whose
  clock readings reach it out of order, and so bounds the calls to the origins one client causes;
  without a token signed by HMAC under the configured secret no request reaches the origins behind
  \<open>jwt_auth\<close>; under every interleaving an open breaker is never dialled, round robin is fair, a request that
  waits for a lock waits for a goroutine about to release it, and origin states keep their invariant; unsafe methods are sent once,
  retries are bounded; a plugin is built exactly from a configuration of its type; what an origin
  receives and what a client gets back; CORS never combines credentials with the wildcard; routing
  and building refine their specifications; the
  process serves one accepted configuration between any two of its events, recovers from refused ones, runs one
  generation of goroutines, two while a reload swaps them, and stops them all when it is closed and no
  reload overlaps. The last properties of the list state where the code falls short: a reload that outlives \<^verbatim>\<open>Close\<close>, configurations and settings that end
  the process, lines lost on reload or on a slow shutdown, clients locked out by a low rate, a
  limiter turned off by one that is not a number, and headers a client can strip.

  \<^bold>\<open>Bounds.\<close> No definition takes fuel except \<open>durationSum\<close>, started with the length of its
  input, which every step shortens. The retry loop ends by its attempt counter, the buffered writer
  by what is left to write. The rate limiting bounds are for rates and bursts up to a million and
  buckets that refill within ten minutes, after which the sweep drops them (\<open>sweep_grants_burst\<close>); the one for concurrent requests, moreover, for waits for
  the mutex of at most a second, twice which is taken off the ten minutes, and for up to \<open>10^14\<close> calls,
  over which the rounding stays harmless. The origin invariant is for fewer than \<open>2^63\<close> failures
  (steps, where requests interleave), the scan of the load balancer and the rotation of the origins
  for counters that do not wrap in it.

  \<^bold>\<open>Not modelled.\<close> Third-party code and what the platform decides are parameters: the YAML
  decoder, \<^verbatim>\<open>url.Parse\<close> and the rendering of URLs, the JWT library, SugarDB, the OpenTelemetry SDK,
  autocert, certificate parsing, time zones. Interleavings are modelled for the load balancer with
  its probes, for reload, requests and \<^verbatim>\<open>Close\<close>, and for the in-memory rate limiter; elsewhere handlers
  run one after the other, which their locks allow: a log buffer is used in one critical section, and
  the counters of the distributed limiter are SugarDB's. What is said of runs of whole events says nothing of
  requests in flight across a reload. Left out are the informational responses of
  attempts that are retried, what the timeouts of the servers and of the transport to the origins do (the
  servers' are fields without a consequence here; the origin timeout only decides which of its answers the
  network gives, and every one is allowed), trailers, the intervals at which
  streamed bodies are flushed, percent-encoding in mux patterns and request paths, the profiler and the
  Prometheus exposition, output to standard error, and the race detector flag, which only tests read.
\<close>

end
